(* ===== verification/Drt_Prelude.thy ===== *)
theory Drt_Prelude
  imports Main "HOL-Library.Word"
begin

unbundle bit_operations_syntax

text \<open>
  Shared vocabulary of the development: the machine types of \<^verbatim>\<open>src/src/core/base/types.hxx\<close>,
  the exceptions of \<^verbatim>\<open>src/src/core/except\<close> as values of one datatype, the two result shapes
  the component models use (a sum for code without a mutable receiver, a state transformer that
  also returns a sum for methods of an object), bounded memory access, little- and big-endian
  byte sequences, and the generic lemmas on lists, options and words the components share.
\<close>

section \<open>Machine types\<close>

type_synonym byte = "8 word"
type_synonym u16 = "16 word"
type_synonym u32 = "32 word"
type_synonym u64 = "64 word"

section \<open>Exceptions\<close>

text \<open>
  The constructors carry the arguments the source passes to the exception's constructor;
  \<open>PlainException\<close> is the base class \<^verbatim>\<open>Exception\<close>, thrown without arguments.
  \<open>OutOfBounds\<close> is not an exception of the library: it marks an access outside the memory the
  code was given, which is undefined behaviour in C++.  \<open>AssertFailed\<close> marks a failed
  \<^verbatim>\<open>DR_Assert\<close>, \<open>NullAccess\<close> a dereference of \<^verbatim>\<open>NULL\<close> and \<open>Unreachable\<close> a switch that
  has no case for the value.  \<open>Undefined\<close> marks an arithmetic operation C++ leaves undefined that the
  machine does not define either (a shift by a negative or too large count).  \<open>Diverges\<close> is the value of a loop that would go on forever.
\<close>

datatype exn =
    EndOfDataException string string
  | InvalidFormatException string "byte list"
  | OverflowException string
  | UnsupportedException string
  | IllegalStateException string
  | DataNotFoundException string "byte list"
  | PlainException
  | DivByZero
  | OutOfBounds
  | NullAccess
  | AssertFailed
  | Unreachable
  | Undefined
  | Diverges

type_synonym 'a result = "exn + 'a"
type_synonym ('s, 'a) smethod = "'s \<Rightarrow> 'a result \<times> 's"

named_theorems drt_monad \<open>unfolding rules of the result and state combinators\<close>
named_theorems drt_split \<open>case-split rules for results\<close>

definition ebind :: "'a result \<Rightarrow> ('a \<Rightarrow> 'b result) \<Rightarrow> 'b result" where
  "ebind m f = (case m of Inl e \<Rightarrow> Inl e | Inr x \<Rightarrow> f x)"

lemma ebind_Inl [simp]: "ebind (Inl e) f = Inl e"
  by (simp add: ebind_def)

lemma ebind_Inr [simp]: "ebind (Inr x) f = f x"
  by (simp add: ebind_def)

lemma ebind_eq_Inr: "ebind m f = Inr y \<longleftrightarrow> (\<exists>x. m = Inr x \<and> f x = Inr y)"
  by (cases m) auto

lemma ebind_cong [fundef_cong]:
  assumes "m = m'" and "\<And>x. m' = Inr x \<Longrightarrow> f x = f' x"
  shows "ebind m f = ebind m' f'"
  using assms by (cases m') auto

definition sreturn :: "'a \<Rightarrow> ('s, 'a) smethod" where
  [drt_monad]: "sreturn x s = (Inr x, s)"

definition sthrow :: "exn \<Rightarrow> ('s, 'a) smethod" where
  [drt_monad]: "sthrow e s = (Inl e, s)"

definition sbind :: "('s, 'a) smethod \<Rightarrow> ('a \<Rightarrow> ('s, 'b) smethod) \<Rightarrow> ('s, 'b) smethod" where
  "sbind m f s = (case m s of (r, s') \<Rightarrow> (case r of Inl e \<Rightarrow> (Inl e, s') | Inr x \<Rightarrow> f x s'))"

lemma sbind_Inl [drt_monad]: "m s = (Inl e, s') \<Longrightarrow> sbind m f s = (Inl e, s')"
  by (simp add: sbind_def)

lemma sbind_Inr [drt_monad]: "m s = (Inr x, s') \<Longrightarrow> sbind m f s = f x s'"
  by (simp add: sbind_def)

lemma sbind_eq_Inr:
  "sbind m f s = (Inr y, s'') \<longleftrightarrow> (\<exists>x s'. m s = (Inr x, s') \<and> f x s' = (Inr y, s''))"
  by (auto simp: sbind_def split: prod.splits sum.splits)

lemma sbind_cong [fundef_cong]:
  assumes "m s = m' s'" and "s = s'" and "\<And>x t. m' s' = (Inr x, t) \<Longrightarrow> f x t = f' x t"
  shows "sbind m f s = sbind m' f' s'"
  using assms by (auto simp: sbind_def split: prod.splits sum.splits)

section \<open>Memory\<close>

text \<open>
  A block of memory is the list of its bytes.  \<open>mem_get\<close>, \<open>mem_read\<close> and \<open>mem_write\<close> fail outside
  the block, where the C++ program has undefined behaviour.
\<close>

definition mem_get :: "'a list \<Rightarrow> nat \<Rightarrow> 'a result" where
  "mem_get m i = (if i < length m then Inr (m ! i) else Inl OutOfBounds)"

definition mem_read :: "'a list \<Rightarrow> nat \<Rightarrow> nat \<Rightarrow> 'a list result" where
  "mem_read m off n = (if off + n \<le> length m then Inr (take n (drop off m)) else Inl OutOfBounds)"

definition mem_write :: "'a list \<Rightarrow> nat \<Rightarrow> 'a list \<Rightarrow> 'a list result" where
  "mem_write m off bs =
     (if off + length bs \<le> length m
      then Inr (take off m @ bs @ drop (off + length bs) m) else Inl OutOfBounds)"

lemma mem_get_Inr [simp]: "i < length m \<Longrightarrow> mem_get m i = Inr (m ! i)"
  by (simp add: mem_get_def)

lemma mem_get_Inl [simp]: "length m \<le> i \<Longrightarrow> mem_get m i = Inl OutOfBounds"
  by (simp add: mem_get_def)

lemma mem_get_append1 [simp]: "i < length xs \<Longrightarrow> mem_get (xs @ ys) i = mem_get xs i"
  by (simp add: mem_get_def nth_append)

lemma mem_write_length: "mem_write m off bs = Inr m' \<Longrightarrow> length m' = length m"
  by (auto simp: mem_write_def split: if_splits)

lemma mem_write_take: "mem_write m off bs = Inr m' \<Longrightarrow> take off m' = take off m"
  by (auto simp: mem_write_def split: if_splits)

lemma mem_write_take_more:
  "mem_write m off bs = Inr m' \<Longrightarrow> k \<le> length bs \<Longrightarrow>
   take (off + k) m' = take off m @ take k bs"
  by (auto simp: mem_write_def min_def split: if_splits)

lemma take_drop_split: "off + n \<le> length xs \<Longrightarrow> xs = take off xs @ take n (drop off xs) @ drop (off + n) xs"
  by (metis append_take_drop_id drop_drop add.commute)

lemma mem_write_ok: "off + length bs \<le> length m \<Longrightarrow> \<exists>m'. mem_write m off bs = Inr m'"
  by (simp add: mem_write_def)

lemma take_nth3: "off + 3 \<le> length m \<Longrightarrow> take 3 (drop off m) = [m ! off, m ! (off + 1), m ! (off + 2)]"
  by (simp add: take_Suc_conv_app_nth numeral_3_eq_3)

lemma take_nth2: "off + 2 \<le> length m \<Longrightarrow> take 2 (drop off m) = [m ! off, m ! (off + 1)]"
  by (simp add: take_Suc_conv_app_nth numeral_2_eq_2)

lemma take_nth1: "off + 1 \<le> length m \<Longrightarrow> take 1 (drop off m) = [m ! off]"
  by (simp add: take_Suc_conv_app_nth)

lemma take_prefixD: "take (length xs) ys = xs \<Longrightarrow> ys = xs @ drop (length xs) ys"
  by (metis append_take_drop_id)

section \<open>Bits of a byte\<close>

lemma byte_bit_eqI:
  "(bit a 0 \<longleftrightarrow> bit b 0) \<Longrightarrow> (bit a 1 \<longleftrightarrow> bit b 1) \<Longrightarrow> (bit a 2 \<longleftrightarrow> bit b 2) \<Longrightarrow> (bit a 3 \<longleftrightarrow> bit b 3) \<Longrightarrow>
   (bit a 4 \<longleftrightarrow> bit b 4) \<Longrightarrow> (bit a 5 \<longleftrightarrow> bit b 5) \<Longrightarrow> (bit a 6 \<longleftrightarrow> bit b 6) \<Longrightarrow> (bit a 7 \<longleftrightarrow> bit b 7) \<Longrightarrow> a = (b :: byte)"
proof (rule bit_word_eqI)
  fix n assume h: "(bit a 0 \<longleftrightarrow> bit b 0)" "(bit a 1 \<longleftrightarrow> bit b 1)" "(bit a 2 \<longleftrightarrow> bit b 2)"
     "(bit a 3 \<longleftrightarrow> bit b 3)" "(bit a 4 \<longleftrightarrow> bit b 4)" "(bit a 5 \<longleftrightarrow> bit b 5)" "(bit a 6 \<longleftrightarrow> bit b 6)" "(bit a 7 \<longleftrightarrow> bit b 7)"
    and n: "n < LENGTH(8)"
  from n have "n \<in> {0, 1, 2, 3, 4, 5, 6, 7}" by auto
  with h show "bit a n \<longleftrightarrow> bit b n" by auto
qed

lemma bit_byte_ge: "8 \<le> n \<Longrightarrow> \<not> bit (a :: byte) n"
  by (auto dest: bit_imp_le_length)

section \<open>Byte order\<close>

text \<open>
  The little-endian octets of a number and the number of a little-endian octet sequence.  They
  are the reference the shift-and-mask code of the readers and writers is compared with.
\<close>

fun le_bytes :: "nat \<Rightarrow> nat \<Rightarrow> byte list" where
  "le_bytes 0 v = []"
| "le_bytes (Suc n) v = of_nat (v mod 256) # le_bytes n (v div 256)"

fun le_value :: "byte list \<Rightarrow> nat" where
  "le_value [] = 0"
| "le_value (b # bs) = unat b + 256 * le_value bs"

definition be_bytes :: "nat \<Rightarrow> nat \<Rightarrow> byte list" where
  "be_bytes n v = rev (le_bytes n v)"

definition be_value :: "byte list \<Rightarrow> nat" where
  "be_value bs = le_value (rev bs)"

lemma length_le_bytes [simp]: "length (le_bytes n v) = n"
  by (induction n v rule: le_bytes.induct) auto

lemma length_be_bytes [simp]: "length (be_bytes n v) = n"
  by (simp add: be_bytes_def)

lemma unat_byte_less: "unat (b :: byte) < 256"
  using unsigned_less[of b] by simp

lemma unat_of_nat_byte [simp]: "unat (of_nat (v mod 256) :: byte) = v mod 256"
  by (simp add: unat_of_nat)

lemma le_value_le_bytes: "le_value (le_bytes n v) = v mod 256 ^ n"
proof (induction n v rule: le_bytes.induct)
  case (1 v)
  then show ?case by simp
next
  case (2 n v)
  have "v mod 256 ^ Suc n = v mod 256 + 256 * (v div 256 mod 256 ^ n)"
    by (simp add: mod_mult2_eq)
  with 2 show ?case by simp
qed

lemma le_value_bound: "le_value bs < 256 ^ length bs"
proof (induction bs)
  case (Cons b bs)
  have "unat b < 256"
    by (rule unat_byte_less)
  moreover have "le_value bs + 1 \<le> 256 ^ length bs"
    using Cons.IH by simp
  then have "256 * (le_value bs + 1) \<le> 256 * 256 ^ length bs"
    by (rule mult_le_mono2)
  ultimately show ?case by simp
qed simp

lemma le_bytes_le_value: "le_bytes (length bs) (le_value bs) = bs"
proof (induction bs)
  case (Cons b bs)
  have b: "unat b < 256"
    by (rule unat_byte_less)
  have "(unat b + 256 * le_value bs) mod 256 = unat b"
    and "(unat b + 256 * le_value bs) div 256 = le_value bs"
    using b by simp_all
  with Cons.IH show ?case by simp
qed simp

lemma be_value_be_bytes: "be_value (be_bytes n v) = v mod 256 ^ n"
  by (simp add: be_value_def be_bytes_def le_value_le_bytes)

lemma le_value_append: "le_value (xs @ ys) = le_value xs + 256 ^ length xs * le_value ys"
  by (induction xs) (simp_all add: algebra_simps)

lemma ucast_mod_byte: "(of_nat (unat v mod 256) :: byte) = ucast (v :: 'a::len word)"
proof (rule unsigned_word_eqI)
  show "unat (of_nat (unat v mod 256) :: byte) = unat (ucast v :: byte)"
    by (simp only: unat_of_nat_byte unsigned_ucast_eq take_bit_eq_mod) simp
qed

lemma unat_div_256: "unat v div 256 = unat (drop_bit 8 (v :: 'a::len word))"
  by (simp only: unat_drop_bit_eq) (simp add: drop_bit_eq_div)

lemma le_bytes_word_Suc: "le_bytes (Suc n) (unat v) = ucast v # le_bytes n (unat (drop_bit 8 v))"
  by (simp add: ucast_mod_byte unat_div_256)

lemma of_nat_le_value_le_bytes:
  "LENGTH('a) = 8 * n \<Longrightarrow> (of_nat (le_value (le_bytes n (unat v))) :: 'a::len word) = v"
proof -
  assume "LENGTH('a) = 8 * n"
  then have "unat v < 256 ^ n"
    using unsigned_less [of v] by (simp add: power_mult)
  then show ?thesis by (simp add: le_value_le_bytes)
qed

lemma le_bytes_2_4_8:
  "le_bytes 2 n = le_bytes (Suc (Suc 0)) n"
  "le_bytes 4 n = le_bytes (Suc (Suc (Suc (Suc 0)))) n"
  "le_bytes 8 n = le_bytes (Suc (Suc (Suc (Suc (Suc (Suc (Suc (Suc 0)))))))) n"
  by (rule arg_cong2 [OF _ refl, of _ _ le_bytes], simp)+

lemma write_octets:
  "le_bytes 2 (unat (v :: 'a::len word)) = [ucast v, ucast (drop_bit 8 v)]"
  "le_bytes 4 (unat v) = [ucast v, ucast (drop_bit 8 v), ucast (drop_bit 16 v), ucast (drop_bit 24 v)]"
  "le_bytes 8 (unat v) = [ucast v, ucast (drop_bit 8 v), ucast (drop_bit 16 v), ucast (drop_bit 24 v),
     ucast (drop_bit 32 v), ucast (drop_bit 40 v), ucast (drop_bit 48 v), ucast (drop_bit 56 v)]"
  by (simp_all only: le_bytes_2_4_8 le_bytes_word_Suc le_bytes.simps(1) drop_bit_drop_bit)
     (simp_all add: numeral_eq_Suc)

lemma take_le_bytes: "n \<le> m \<Longrightarrow> take n (le_bytes m v) = le_bytes n v"
proof (induction m v arbitrary: n rule: le_bytes.induct)
  case (2 m v)
  then show ?case by (cases n) auto
qed simp

end
