(* ===== verification/Drt_Base64.thy ===== *)
theory Drt_Base64
  imports Drt_Prelude
begin

text \<open>
  \<^verbatim>\<open>src/src/core/parse/MemBase64.cxx\<close>: base64 conversion.  The source and destination pointers are
  a memory block (a byte list) and an offset into it, so that reads after the end of the source
  and writes after the end of the destination are values of the model (\<open>OutOfBounds\<close>).
  The main results: decoding the encoder's output gives the data back whatever bytes follow the
  data in memory, the two size formulas, and the inputs on which the decoder leaves its buffer.
\<close>

section \<open>Model\<close>

definition cb64 :: "byte list" where
  "cb64 = map of_char ''ABCDEFGHIJKLMNOPQRSTUVWXYZabcdefghijklmnopqrstuvwxyz0123456789+/''"

definition cd64 :: "byte list" where
  "cd64 =
    [0xff,0xff,0xff,0xff,0xff,0xff,0xff,0xff,0xff,0xfd,0xfd,0xff,0xff,0xfd,0xff,0xff,
     0xff,0xff,0xff,0xff,0xff,0xff,0xff,0xff,0xff,0xff,0xff,0xff,0xff,0xff,0xff,0xff,
     0xfd,0xff,0xff,0xff,0xff,0xff,0xff,0xff,0xff,0xff,0xff,0x3e,0xff,0xff,0xff,0x3f,
     0x34,0x35,0x36,0x37,0x38,0x39,0x3a,0x3b,0x3c,0x3d,0xff,0xff,0xff,0xfe,0xff,0xff,
     0xff,0x00,0x01,0x02,0x03,0x04,0x05,0x06,0x07,0x08,0x09,0x0a,0x0b,0x0c,0x0d,0x0e,
     0x0f,0x10,0x11,0x12,0x13,0x14,0x15,0x16,0x17,0x18,0x19,0xff,0xff,0xff,0xff,0xff,
     0xff,0x1a,0x1b,0x1c,0x1d,0x1e,0x1f,0x20,0x21,0x22,0x23,0x24,0x25,0x26,0x27,0x28,
     0x29,0x2a,0x2b,0x2c,0x2d,0x2e,0x2f,0x30,0x31,0x32,0x33]"

text \<open>
  \<open>encodeB64Block\<close> receives the source block, the offset of \<^verbatim>\<open>in\<close> and \<^verbatim>\<open>len\<close>.  \<^verbatim>\<open>in[0]\<close> and
  \<^verbatim>\<open>in[1]\<close> are read whatever \<^verbatim>\<open>len\<close> is, \<^verbatim>\<open>in[2]\<close> only if \<^verbatim>\<open>len > 1\<close>.
\<close>

definition encodeB64Block :: "byte list \<Rightarrow> nat \<Rightarrow> int \<Rightarrow> byte list result" where
  "encodeB64Block src off len =
     ebind (mem_get src off) (\<lambda>in0.
     ebind (mem_get src (off + 1)) (\<lambda>in1.
     ebind (if len > 1 then mem_get src (off + 2) else Inr 0) (\<lambda>in2.
       Inr [cb64 ! unat (drop_bit 2 in0),
            cb64 ! unat (push_bit 4 (in0 AND 0x03) OR drop_bit 4 (in1 AND 0xf0)),
            (if len > 1 then cb64 ! unat (push_bit 2 (in1 AND 0x0f) OR drop_bit 6 (in2 AND 0xc0))
             else of_char CHR ''=''),
            (if len > 2 then cb64 ! unat (in2 AND 0x3f) else of_char CHR ''='')])))"

text \<open>
  The loop of \<open>encodeBase64(dst, src, size)\<close>: the condition reads \<^verbatim>\<open>(ssize_t)size\<close>, so the size is
  an \<open>int\<close> that may fall below zero in the last round; the block receives it as a 32-bit \<^verbatim>\<open>int\<close>,
  which truncates it.  The destination is the concatenation of
  the blocks, and the returned length is its length.
\<close>

function encodeBase64_loop :: "byte list \<Rightarrow> nat \<Rightarrow> int \<Rightarrow> byte list result" where
  "encodeBase64_loop src off sz =
     (if sz > 0
      then ebind (encodeB64Block src off (sint (word_of_int sz :: u32))) (\<lambda>blk.
           ebind (encodeBase64_loop src (off + 3) (sz - 3)) (\<lambda>rest. Inr (blk @ rest)))
      else Inr [])"
  by pat_completeness auto
termination
  by (relation "measure (\<lambda>(src, off, sz). nat sz)") auto

declare encodeBase64_loop.simps [simp del]

definition encodeBase64 :: "byte list \<Rightarrow> nat \<Rightarrow> byte list result" where
  "encodeBase64 src sz = encodeBase64_loop src 0 (int sz)"

definition decodeBlock :: "byte list \<Rightarrow> byte list" where
  "decodeBlock bd =
     [push_bit 2 (bd ! 0) OR drop_bit 4 (bd ! 1),
      push_bit 4 (bd ! 1) OR drop_bit 2 (bd ! 2),
      (push_bit 6 (bd ! 2) AND 0xc0) OR bd ! 3]"

text \<open>
  What one source character means to \<open>decodeBase64\<close>: \<^verbatim>\<open>v\<close> is a signed char, so a source byte of
  128 or more is negative, passes the test \<^verbatim>\<open>v > 122\<close> and indexes the table before its start.
  A table entry of \<open>-1\<close> is an error, \<open>-2\<close> the padding that stops the input, any other negative
  one white space that \<^verbatim>\<open>goto retry_char\<close> skips.
\<close>

datatype b64sym = Sym byte | Stop | Skip

definition decode_char :: "byte \<Rightarrow> b64sym result" where
  "decode_char c =
     (if sint c > 122 then Inl (InvalidFormatException ''base64'' [c])
      else if sint c < 0 then Inl OutOfBounds
      else let v = cd64 ! unat c in
           if sint v < 0
           then (if v = 0xff then Inl (InvalidFormatException ''base64'' [v])
                 else if v = 0xfe then Inr Stop
                 else Inr Skip)
           else Inr (Sym v))"

text \<open>
  The inner \<^verbatim>\<open>for\<close> of \<open>decodeBase64\<close> with its \<^verbatim>\<open>retry_char\<close> jump: \<open>bd\<close> holds the \<^verbatim>\<open>i\<close> entries read
  so far.  \<^verbatim>\<open>size-- == 0\<close> decrements the 64-bit \<^verbatim>\<open>size\<close> also when the test succeeds, so it wraps.
  The result is \<open>(bd, i, pos, size)\<close> with \<^verbatim>\<open>bd\<close> filled up to four entries.
\<close>

function decode_fill ::
    "byte list \<Rightarrow> nat \<Rightarrow> u64 \<Rightarrow> byte list \<Rightarrow> (byte list \<times> nat \<times> nat \<times> u64) result" where
  "decode_fill src pos sz bd =
     (if length bd \<ge> 4 then Inr (bd, length bd, pos, sz)
      else if sz = 0 then Inr (bd @ replicate (4 - length bd) 0, length bd, pos, sz - 1)
      else if pos \<ge> length src then Inl OutOfBounds
      else (case decode_char (src ! pos) of
              Inl e \<Rightarrow> Inl e
            | Inr Stop \<Rightarrow> Inr (bd @ replicate (4 - length bd) 0, length bd, Suc pos, 0)
            | Inr Skip \<Rightarrow> decode_fill src (Suc pos) (sz - 1) bd
            | Inr (Sym v) \<Rightarrow> decode_fill src (Suc pos) (sz - 1) (bd @ [v])))"
  by pat_completeness auto
termination
  by (relation "measure (\<lambda>(src, pos, sz, bd). length src - pos)") auto

declare decode_fill.simps [simp del]

lemma decode_fill_progress:
  "decode_fill src pos sz bd = Inr (bd', i, pos', sz') \<Longrightarrow>
   pos \<le> pos' \<and> length bd \<le> i \<and> (i > length bd \<longrightarrow> pos < pos' \<and> pos < length src)"
proof (induction src pos sz bd rule: decode_fill.induct)
  case (1 src pos sz bd)
  show ?case
  proof (cases "length bd \<ge> 4 \<or> sz = 0 \<or> pos \<ge> length src")
    case True
    with "1.prems" show ?thesis
      by (auto simp: decode_fill.simps [of src pos sz bd] split: if_splits)
  next
    case False
    then show ?thesis
      using "1.prems" "1.IH"
      by (auto simp: decode_fill.simps [of src pos sz bd] split: sum.splits b64sym.splits)
  qed
qed

text \<open>
  The outer loop.  \<open>decodeBlock\<close> always stores three bytes at \<^verbatim>\<open>dstc\<close>, which then moves by \<^verbatim>\<open>i-1\<close>.
  The result is the number of bytes and the destination block.
\<close>

function decode_loop ::
    "byte list \<Rightarrow> nat \<Rightarrow> u64 \<Rightarrow> byte list \<Rightarrow> nat \<Rightarrow> (nat \<times> byte list) result" where
  "decode_loop src pos sz dst off =
     (case decode_fill src pos sz [] of
        Inl e \<Rightarrow> Inl e
      | Inr (bd, i, pos', sz') \<Rightarrow>
          if i = 0 then Inr (off, dst)
          else (case mem_write dst off (decodeBlock bd) of
                  Inl e \<Rightarrow> Inl e
                | Inr dst' \<Rightarrow> decode_loop src pos' sz' dst' (off + (i - 1))))"
  by pat_completeness auto
termination
proof (relation "measure (\<lambda>(src, pos, sz, dst, off). length src - pos)", goal_cases)
  case 1
  then show ?case by simp
next
  case (2 src pos sz dst off z x1 y x2 y' x3 w dst')
  then show ?case
    using decode_fill_progress [of src pos sz "[]" x1 x2 x3 w] by auto
qed

declare decode_loop.simps [simp del]

definition decodeBase64 :: "byte list \<Rightarrow> byte list \<Rightarrow> nat \<Rightarrow> (nat \<times> byte list) result" where
  "decodeBase64 dst src sz = decode_loop src 0 (of_nat sz) dst 0"

text \<open>
  The two \<open>Blob\<close> wrappers.  \<open>lock(n)\<close> of an empty string gives a fresh block of \<open>n + 1\<close> bytes
  (\<^verbatim>\<open>String_c::lock\<close> calls \<open>allocDg(size+1)\<close>), \<open>unlock(n)\<close> asserts \<open>n < al\<close> and sets the size; the
  bytes of a string are followed by a zero.
\<close>

definition blob_mem :: "byte list \<Rightarrow> byte list" where
  "blob_mem data = data @ [0]"

definition blob_lock :: "nat \<Rightarrow> byte list" where
  "blob_lock n = replicate (n + 1) 0"

definition blob_unlock :: "byte list \<Rightarrow> nat \<Rightarrow> byte list result" where
  "blob_unlock m n = (if n < length m then Inr (take n m) else Inl AssertFailed)"

definition encodeBase64_blob :: "byte list \<Rightarrow> byte list result" where
  "encodeBase64_blob data =
     ebind (encodeBase64 (blob_mem data) (length data)) (\<lambda>out.
     ebind (mem_write (blob_lock ((length data + 2) div 3 * 4)) 0 out) (\<lambda>m.
       blob_unlock m (length out)))"

definition decodeBase64_blob :: "byte list \<Rightarrow> byte list result" where
  "decodeBase64_blob data =
     ebind (decodeBase64 (blob_lock (length data div 4 * 3)) (blob_mem data) (length data))
       (\<lambda>(n, m). blob_unlock m n)"

section \<open>Lemmas\<close>

lemma length_cb64 [simp]: "length cb64 = 64"
  by (simp add: cb64_def)

lemma decode_char_cb64_all: "\<forall>v\<in>set [0..<64]. decode_char (cb64 ! v) = Inr (Sym (of_nat v))"
  by code_simp

lemma decode_char_cb64: "unat v < 64 \<Longrightarrow> decode_char (cb64 ! unat v) = Inr (Sym v)"
  using decode_char_cb64_all by simp

lemma decode_char_pad: "decode_char (of_char CHR ''='') = Inr Stop"
  by code_simp

definition b64_idx :: "byte \<Rightarrow> byte \<Rightarrow> byte \<Rightarrow> byte list" where
  "b64_idx a b c =
     [drop_bit 2 a, push_bit 4 (a AND 0x03) OR drop_bit 4 (b AND 0xf0),
      push_bit 2 (b AND 0x0f) OR drop_bit 6 (c AND 0xc0), c AND 0x3f]"

lemma decodeBlock_b64_idx: "decodeBlock (b64_idx a b c) = [a, b, c]"
  unfolding decodeBlock_def b64_idx_def
  by (auto intro!: byte_bit_eqI simp: bit_simps)

lemma byte_lt_64I: "\<not> bit x 6 \<Longrightarrow> \<not> bit x 7 \<Longrightarrow> unat (x :: byte) < 64"
proof -
  assume "\<not> bit x 6" and "\<not> bit x 7"
  then have "x = take_bit 6 x"
    by (auto intro!: byte_bit_eqI simp: bit_simps)
  then have "unat x = take_bit 6 (unat x)"
    by (metis unsigned_take_bit_eq)
  also have "\<dots> < 2 ^ 6"
    by (rule take_bit_nat_less_exp)
  finally show ?thesis by simp
qed

lemma b64_idx_lt: "\<forall>i\<in>set (b64_idx a b c). unat i < 64"
  by (auto simp: b64_idx_def bit_simps bit_byte_ge intro!: byte_lt_64I)

lemma decode_fill_Sym:
  assumes "length bd < 4" and "sz \<noteq> 0" and "pos < length src"
    and "decode_char (src ! pos) = Inr (Sym v)"
  shows "decode_fill src pos sz bd = decode_fill src (Suc pos) (sz - 1) (bd @ [v])"
  using assms by (simp add: decode_fill.simps [of src pos sz bd])

lemma decode_fill_Stop:
  assumes "length bd < 4" and "sz \<noteq> 0" and "pos < length src"
    and "decode_char (src ! pos) = Inr Stop"
  shows "decode_fill src pos sz bd = Inr (bd @ replicate (4 - length bd) 0, length bd, Suc pos, 0)"
  using assms by (simp add: decode_fill.simps [of src pos sz bd])

lemma decode_fill_full: "4 \<le> length bd \<Longrightarrow> decode_fill src pos sz bd = Inr (bd, length bd, pos, sz)"
  by (simp add: decode_fill.simps)

text \<open>A run of alphabet characters is collected as long as it fits the quad.\<close>

lemma decode_fill_run:
  assumes "length bd + length vs \<le> 4" and "\<forall>v\<in>set vs. unat v < 64"
    and "length vs \<le> unat sz" and "drop pos src = map (\<lambda>v. cb64 ! unat v) vs @ rest"
  shows "decode_fill src pos sz bd =
         decode_fill src (pos + length vs) (sz - of_nat (length vs)) (bd @ vs)"
  using assms
proof (induction vs arbitrary: pos sz bd)
  case Nil
  then show ?case by simp
next
  case (Cons v vs)
  have pos: "pos < length src"
    using Cons.prems(4) by (cases "pos < length src") auto
  then have "src ! pos # drop (Suc pos) src = map (\<lambda>v. cb64 ! unat v) (v # vs) @ rest"
    using Cons.prems(4) by (simp add: Cons_nth_drop_Suc)
  then have at: "src ! pos = cb64 ! unat v" and tl: "drop (Suc pos) src = map (\<lambda>v. cb64 ! unat v) vs @ rest"
    by simp_all
  have nz: "sz \<noteq> 0"
    using Cons.prems(3) by auto
  have "decode_fill src pos sz bd = decode_fill src (Suc pos) (sz - 1) (bd @ [v])"
    using Cons.prems nz pos at by (intro decode_fill_Sym) (auto simp: decode_char_cb64)
  also have "\<dots> = decode_fill src (Suc pos + length vs) (sz - 1 - of_nat (length vs)) ((bd @ [v]) @ vs)"
    using Cons.prems nz tl by (intro Cons.IH) (auto simp: unat_minus_one)
  finally show ?case by (simp add: algebra_simps)
qed

text \<open>One block of the encoder's output, in terms of the four indices.\<close>

lemma encodeB64Block_full:
  assumes "off + 3 \<le> length src" and "3 \<le> len"
  shows "encodeB64Block src off len =
    Inr (map (\<lambda>v. cb64 ! unat v) (b64_idx (src ! off) (src ! (off + 1)) (src ! (off + 2))))"
  using assms by (simp add: encodeB64Block_def b64_idx_def)

lemma encodeB64Block_two:
  assumes "off + 3 \<le> length src"
  shows "encodeB64Block src off 2 =
    Inr (map (\<lambda>v. cb64 ! unat v) (take 3 (b64_idx (src ! off) (src ! (off + 1)) (src ! (off + 2))))
         @ [of_char CHR ''=''])"
  using assms by (simp add: encodeB64Block_def b64_idx_def)

lemma encodeB64Block_one:
  assumes "off + 2 \<le> length src"
  shows "encodeB64Block src off 1 =
    Inr (map (\<lambda>v. cb64 ! unat v) (take 2 (b64_idx (src ! off) (src ! (off + 1)) 0))
         @ [of_char CHR ''='', of_char CHR ''=''])"
  using assms by (simp add: encodeB64Block_def b64_idx_def)

lemma b64_idx_take3: "take 2 (decodeBlock (take 3 (b64_idx a b c) @ [0])) = [a, b]"
  unfolding decodeBlock_def b64_idx_def
  by (auto intro!: byte_bit_eqI simp: bit_simps)

lemma b64_idx_take2: "take 1 (decodeBlock (take 2 (b64_idx a b c) @ [0, 0])) = [a]"
  unfolding decodeBlock_def b64_idx_def
  by (auto intro!: byte_bit_eqI simp: bit_simps)

text \<open>What the decoder does with one quad, by the number of data characters in it.\<close>

lemma decode_fill_quad:
  assumes "drop pos src = map (\<lambda>v. cb64 ! unat v) vs @ replicate (4 - length vs) (of_char CHR ''='') @ rest"
    and "\<forall>v\<in>set vs. unat v < 64" and "length vs \<le> 4" and "4 \<le> unat sz"
  shows "decode_fill src pos sz [] =
    Inr (vs @ replicate (4 - length vs) 0, length vs,
         pos + (if length vs = 4 then 4 else length vs + 1), if length vs = 4 then sz - 4 else 0)"
proof -
  have run: "decode_fill src pos sz [] = decode_fill src (pos + length vs) (sz - of_nat (length vs)) vs"
    using decode_fill_run [of "[]" vs sz pos src "replicate (4 - length vs) (of_char CHR ''='') @ rest"] assms
    by simp
  show ?thesis
  proof (cases "length vs = 4")
    case True
    then show ?thesis by (simp add: run decode_fill_full)
  next
    case False
    then have short: "length vs < 4" using assms(3) by simp
    then obtain k where k: "4 - length vs = Suc k" by (metis Suc_diff_Suc)
    have "drop (pos + length vs) src = of_char CHR ''='' # replicate k (of_char CHR ''='') @ rest"
      using assms(1) k by (metis (no_types, lifting) append_Cons append_eq_conv_conj drop_drop length_map replicate_Suc add.commute)
    then have pos: "pos + length vs < length src" and at: "src ! (pos + length vs) = of_char CHR ''=''"
      by (metis drop_all list.distinct(1) not_le, metis hd_drop_conv_nth list.sel(1) drop_all list.distinct(1) not_le)
    have "unat (sz - of_nat (length vs)) = unat sz - length vs"
      using short assms(4) by (subst unat_sub) (auto simp: word_le_nat_alt unat_of_nat take_bit_nat_eq_self)
    then have "sz - of_nat (length vs) \<noteq> 0"
      using short assms(4) by auto
    then show ?thesis
      using decode_fill_Stop [of vs "sz - of_nat (length vs)" "pos + length vs" src] short pos at
        decode_char_pad by (simp add: run)
  qed
qed

lemma decode_loop_quad:
  assumes "decode_fill src pos sz [] = Inr (bd, i, pos', sz')" and "0 < i"
    and "mem_write dst off (decodeBlock bd) = Inr dst'"
  shows "decode_loop src pos sz dst off = decode_loop src pos' sz' dst' (off + (i - 1))"
  using assms by (simp add: decode_loop.simps [of src pos sz dst off])

lemma decode_loop_end: "decode_loop src pos 0 dst off = Inr (off, dst)"
  by (simp add: decode_loop.simps [of src pos 0] decode_fill.simps [of src pos 0])

lemma length_decodeBlock [simp]: "length (decodeBlock bd) = 3"
  by (simp add: decodeBlock_def)

text \<open>A last, padded quad ends the input and leaves its one or two bytes.\<close>

lemma decode_loop_last:
  assumes "drop pos src = map (\<lambda>v. cb64 ! unat v) vs @ replicate (4 - length vs) (of_char CHR ''='') @ rest"
    and "\<forall>v\<in>set vs. unat v < 64" and "2 \<le> length vs" and "length vs < 4" and "4 \<le> unat sz"
    and "off + 3 \<le> length dst"
  shows "\<exists>dst'. decode_loop src pos sz dst off = Inr (off + (length vs - 1), dst') \<and>
    length dst' = length dst \<and>
    take (off + (length vs - 1)) dst' =
      take off dst @ take (length vs - 1) (decodeBlock (vs @ replicate (4 - length vs) 0))"
proof -
  let ?b = "decodeBlock (vs @ replicate (4 - length vs) 0)"
  obtain dst' where w: "mem_write dst off ?b = Inr dst'"
    using mem_write_ok [of off ?b dst] assms(6) by auto
  have "decode_loop src pos sz dst off = decode_loop src (pos + (length vs + 1)) 0 dst' (off + (length vs - 1))"
    using assms w by (intro decode_loop_quad) (auto simp: decode_fill_quad)
  then show ?thesis
    using mem_write_length [OF w] mem_write_take_more [OF w, of "length vs - 1"] assms(4)
    by (simp add: decode_loop_end)
qed

lemma encodeB64Block_bounds:
  "encodeB64Block src off len = Inr blk \<Longrightarrow>
   off + 2 \<le> length src \<and> (len > 1 \<longrightarrow> off + 3 \<le> length src)"
  by (auto simp: encodeB64Block_def mem_get_def ebind_eq_Inr split: if_splits)

lemma encode_loop_0: "encodeBase64_loop src off 0 = Inr []"
  by (simp add: encodeBase64_loop.simps)

lemma sint32_int: "0 \<le> n \<Longrightarrow> n < 2 ^ 31 \<Longrightarrow> sint (word_of_int n :: u32) = n"
  by (simp add: signed_of_int signed_take_bit_int_eq_self)

lemma encode_loop_last:
  "0 < n \<Longrightarrow> n < 3 \<Longrightarrow> encodeBase64_loop src off n = encodeB64Block src off n"
  by (cases "encodeB64Block src off n")
     (simp_all add: sint32_int encodeBase64_loop.simps [of src off n] encodeBase64_loop.simps [of src "off + 3" "n - 3"])

lemma encode_loop_block:
  "3 \<le> n \<Longrightarrow> n < 2 ^ 31 \<Longrightarrow> encodeBase64_loop src off (int n) =
     ebind (encodeB64Block src off (int n)) (\<lambda>blk.
     ebind (encodeBase64_loop src (off + 3) (int (n - 3))) (\<lambda>rest. Inr (blk @ rest)))"
  using sint32_int [of "int n"] by (simp add: encodeBase64_loop.simps [of src off "int n"])

lemma length_b64_idx [simp]: "length (b64_idx a b c) = 4"
  by (simp add: b64_idx_def)

lemma encodeB64Block_one_vs:
  assumes "encodeB64Block mem off 1 = Inr out"
  shows "\<exists>vs. length vs = 2 \<and> (\<forall>v\<in>set vs. unat v < 64) \<and>
    out = map (\<lambda>v. cb64 ! unat v) vs @ replicate 2 (of_char CHR ''='') \<and>
    take 1 (decodeBlock (vs @ replicate 2 0)) = take 1 (drop off mem)"
proof (intro exI conjI)
  let ?vs = "take 2 (b64_idx (mem ! off) (mem ! (off + 1)) 0)"
  have b: "off + 2 \<le> length mem" using assms by (auto dest: encodeB64Block_bounds)
  show "length ?vs = 2" by simp
  show "\<forall>v\<in>set ?vs. unat v < 64" using b64_idx_lt by (blast dest: in_set_takeD)
  show "out = map (\<lambda>v. cb64 ! unat v) ?vs @ replicate 2 (of_char CHR ''='')"
    using assms encodeB64Block_one [OF b] by (simp add: numeral_2_eq_2)
  show "take 1 (decodeBlock (?vs @ replicate 2 0)) = take 1 (drop off mem)"
    using b b64_idx_take2 [of "mem ! off" "mem ! (off + 1)" 0] take_nth1 [of off mem]
    by (simp add: numeral_2_eq_2)
qed

lemma encodeB64Block_two_vs:
  assumes "encodeB64Block mem off 2 = Inr out"
  shows "\<exists>vs. length vs = 3 \<and> (\<forall>v\<in>set vs. unat v < 64) \<and>
    out = map (\<lambda>v. cb64 ! unat v) vs @ replicate 1 (of_char CHR ''='') \<and>
    take 2 (decodeBlock (vs @ replicate 1 0)) = take 2 (drop off mem)"
proof (intro exI conjI)
  let ?vs = "take 3 (b64_idx (mem ! off) (mem ! (off + 1)) (mem ! (off + 2)))"
  have b: "off + 3 \<le> length mem" using assms by (auto dest: encodeB64Block_bounds)
  show "length ?vs = 3" by simp
  show "\<forall>v\<in>set ?vs. unat v < 64" using b64_idx_lt by (blast dest: in_set_takeD)
  show "out = map (\<lambda>v. cb64 ! unat v) ?vs @ replicate 1 (of_char CHR ''='')"
    using assms encodeB64Block_two [OF b] by simp
  show "take 2 (decodeBlock (?vs @ replicate 1 0)) = take 2 (drop off mem)"
    using b b64_idx_take3 [of "mem ! off" "mem ! (off + 1)" "mem ! (off + 2)"] take_nth2 [of off mem]
    by simp
qed

lemma encodeB64Block_short_vs:
  assumes "encodeB64Block mem off (int n) = Inr out" and "n = 1 \<or> n = 2"
  shows "\<exists>vs. length vs = n + 1 \<and> (\<forall>v\<in>set vs. unat v < 64) \<and>
    out = map (\<lambda>v. cb64 ! unat v) vs @ replicate (3 - n) (of_char CHR ''='') \<and>
    take n (decodeBlock (vs @ replicate (3 - n) 0)) = take n (drop off mem)"
  using assms(2)
proof
  assume "n = 1"
  with assms(1) show ?thesis using encodeB64Block_one_vs [of mem off out]
    by (simp add: numeral_2_eq_2)
next
  assume "n = 2"
  with assms(1) show ?thesis using encodeB64Block_two_vs [of mem off out] by simp
qed

lemma decode_encode_last:
  assumes "encodeB64Block mem off (int n) = Inr out" and n: "n = 1 \<or> n = 2"
    and "drop pos src = out @ rest"
    and "unat sz = length out" and "o2 + length out div 4 * 3 \<le> length dst"
  shows "\<exists>dst'. decode_loop src pos sz dst o2 = Inr (o2 + n, dst') \<and> length dst' = length dst \<and>
      take (o2 + n) dst' = take o2 dst @ take n (drop off mem)"
proof -
  obtain vs where vs: "length vs = n + 1" "\<forall>v\<in>set vs. unat v < 64"
      "out = map (\<lambda>v. cb64 ! unat v) vs @ replicate (3 - n) (of_char CHR ''='')"
      "take n (decodeBlock (vs @ replicate (3 - n) 0)) = take n (drop off mem)"
    using encodeB64Block_short_vs [OF assms(1,2)] by blast
  have "length out = 4" using vs(1,3) n by auto
  then show ?thesis
    using decode_loop_last [of pos src vs rest sz o2 dst] vs assms(3-5) n by auto
qed

lemma decode_encode_block:
  assumes "encodeB64Block mem off (int n) = Inr blk" and n: "3 \<le> n"
    and "drop pos src = blk @ rest" and sz: "unat sz = 4 + k" and dst: "o2 + 3 \<le> length dst"
  shows "\<exists>dst1. decode_loop src pos sz dst o2 = decode_loop src (pos + 4) (sz - 4) dst1 (o2 + 3) \<and>
      length blk = 4 \<and> length dst1 = length dst \<and>
      take (o2 + 3) dst1 = take o2 dst @ take 3 (drop off mem)"
proof -
  let ?vs = "b64_idx (mem ! off) (mem ! (off + 1)) (mem ! (off + 2))"
  have b: "off + 3 \<le> length mem" using assms(1) n by (auto dest: encodeB64Block_bounds)
  have blk: "blk = map (\<lambda>v. cb64 ! unat v) ?vs"
    using assms(1) n b encodeB64Block_full [of off mem "int n"] by simp
  obtain dst1 where w: "mem_write dst o2 (decodeBlock ?vs) = Inr dst1"
    using mem_write_ok [of o2 "decodeBlock ?vs" dst] dst by auto
  have fill: "decode_fill src pos sz [] = Inr (?vs, 4, pos + 4, sz - 4)"
    using decode_fill_quad [of pos src ?vs rest sz] assms(3) blk sz b64_idx_lt by simp
  have "decode_loop src pos sz dst o2 = decode_loop src (pos + 4) (sz - 4) dst1 (o2 + 3)"
    using decode_loop_quad [OF fill _ w] by simp
  moreover have "take (o2 + 3) dst1 = take o2 dst @ take 3 (drop off mem)"
    using mem_write_take_more [OF w, of 3] b by (simp add: decodeBlock_b64_idx take_nth3)
  ultimately show ?thesis
    using mem_write_length [OF w] blk by auto
qed

lemma decode_encode_loop:
  assumes "encodeBase64_loop mem off (int n) = Inr out" and "drop pos src = out @ rest"
    and "unat sz = length out" and "o2 + length out div 4 * 3 \<le> length dst" and "n < 2 ^ 31"
  shows "\<exists>dst'. decode_loop src pos sz dst o2 = Inr (o2 + n, dst') \<and> length dst' = length dst \<and>
      take (o2 + n) dst' = take o2 dst @ take n (drop off mem)"
  using assms
proof (induction n arbitrary: off out pos sz dst o2 rule: less_induct)
  case (less n)
  consider "n = 0" | "n = 1 \<or> n = 2" | "3 \<le> n" by linarith
  then show ?case
  proof cases
    case 1
    with less.prems have "sz = 0" by (simp add: encode_loop_0 unat_eq_0)
    with 1 show ?thesis by (simp add: decode_loop_end)
  next
    case 2
    with less.prems(1) have "encodeB64Block mem off (int n) = Inr out" by (auto simp: encode_loop_last)
    then show ?thesis using 2 less.prems(2-4) by (rule decode_encode_last)
  next
    case 3
    from 3 less.prems(1,5) obtain blk out' where blk: "encodeB64Block mem off (int n) = Inr blk"
      and out': "encodeBase64_loop mem (off + 3) (int (n - 3)) = Inr out'" and out: "out = blk @ out'"
      by (auto simp: encode_loop_block ebind_eq_Inr)
    have l4: "length blk = 4"
      using blk by (auto simp: encodeB64Block_def ebind_eq_Inr)
    have "length out div 4 = Suc (length out' div 4)"
      using out l4 by (simp add: div_add_self1)
    with less.prems(4) have dl: "o2 + 3 \<le> length dst" and dl': "o2 + 3 + length out' div 4 * 3 \<le> length dst"
      by simp_all
    obtain dst1 where d1: "decode_loop src pos sz dst o2 = decode_loop src (pos + 4) (sz - 4) dst1 (o2 + 3)"
      "length dst1 = length dst" "take (o2 + 3) dst1 = take o2 dst @ take 3 (drop off mem)"
      using decode_encode_block [OF blk 3, of pos src "out' @ rest" sz "length out'" o2 dst] less.prems(2,3) out l4 dl
      by auto
    have "unat (sz - 4) = length out'"
      using less.prems(3) out l4 by (subst unat_sub) (auto simp: word_le_nat_alt)
    moreover have "drop (pos + 4) src = out' @ rest"
      using less.prems(2) out l4 by (metis add.commute append.assoc append_eq_conv_conj drop_drop)
    moreover have "n - 3 < 2 ^ 31"
      using less.prems(5) by simp
    ultimately obtain dst' where d: "decode_loop src (pos + 4) (sz - 4) dst1 (o2 + 3) = Inr (o2 + 3 + (n - 3), dst')"
      "length dst' = length dst1" "take (o2 + 3 + (n - 3)) dst' = take (o2 + 3) dst1 @ take (n - 3) (drop (off + 3) mem)"
      using less.IH [of "n - 3" "off + 3" out' "pos + 4" "sz - 4" "o2 + 3" dst1] 3 out' dl' d1(2)
      by auto
    have "take n (drop off mem) = take 3 (drop off mem) @ take (n - 3) (drop (off + 3) mem)"
      using 3 by (metis add.commute drop_drop le_add_diff_inverse take_add)
    then show ?thesis using d1 d 3 by simp
  qed
qed

text \<open>The encoder reads one byte after the data unless the size is a multiple of three.\<close>

definition b64_over_read :: "nat \<Rightarrow> nat" where
  "b64_over_read n = (if n mod 3 = 0 then 0 else 1)"

lemma b64_over_read_le: "b64_over_read n \<le> 1"
  by (simp add: b64_over_read_def)

lemma encode_loop_ok:
  "off + n + b64_over_read n \<le> length src \<Longrightarrow> n < 2 ^ 31 \<Longrightarrow>
   \<exists>out. encodeBase64_loop src off (int n) = Inr out \<and> length out = (n + 2) div 3 * 4"
proof (induction n arbitrary: off rule: less_induct)
  case (less n)
  consider "n = 0" | "n = 1" | "n = 2" | "3 \<le> n" by linarith
  then show ?case
  proof cases
    case 4
    then obtain m where m: "n = m + 3" by (metis add.commute le_Suc_ex)
    have "b64_over_read m = b64_over_read n" by (simp add: m b64_over_read_def)
    then obtain out where "encodeBase64_loop src (off + 3) (int m) = Inr out" "length out = (m + 2) div 3 * 4"
      using less.IH [of m "off + 3"] less.prems m by auto
    moreover have "encodeB64Block src off (int n) =
        Inr (map (\<lambda>v. cb64 ! unat v) (b64_idx (src ! off) (src ! (off + 1)) (src ! (off + 2))))"
      using less.prems m by (intro encodeB64Block_full) auto
    moreover have "(n + 2) div 3 * 4 = (m + 2) div 3 * 4 + 4"
      using m by presburger
    ultimately show ?thesis
      using encode_loop_block [OF 4, of src off] less.prems m by simp
  next
    case 1
    then show ?thesis by (simp add: encode_loop_0)
  next
    case 2
    then show ?thesis
      using less.prems encodeB64Block_one [of off src] by (simp add: encode_loop_last b64_over_read_def)
  next
    case 3
    then show ?thesis
      using less.prems encodeB64Block_two [of off src] by (simp add: encode_loop_last b64_over_read_def)
  qed
qed

lemma encode_loop_over_read:
  "off + n = length src \<Longrightarrow> n mod 3 \<noteq> 0 \<Longrightarrow> n < 2 ^ 31 \<Longrightarrow> encodeBase64_loop src off (int n) = Inl OutOfBounds"
proof (induction n arbitrary: off rule: less_induct)
  case (less n)
  from less.prems(2) have "n \<noteq> 0" by (metis mod_0)
  then consider "n = 1" | "n = 2" | "3 \<le> n" by linarith
  then show ?case
  proof cases
    case 3
    then obtain m where m: "n = m + 3" by (metis add.commute le_Suc_ex)
    then have "encodeBase64_loop src (off + 3) (int m) = Inl OutOfBounds"
      using less.IH [of m "off + 3"] less.prems by simp
    then show ?thesis
      using encode_loop_block [of n src off] less.prems m encodeB64Block_full [of off src "int n"] by simp
  qed (use less.prems in \<open>auto simp: encode_loop_last encodeB64Block_def mem_get_def\<close>)
qed

lemma decode_encode:
  assumes "encodeBase64 (data @ tail) (length data) = Inr out"
    and "length out div 4 * 3 \<le> length dst" and "length out < 2 ^ 64"
    and "length data < 2 ^ 31"
  shows "\<exists>dst'. decodeBase64 dst (out @ rest) (length out) = Inr (length data, dst') \<and>
     length dst' = length dst \<and> take (length data) dst' = data"
proof -
  have "unat (of_nat (length out) :: u64) = length out"
    using assms(3) by (simp add: unat_of_nat take_bit_nat_eq_self)
  then have "\<exists>dst'. decode_loop (out @ rest) 0 (of_nat (length out)) dst 0 = Inr (0 + length data, dst') \<and>
      length dst' = length dst \<and> take (0 + length data) dst' = take 0 dst @ take (length data) (drop 0 (data @ tail))"
    using assms by (intro decode_encode_loop [where rest = rest]) (simp_all add: encodeBase64_def)
  then show ?thesis by (auto simp: decodeBase64_def)
qed

lemma decode_fill_end:
  "length bd < 4 \<Longrightarrow>
   decode_fill src pos 0 bd = Inr (bd @ replicate (4 - length bd) 0, length bd, pos, 0 - 1)"
  by (simp add: decode_fill.simps [of src pos 0 bd])

lemma decode_loop_past_end:
  "length src \<le> pos \<Longrightarrow> sz \<noteq> 0 \<Longrightarrow> decode_loop src pos sz dst off = Inl OutOfBounds"
  by (simp add: decode_loop.simps [of src pos sz] decode_fill.simps [of src pos sz])

lemma decode_loop_unpadded:
  fixes vs :: "byte list"
  assumes "drop pos src = map (\<lambda>v. cb64 ! unat v) vs" and "\<forall>v\<in>set vs. unat v < 64"
    and "length vs mod 4 \<noteq> 0" and "unat sz = length vs"
    and "off + (length vs div 4 + 1) * 3 \<le> length dst"
  shows "decode_loop src pos sz dst off = Inl OutOfBounds"
  using assms
proof (induction "length vs div 4" arbitrary: vs pos sz off dst)
  case 0
  then have short: "length vs < 4" and ne: "0 < length vs" by auto
  have "sz - of_nat (length vs) = 0"
    using 0(5) [symmetric] by simp
  then have fill: "decode_fill src pos sz [] =
      Inr (vs @ replicate (4 - length vs) 0, length vs, pos + length vs, 0 - 1)"
    using decode_fill_run [of "[]" vs sz pos src "[]"] 0 short decode_fill_end [of vs src "pos + length vs"]
    by simp
  obtain dst' where w: "mem_write dst off (decodeBlock (vs @ replicate (4 - length vs) 0)) = Inr dst'"
    using mem_write_ok [of off "decodeBlock (vs @ replicate (4 - length vs) 0)" dst] 0 by auto
  have "length src - pos = length vs"
    using arg_cong [OF 0(2), of length] by simp
  then have "length src \<le> pos + length vs" by simp
  then show ?case
    using decode_loop_quad [OF fill ne w] by (simp add: decode_loop_past_end)
next
  case (Suc k)
  let ?q = "take 4 vs" and ?r = "drop 4 vs"
  have l4: "4 \<le> length vs" using Suc(2) by (cases "4 \<le> length vs") auto
  have vs: "vs = ?q @ ?r" by simp
  have fill: "decode_fill src pos sz [] = Inr (?q, 4, pos + 4, sz - 4)"
    using decode_fill_quad [of pos src ?q "map (\<lambda>v. cb64 ! unat v) ?r" sz] Suc(3,4,6) l4
    by (simp add: map_append [symmetric] del: map_append) (auto dest: in_set_takeD)
  obtain dst' where w: "mem_write dst off (decodeBlock ?q) = Inr dst'"
    using mem_write_ok [of off "decodeBlock ?q" dst] Suc(7) by auto
  have kk: "k = length ?r div 4" using Suc(2) l4 by simp
  have "decode_loop src (pos + 4) (sz - 4) dst' (off + 3) = Inl OutOfBounds"
  proof (rule Suc(1) [OF kk])
    show "drop (pos + 4) src = map (\<lambda>v. cb64 ! unat v) ?r"
      using Suc(3) by (metis add.commute drop_drop drop_map)
    show "\<forall>v\<in>set ?r. unat v < 64" using Suc(4) by (blast dest: in_set_dropD)
    show "length ?r mod 4 \<noteq> 0" using Suc(5) l4 by (simp add: le_mod_geq [symmetric])
    show "unat (sz - 4) = length ?r" using Suc(6) l4 by (subst unat_sub) (auto simp: word_le_nat_alt)
    show "off + 3 + (length ?r div 4 + 1) * 3 \<le> length dst'"
      using Suc(2,7) kk mem_write_length [OF w] by simp
  qed
  then show ?case
    using decode_loop_quad [OF fill _ w] by simp
qed

section \<open>Properties\<close>

text \<open>
  C8: For any data of less than \<open>2 ^ 31\<close> bytes the \<open>Blob\<close> encoder succeeds, its
  output has four characters per started group of three bytes, and the \<open>Blob\<close> decoder returns
  exactly the data.
\<close>

theorem base64_blob_roundtrip:
  assumes "length data < 2 ^ 31"
  shows "\<exists>out. encodeBase64_blob data = Inr out \<and> length out = (length data + 2) div 3 * 4 \<and>
      decodeBase64_blob out = Inr data"
proof -
  obtain out where out: "encodeBase64 (blob_mem data) (length data) = Inr out"
      and len: "length out = (length data + 2) div 3 * 4"
    using encode_loop_ok [of 0 "length data" "blob_mem data"] assms
      b64_over_read_le [of "length data"]
    by (auto simp: blob_mem_def encodeBase64_def)
  have enc: "encodeBase64_blob data = Inr out"
    using out len by (simp add: encodeBase64_blob_def mem_write_def blob_lock_def blob_unlock_def)
  have lt: "length out < 2 ^ 64"
    using assms len by (simp add: div_le_dividend)
  have "length data < length out div 4 * 3 + 1" using len by simp
  obtain dst' where d: "decodeBase64 (blob_lock (length out div 4 * 3)) (out @ [0]) (length out) = Inr (length data, dst')"
    "length dst' = length (blob_lock (length out div 4 * 3))" "take (length data) dst' = data"
    using decode_encode [of data "[0]" out "blob_lock (length out div 4 * 3)" "[0]"] out lt assms
    by (auto simp: blob_mem_def blob_lock_def)
  then show ?thesis using d enc len
    by (simp add: decodeBase64_blob_def blob_mem_def blob_unlock_def blob_lock_def)
qed

theorem base64_blob_roundtrip_witness:
  "\<exists>out. encodeBase64_blob [0x4d, 0x61, 0x6e, 0xff] = Inr out \<and> length out = 8 \<and>
    decodeBase64_blob out = Inr [0x4d, 0x61, 0x6e, 0xff]"
  using base64_blob_roundtrip [of "[0x4d, 0x61, 0x6e, 0xff]"] by simp

text \<open>
  The encoder reads one byte after its input unless the size is a multiple of three: on a
  block that ends with the data it leaves the block, while with one more readable byte it always
  succeeds, and that byte's value does not change what is decoded.
\<close>

theorem encodeBase64_over_read:
  "length data mod 3 \<noteq> 0 \<Longrightarrow> length data < 2 ^ 31 \<Longrightarrow>
     encodeBase64 data (length data) = Inl OutOfBounds \<and>
     (\<exists>out. encodeBase64 (data @ [b]) (length data) = Inr out \<and>
        (\<forall>dst rest. length out div 4 * 3 \<le> length dst \<and> length out < 2 ^ 64 \<longrightarrow>
           (\<exists>dst'. decodeBase64 dst (out @ rest) (length out) = Inr (length data, dst') \<and>
                   take (length data) dst' = data)))"
  using encode_loop_over_read [of 0 "length data" data] encode_loop_ok [of 0 "length data" "data @ [b]"]
    b64_over_read_le [of "length data"] decode_encode [of data "[b]"]
  by (fastforce simp: encodeBase64_def)

theorem encodeBase64_over_read_witness:
  "encodeBase64 [7] 1 = Inl OutOfBounds \<and> (\<exists>out. encodeBase64 [7, 9] 1 = Inr out)"
  using encodeBase64_over_read [of "[7]" 9] by auto

text \<open>
  Base64 text whose length is not a multiple of four and that carries no padding makes the
  decoder run past the end of the text: the final \<^verbatim>\<open>size-- == 0\<close> leaves \<^verbatim>\<open>size\<close> at its largest
  value, and the next round reads on.
\<close>

theorem decodeBase64_unpadded_over_read:
  fixes vs :: "byte list"
  assumes "\<forall>v\<in>set vs. unat v < 64" and "length vs mod 4 \<noteq> 0" and "length vs < 2 ^ 64"
    and "(length vs div 4 + 1) * 3 \<le> length dst"
  shows "decodeBase64 dst (map (\<lambda>v. cb64 ! unat v) vs) (length vs) = Inl OutOfBounds"
  using assms
  by (auto simp: decodeBase64_def unat_of_nat take_bit_nat_eq_self intro!: decode_loop_unpadded)

theorem decodeBase64_unpadded_over_read_witness:
  "decodeBase64 (replicate 6 0) (map (\<lambda>v. cb64 ! unat v) [1 :: byte, 2]) (Suc (Suc 0)) = Inl OutOfBounds"
  using decodeBase64_unpadded_over_read [of "[1, 2]" "replicate 6 0"] by simp

end
