(* ===== verification/Drt_Binary.thy ===== *)
theory Drt_Binary
  imports Drt_Prelude
begin

unbundle bit_operations_syntax

text \<open>
  \<^verbatim>\<open>src/src/core/parse/BinaryReader.cxx\<close>, \<^verbatim>\<open>BinaryMemReader.cxx\<close>, \<^verbatim>\<open>BinaryWriter.cxx\<close>,
  \<^verbatim>\<open>BinaryMemWriter.cxx\<close> and \<^verbatim>\<open>BinaryBlobWriter.cxx\<close>: conversion of basic types from and to byte
  streams.  A reader is the block its two pointers point into and their offsets; a writer is
  whatever object implements the abstract \<^verbatim>\<open>writeDirect\<close>, which is an argument of the write
  methods and the interface of the locale \<open>byte_sink\<close> (implemented by the memory writer and by
  the blob writer).  Native byte order is little-endian (\<^verbatim>\<open>DR_SEX_LE\<close>).
\<close>

section \<open>The reader\<close>

record bin_reader =
  br_data :: "byte list"
  cache_pos :: nat
  cache_end :: nat

definition BinaryMemReader :: "byte list \<Rightarrow> bin_reader" where
  "BinaryMemReader data = \<lparr>br_data = data, cache_pos = 0, cache_end = length data\<rparr>"

definition isEnd :: "bin_reader \<Rightarrow> bool" where
  "isEnd r = (cache_pos r = cache_end r)"

definition extendCache :: "nat \<Rightarrow> string \<Rightarrow> (bin_reader, unit) smethod" where
  "extendCache n name r =
     (if cache_end r - cache_pos r < n then (Inl (EndOfDataException ''byte'' name), r)
      else (Inr (), r))"

definition needBytes :: "nat \<Rightarrow> string \<Rightarrow> (bin_reader, unit) smethod" where
  "needBytes n name r =
     (if cache_end r - cache_pos r < n then extendCache n name r else (Inr (), r))"

text \<open>
  Every fixed-size read starts with \<^verbatim>\<open>needBytes(n)\<close> and \<^verbatim>\<open>cache_pos += n\<close> and then looks at
  \<^verbatim>\<open>cache_pos[-n]\<close> to \<^verbatim>\<open>cache_pos[-1]\<close>.
\<close>

definition fetch :: "nat \<Rightarrow> string \<Rightarrow> (bin_reader, byte list) smethod" where
  "fetch n name = sbind (needBytes n name) (\<lambda>_ r.
     let r' = r\<lparr>cache_pos := cache_pos r + n\<rparr> in
     (mem_read (br_data r) (cache_pos r) n, r'))"

definition readNat8 :: "string \<Rightarrow> (bin_reader, byte) smethod" where
  "readNat8 name = sbind (fetch 1 name) (\<lambda>b. sreturn (b ! 0))"

definition readNat16 :: "string \<Rightarrow> (bin_reader, u16) smethod" where
  "readNat16 name = sbind (fetch 2 name) (\<lambda>b. sreturn (of_nat (le_value b)))"

definition readNat32 :: "string \<Rightarrow> (bin_reader, u32) smethod" where
  "readNat32 name = sbind (fetch 4 name) (\<lambda>b. sreturn (of_nat (le_value b)))"

definition readNat64 :: "string \<Rightarrow> (bin_reader, u64) smethod" where
  "readNat64 name = sbind (fetch 8 name) (\<lambda>b. sreturn (of_nat (le_value b)))"

definition readLe8 :: "string \<Rightarrow> (bin_reader, byte) smethod" where
  "readLe8 name = sbind (fetch 1 name) (\<lambda>b. sreturn (push_bit 0 (b ! 0)))"

definition readLe16 :: "string \<Rightarrow> (bin_reader, u16) smethod" where
  "readLe16 name = sbind (fetch 2 name) (\<lambda>b. sreturn
     (push_bit 0 (ucast (b ! 0)) OR push_bit 8 (ucast (b ! 1))))"

definition readLe32 :: "string \<Rightarrow> (bin_reader, u32) smethod" where
  "readLe32 name = sbind (fetch 4 name) (\<lambda>b. sreturn
     (push_bit 0 (ucast (b ! 0)) OR push_bit 8 (ucast (b ! 1)) OR
      push_bit 16 (ucast (b ! 2)) OR push_bit 24 (ucast (b ! 3))))"

definition readLe64 :: "string \<Rightarrow> (bin_reader, u64) smethod" where
  "readLe64 name = sbind (fetch 8 name) (\<lambda>b. sreturn
     (push_bit 0 (ucast (b ! 0)) OR push_bit 8 (ucast (b ! 1)) OR
      push_bit 16 (ucast (b ! 2)) OR push_bit 24 (ucast (b ! 3)) OR
      push_bit 32 (ucast (b ! 4)) OR push_bit 40 (ucast (b ! 5)) OR
      push_bit 48 (ucast (b ! 6)) OR push_bit 56 (ucast (b ! 7))))"

definition readBe8 :: "string \<Rightarrow> (bin_reader, byte) smethod" where
  "readBe8 name = sbind (fetch 1 name) (\<lambda>b. sreturn (push_bit 0 (b ! 0)))"

definition readBe16 :: "string \<Rightarrow> (bin_reader, u16) smethod" where
  "readBe16 name = sbind (fetch 2 name) (\<lambda>b. sreturn
     (push_bit 0 (ucast (b ! 1)) OR push_bit 8 (ucast (b ! 0))))"

definition readBe32 :: "string \<Rightarrow> (bin_reader, u32) smethod" where
  "readBe32 name = sbind (fetch 4 name) (\<lambda>b. sreturn
     (push_bit 0 (ucast (b ! 3)) OR push_bit 8 (ucast (b ! 2)) OR
      push_bit 16 (ucast (b ! 1)) OR push_bit 24 (ucast (b ! 0))))"

definition readBe64 :: "string \<Rightarrow> (bin_reader, u64) smethod" where
  "readBe64 name = sbind (fetch 8 name) (\<lambda>b. sreturn
     (push_bit 0 (ucast (b ! 7)) OR push_bit 8 (ucast (b ! 6)) OR
      push_bit 16 (ucast (b ! 5)) OR push_bit 24 (ucast (b ! 4)) OR
      push_bit 32 (ucast (b ! 3)) OR push_bit 40 (ucast (b ! 2)) OR
      push_bit 48 (ucast (b ! 1)) OR push_bit 56 (ucast (b ! 0))))"

text \<open>
  The loop of the two \<^verbatim>\<open>readVarint\<close> methods, which differ in the width of \<^verbatim>\<open>result\<close> and in the
  limit above which another septet is refused.  The limit is tested after \<^verbatim>\<open>needBytes\<close> and before
  the octet is consumed.
\<close>

function readVarint_loop :: "'a::len word \<Rightarrow> string \<Rightarrow> 'a word \<Rightarrow> (bin_reader, 'a word) smethod" where
  "readVarint_loop limit name res r =
     (case needBytes 1 name r of
        (Inl e, r') \<Rightarrow> (Inl e, r')
      | (Inr _, r') \<Rightarrow>
          if res \<ge> limit then (Inl (OverflowException ''reading varint''), r')
          else (case mem_get (br_data r') (cache_pos r') of
                  Inl e \<Rightarrow> (Inl e, r')
                | Inr b \<Rightarrow>
                    let r'' = r'\<lparr>cache_pos := cache_pos r' + 1\<rparr> in
                    if b < 0x80 then (Inr (res * 128 + ucast b), r'')
                    else readVarint_loop limit name (res * 128 + ucast (b AND 0x7f)) r''))"
  by pat_completeness auto
termination
  by (relation "measure (\<lambda>(limit, name, res, r). cache_end r - cache_pos r)")
     (auto simp: needBytes_def extendCache_def split: if_splits)

declare readVarint_loop.simps [simp del]

definition readVarint32 :: "string \<Rightarrow> (bin_reader, u32) smethod" where
  "readVarint32 name = readVarint_loop 0x200000 name 0"

definition readVarint64 :: "string \<Rightarrow> (bin_reader, u64) smethod" where
  "readVarint64 name = readVarint_loop (push_bit 32 0x200000) name 0"

definition readBytes :: "nat \<Rightarrow> string \<Rightarrow> (bin_reader, byte list) smethod" where
  "readBytes count name = fetch count name"

text \<open>The other overload copies the octets into memory the caller owns.\<close>

definition readBytes_into :: "byte list \<Rightarrow> nat \<Rightarrow> string \<Rightarrow> (bin_reader, byte list) smethod" where
  "readBytes_into dst count name =
     sbind (fetch count name) (\<lambda>b r. (mem_write dst 0 b, r))"

definition readVarBlob :: "nat \<Rightarrow> string \<Rightarrow> (bin_reader, byte list) smethod" where
  "readVarBlob max_size name = sbind (readVarint64 name) (\<lambda>sz.
     if unat sz > max_size then sthrow (OverflowException (''too long blob: '' @ name))
     else readBytes (unat sz) name)"

section \<open>The writer\<close>

type_synonym 'w sink = "byte list \<Rightarrow> string \<Rightarrow> ('w, unit) smethod"

definition writeNat8 :: "'w sink \<Rightarrow> byte \<Rightarrow> string \<Rightarrow> ('w, unit) smethod" where
  "writeNat8 writeDirect value name = writeDirect [value] name"

definition writeNat16 :: "'w sink \<Rightarrow> u16 \<Rightarrow> string \<Rightarrow> ('w, unit) smethod" where
  "writeNat16 writeDirect value name = writeDirect (le_bytes 2 (unat value)) name"

definition writeNat32 :: "'w sink \<Rightarrow> u32 \<Rightarrow> string \<Rightarrow> ('w, unit) smethod" where
  "writeNat32 writeDirect value name = writeDirect (le_bytes 4 (unat value)) name"

definition writeNat64 :: "'w sink \<Rightarrow> u64 \<Rightarrow> string \<Rightarrow> ('w, unit) smethod" where
  "writeNat64 writeDirect value name = writeDirect (le_bytes 8 (unat value)) name"

definition writeLe8 :: "'w sink \<Rightarrow> byte \<Rightarrow> string \<Rightarrow> ('w, unit) smethod" where
  "writeLe8 writeDirect value name = writeDirect [value] name"

definition writeLe16 :: "'w sink \<Rightarrow> u16 \<Rightarrow> string \<Rightarrow> ('w, unit) smethod" where
  "writeLe16 writeDirect value name = writeDirect [ucast value, ucast (drop_bit 8 value)] name"

definition writeLe32 :: "'w sink \<Rightarrow> u32 \<Rightarrow> string \<Rightarrow> ('w, unit) smethod" where
  "writeLe32 writeDirect value name = writeDirect
     [ucast value, ucast (drop_bit 8 value), ucast (drop_bit 16 value), ucast (drop_bit 24 value)] name"

definition writeLe64 :: "'w sink \<Rightarrow> u64 \<Rightarrow> string \<Rightarrow> ('w, unit) smethod" where
  "writeLe64 writeDirect value name = writeDirect
     [ucast value, ucast (drop_bit 8 value), ucast (drop_bit 16 value), ucast (drop_bit 24 value),
      ucast (drop_bit 32 value), ucast (drop_bit 40 value), ucast (drop_bit 48 value),
      ucast (drop_bit 56 value)] name"

definition writeBe8 :: "'w sink \<Rightarrow> byte \<Rightarrow> string \<Rightarrow> ('w, unit) smethod" where
  "writeBe8 writeDirect value name = writeDirect [value] name"

definition writeBe16 :: "'w sink \<Rightarrow> u16 \<Rightarrow> string \<Rightarrow> ('w, unit) smethod" where
  "writeBe16 writeDirect value name = writeDirect [ucast (drop_bit 8 value), ucast value] name"

definition writeBe32 :: "'w sink \<Rightarrow> u32 \<Rightarrow> string \<Rightarrow> ('w, unit) smethod" where
  "writeBe32 writeDirect value name = writeDirect
     [ucast (drop_bit 24 value), ucast (drop_bit 16 value), ucast (drop_bit 8 value), ucast value] name"

definition writeBe64 :: "'w sink \<Rightarrow> u64 \<Rightarrow> string \<Rightarrow> ('w, unit) smethod" where
  "writeBe64 writeDirect value name = writeDirect
     [ucast (drop_bit 56 value), ucast (drop_bit 48 value), ucast (drop_bit 40 value),
      ucast (drop_bit 32 value), ucast (drop_bit 24 value), ucast (drop_bit 16 value),
      ucast (drop_bit 8 value), ucast value] name"

text \<open>
  The septets of \<^verbatim>\<open>writeVarint\<close> are stored from the end of a local array: \<open>room\<close> entries are still
  free in front of \<open>acc\<close>, and an entry before the array's start is out of bounds.
\<close>

fun varint_fill :: "nat \<Rightarrow> 'a::len word \<Rightarrow> byte list \<Rightarrow> byte list result" where
  "varint_fill room value acc =
     (let v = value div 128 in
      if v = 0 then Inr acc
      else (case room of
              0 \<Rightarrow> Inl OutOfBounds
            | Suc p \<Rightarrow> varint_fill p v (ucast (v OR 0x80) # acc)))"

declare varint_fill.simps [simp del]

definition varint_octets :: "nat \<Rightarrow> 'a::len word \<Rightarrow> byte list result" where
  "varint_octets array_size value = varint_fill (array_size - 1) value [ucast (value AND 0x7f)]"

definition writeVarint32 :: "'w sink \<Rightarrow> u32 \<Rightarrow> string \<Rightarrow> ('w, unit) smethod" where
  "writeVarint32 writeDirect value name w =
     (case varint_octets 5 value of Inl e \<Rightarrow> (Inl e, w) | Inr b \<Rightarrow> writeDirect b name w)"

definition writeVarint64 :: "'w sink \<Rightarrow> u64 \<Rightarrow> string \<Rightarrow> ('w, unit) smethod" where
  "writeVarint64 writeDirect value name w =
     (case varint_octets 9 value of Inl e \<Rightarrow> (Inl e, w) | Inr b \<Rightarrow> writeDirect b name w)"

definition writeBytes :: "'w sink \<Rightarrow> byte list \<Rightarrow> string \<Rightarrow> ('w, unit) smethod" where
  "writeBytes writeDirect data name = writeDirect data name"

definition writeVarBlob :: "'w sink \<Rightarrow> byte list \<Rightarrow> string \<Rightarrow> ('w, unit) smethod" where
  "writeVarBlob writeDirect data name =
     sbind (writeVarint64 writeDirect (of_nat (length data)) name) (\<lambda>_. writeBytes writeDirect data name)"

subsection \<open>The memory writer and the blob writer\<close>

record mem_writer =
  mw_data :: "byte list"
  current_pos :: nat
  end_pos :: nat

definition BinaryMemWriter :: "byte list \<Rightarrow> mem_writer" where
  "BinaryMemWriter data = \<lparr>mw_data = data, current_pos = 0, end_pos = length data\<rparr>"

definition pendingSize :: "mem_writer \<Rightarrow> int" where
  "pendingSize w = int (end_pos w) - int (current_pos w)"

definition mem_writeDirect :: "mem_writer sink" where
  "mem_writeDirect data name w =
     (if end_pos w - current_pos w < length data
      then (Inl (EndOfDataException ''byte'' name), w)
      else (case mem_write (mw_data w) (current_pos w) data of
              Inl e \<Rightarrow> (Inl e, w)
            | Inr m \<Rightarrow> (Inr (), w\<lparr>mw_data := m, current_pos := current_pos w + length data\<rparr>)))"

record blob_writer =
  content :: "byte list"

definition BinaryBlobWriter :: "blob_writer" where
  "BinaryBlobWriter = \<lparr>content = []\<rparr>"

definition getContent :: "blob_writer \<Rightarrow> byte list" where
  "getContent w = content w"

definition nullify :: "blob_writer \<Rightarrow> blob_writer" where
  "nullify w = w\<lparr>content := []\<rparr>"

definition blob_writeDirect :: "blob_writer sink" where
  "blob_writeDirect data name w = (Inr (), w\<lparr>content := content w @ data\<rparr>)"

section \<open>Lemmas\<close>

subsection \<open>Shifts and masks against the reference byte order\<close>

lemma ucast_or_push8:
  "(ucast (b :: byte) :: 'a::len word) + 256 * y = ucast b OR push_bit 8 y"
proof -
  have "ucast b AND push_bit 8 y = (0 :: 'a word)"
    by (rule bit_word_eqI) (auto simp: bit_simps bit_byte_ge)
  then have "(ucast b :: 'a word) + push_bit 8 y = ucast b OR push_bit 8 y"
    by (rule disjunctive_add_eq_or)
  then show ?thesis by (simp add: push_bit_eq_mult mult.commute)
qed

lemma of_nat_le_value_Cons:
  "(of_nat (le_value (b # bs)) :: 'a::len word) = ucast b OR push_bit 8 (of_nat (le_value bs))"
  by (simp add: ucast_or_push8 [symmetric])

subsection \<open>Reading from the stream that is left\<close>

definition rd_ok :: "bin_reader \<Rightarrow> bool" where
  "rd_ok r \<longleftrightarrow> cache_pos r \<le> cache_end r \<and> cache_end r \<le> length (br_data r)"

definition stream :: "bin_reader \<Rightarrow> byte list" where
  "stream r = take (cache_end r - cache_pos r) (drop (cache_pos r) (br_data r))"

definition advance :: "nat \<Rightarrow> bin_reader \<Rightarrow> bin_reader" where
  "advance n r = r\<lparr>cache_pos := cache_pos r + n\<rparr>"

lemma length_stream: "rd_ok r \<Longrightarrow> length (stream r) = cache_end r - cache_pos r"
  by (auto simp: rd_ok_def stream_def)

lemma advance_ok:
  assumes "rd_ok r" and "n \<le> length (stream r)"
  shows "rd_ok (advance n r)" and "stream (advance n r) = drop n (stream r)"
  using assms by (auto simp: rd_ok_def stream_def advance_def drop_take add.commute)

lemma fetch_ok:
  assumes "rd_ok r" and "n \<le> length (stream r)"
  shows "fetch n name r = (Inr (take n (stream r)), advance n r)"
proof -
  have "\<not> cache_end r - cache_pos r < n" and "cache_pos r + n \<le> length (br_data r)"
    and "take n (stream r) = take n (drop (cache_pos r) (br_data r))"
    using assms by (auto simp: length_stream rd_ok_def stream_def)
  then show ?thesis
    by (simp add: fetch_def sbind_def needBytes_def mem_read_def advance_def)
qed

lemma fetch_end:
  assumes "rd_ok r" and "length (stream r) < n"
  shows "fetch n name r = (Inl (EndOfDataException ''byte'' name), r)"
  using assms by (simp add: fetch_def sbind_def needBytes_def extendCache_def length_stream)

text \<open>
  \<open>reads_as m bs v\<close>: on every reader whose remaining stream starts with \<open>bs\<close> the operation \<open>m\<close> returns
  \<open>v\<close> and consumes exactly \<open>bs\<close>.
\<close>

definition reads_as :: "(bin_reader, 'a) smethod \<Rightarrow> byte list \<Rightarrow> 'a \<Rightarrow> bool" where
  "reads_as m bs v \<longleftrightarrow> (\<forall>r. rd_ok r \<and> take (length bs) (stream r) = bs \<and> length bs \<le> length (stream r) \<longrightarrow>
     (\<exists>r'. m r = (Inr v, r') \<and> rd_ok r' \<and> stream r' = drop (length bs) (stream r)))"

lemma reads_as_fetch:
  "length bs = n \<Longrightarrow> (\<And>r. f bs r = (Inr v, r)) \<Longrightarrow> reads_as (sbind (fetch n name) f) bs v"
  by (auto simp: reads_as_def sbind_def fetch_ok advance_ok)

lemma reads_as_return_fetch:
  "length bs = n \<Longrightarrow> g bs = v \<Longrightarrow> reads_as (sbind (fetch n name) (\<lambda>b. sreturn (g b))) bs v"
  by (rule reads_as_fetch) (simp_all add: sreturn_def)

lemma list_of_length_2: "length bs = 2 \<Longrightarrow> \<exists>b0 b1. bs = [b0, b1]"
  by (auto simp: numeral_2_eq_2 length_Suc_conv)

lemma list_of_length_4: "length bs = 4 \<Longrightarrow> \<exists>b0 b1 b2 b3. bs = [b0, b1, b2, b3]"
  by (auto simp: numeral_eq_Suc length_Suc_conv)

lemma list_of_length_8:
  "length bs = 8 \<Longrightarrow> \<exists>b0 b1 b2 b3 b4 b5 b6 b7. bs = [b0, b1, b2, b3, b4, b5, b6, b7]"
  by (auto simp: numeral_eq_Suc length_Suc_conv)

lemmas le_word_simps = of_nat_le_value_Cons push_bit_or push_bit_push_bit

lemma readLe16_eq: "length bs = 2 \<Longrightarrow>
  push_bit 0 (ucast (bs ! 0)) OR push_bit 8 (ucast (bs ! 1)) = (of_nat (le_value bs) :: u16)"
  by (drule list_of_length_2) (auto simp: le_word_simps simp del: le_value.simps(2))

lemma readLe32_eq: "length bs = 4 \<Longrightarrow>
  push_bit 0 (ucast (bs ! 0)) OR push_bit 8 (ucast (bs ! 1)) OR
      push_bit 16 (ucast (bs ! 2)) OR push_bit 24 (ucast (bs ! 3)) = (of_nat (le_value bs) :: u32)"
  by (drule list_of_length_4) (auto simp: le_word_simps simp del: le_value.simps(2))

lemma readLe64_eq: "length bs = 8 \<Longrightarrow>
     push_bit 0 (ucast (bs ! 0)) OR push_bit 8 (ucast (bs ! 1)) OR
      push_bit 16 (ucast (bs ! 2)) OR push_bit 24 (ucast (bs ! 3)) OR
      push_bit 32 (ucast (bs ! 4)) OR push_bit 40 (ucast (bs ! 5)) OR
      push_bit 48 (ucast (bs ! 6)) OR push_bit 56 (ucast (bs ! 7)) = (of_nat (le_value bs) :: u64)"
  by (drule list_of_length_8) (auto simp: le_word_simps simp del: le_value.simps(2))


lemma readBe16_eq: "length bs = 2 \<Longrightarrow>
  push_bit 0 (ucast (bs ! 1)) OR push_bit 8 (ucast (bs ! 0)) = (of_nat (be_value bs) :: u16)"
  by (drule list_of_length_2) (auto simp: be_value_def le_word_simps simp del: le_value.simps(2))

lemma readBe32_eq: "length bs = 4 \<Longrightarrow>
  push_bit 0 (ucast (bs ! 3)) OR push_bit 8 (ucast (bs ! 2)) OR
      push_bit 16 (ucast (bs ! 1)) OR push_bit 24 (ucast (bs ! 0)) = (of_nat (be_value bs) :: u32)"
  by (drule list_of_length_4) (auto simp: be_value_def le_word_simps simp del: le_value.simps(2))

lemma readBe64_eq: "length bs = 8 \<Longrightarrow>
     push_bit 0 (ucast (bs ! 7)) OR push_bit 8 (ucast (bs ! 6)) OR
      push_bit 16 (ucast (bs ! 5)) OR push_bit 24 (ucast (bs ! 4)) OR
      push_bit 32 (ucast (bs ! 3)) OR push_bit 40 (ucast (bs ! 2)) OR
      push_bit 48 (ucast (bs ! 1)) OR push_bit 56 (ucast (bs ! 0)) = (of_nat (be_value bs) :: u64)"
  by (drule list_of_length_8) (auto simp: be_value_def le_word_simps simp del: le_value.simps(2))

subsection \<open>Variable-length integers\<close>

text \<open>
  The reference form of a varint: the leading septets (most significant first, each with the
  continuation bit), then the last one.
\<close>

definition cont_septet :: "nat \<Rightarrow> byte" where
  "cont_septet v = of_nat (v mod 128 + 128)"

function varint_hi :: "nat \<Rightarrow> byte list" where
  "varint_hi v = (if v = 0 then [] else varint_hi (v div 128) @ [cont_septet v])"
  by pat_completeness auto
termination
  by (relation "measure id") auto

declare varint_hi.simps [simp del]

definition varint :: "nat \<Rightarrow> byte list" where
  "varint v = varint_hi (v div 128) @ [of_nat (v mod 128)]"

lemma varint_hi_0 [simp]: "varint_hi 0 = []"
  by (simp add: varint_hi.simps)

lemma varint_hi_pos: "0 < v \<Longrightarrow> varint_hi v = varint_hi (v div 128) @ [cont_septet v]"
  by (simp add: varint_hi.simps [of v])

lemma length_varint_hi: "length (varint_hi v) \<le> k \<longleftrightarrow> v < 128 ^ k"
proof (induction k arbitrary: v)
  case 0
  then show ?case by (cases "v = 0") (simp_all add: varint_hi_pos)
next
  case (Suc k)
  show ?case
  proof (cases "v = 0")
    case False
    then have "length (varint_hi v) \<le> Suc k \<longleftrightarrow> v div 128 < 128 ^ k"
      by (simp add: varint_hi_pos Suc.IH)
    also have "\<dots> \<longleftrightarrow> v < 128 ^ Suc k"
      by (simp add: div_less_iff_less_mult mult.commute)
    finally show ?thesis .
  qed simp
qed

lemma ucast_or_80: "(ucast (w OR 0x80) :: byte) = cont_septet (unat (w :: 'a::len word))"
  if "8 \<le> LENGTH('a)"
proof -
  have "(of_nat (unat w mod 128) :: byte) = take_bit 7 (ucast w)"
  proof (rule unsigned_word_eqI)
    have "unat (of_nat (unat w mod 128) :: byte) = unat w mod 128"
      by (simp add: unat_of_nat take_bit_nat_eq_self)
    then show "unat (of_nat (unat w mod 128) :: byte) = unat (take_bit 7 (ucast w :: byte))"
      by (simp only: unsigned_take_bit_eq unsigned_ucast_eq take_bit_take_bit) (simp add: take_bit_eq_mod)
  qed
  then have "(of_nat (unat w mod 128 + 128) :: byte) = take_bit 7 (ucast w) + 128"
    by simp
  also have "\<dots> = take_bit 7 (ucast w) OR 128"
    by (rule disjunctive_add_eq_or) (rule byte_bit_eqI, simp_all add: bit_simps)
  also have "\<dots> = ucast (w OR 0x80)"
    using that by (intro byte_bit_eqI) (auto simp: bit_simps)
  finally show ?thesis unfolding cont_septet_def by (rule sym)
qed

lemma unat_word_div_128: "8 \<le> LENGTH('a) \<Longrightarrow> unat (w div (128 :: 'a::len word)) = unat w div 128"
  using unat_drop_bit_eq [of 7 w] by (simp add: drop_bit_eq_div)

lemma varint_fill_eq:
  "8 \<le> LENGTH('a) \<Longrightarrow> varint_fill room (w :: 'a::len word) acc =
     (if unat w div 128 < 128 ^ room then Inr (varint_hi (unat w div 128) @ acc) else Inl OutOfBounds)"
proof (induction room arbitrary: w acc)
  case 0
  then show ?case
    by (simp add: varint_fill.simps [of 0] Let_def unat_eq_0 [symmetric] unat_word_div_128)
next
  case (Suc room)
  let ?v = "w div 128"
  have v: "unat ?v = unat w div 128" using Suc.prems by (rule unat_word_div_128)
  show ?case
  proof (cases "?v = 0")
    case True
    then have "unat w div 128 = 0" using v by simp
    then show ?thesis using True by (simp add: varint_fill.simps [of "Suc room"])
  next
    case False
    then have pos: "0 < unat w div 128" using v by (metis gr0I unat_eq_0)
    have "unat w div 128 div 128 < 128 ^ room \<longleftrightarrow> unat w div 128 < 128 ^ Suc room"
      by (simp only: power_Suc2) (simp add: div_less_iff_less_mult)
    then show ?thesis
      using False pos Suc.IH [of ?v "ucast (?v OR 0x80) # acc"] Suc.prems
      by (simp add: varint_fill.simps [of "Suc room"] v ucast_or_80 varint_hi_pos [OF pos] del: power_Suc)
  qed
qed

lemma varint_octets_eq:
  assumes "8 \<le> LENGTH('a)" and "0 < n"
  shows "varint_octets n (w :: 'a::len word) =
     (if unat w < 128 ^ n then Inr (varint (unat w)) else Inl OutOfBounds)"
proof -
  have "(ucast (w AND 0x7f) :: byte) = of_nat (unat w mod 128)"
  proof (rule unsigned_word_eqI)
    have "w AND 0x7f = take_bit 7 w"
      using take_bit_eq_mask [of 7 w] by (simp add: mask_eq_exp_minus_1)
    then show "unat (ucast (w AND 0x7f) :: byte) = unat (of_nat (unat w mod 128) :: byte)"
      by (simp only: unsigned_ucast_eq unsigned_take_bit_eq take_bit_take_bit)
         (simp add: unat_of_nat take_bit_eq_mod)
  qed
  moreover have "unat w div 128 < 128 ^ (n - 1) \<longleftrightarrow> unat w < 128 ^ n"
    using assms(2) by (cases n) (simp_all add: div_less_iff_less_mult mult.commute)
  ultimately show ?thesis
    using assms by (simp add: varint_octets_def varint_fill_eq varint_def)
qed

lemma readVarint_step:
  assumes "rd_ok r" and "stream r = b # rest" and "res < limit"
  shows "readVarint_loop limit name res r =
    (if b < 0x80 then (Inr (res * 128 + ucast b), advance 1 r)
     else readVarint_loop limit name (res * 128 + ucast (b AND 0x7f)) (advance 1 r))"
proof -
  have len: "length (stream r) = Suc (length rest)" using assms(2) by simp
  then have c: "cache_end r - cache_pos r = Suc (length rest)" using assms(1) by (simp add: length_stream)
  then have p: "cache_pos r < length (br_data r)" using assms(1) by (auto simp: rd_ok_def)
  have "stream r ! 0 = br_data r ! cache_pos r"
    using c p by (simp add: stream_def)
  then have "br_data r ! cache_pos r = b"
    using assms(2) by simp
  moreover have "\<not> limit \<le> res" using assms(3) by simp
  ultimately show ?thesis
    using c p
    by (simp add: readVarint_loop.simps [of limit name res r] needBytes_def advance_def Let_def)
qed

lemma readVarint_over:
  assumes "rd_ok r" and "stream r \<noteq> []" and "limit \<le> res"
  shows "readVarint_loop limit name res r = (Inl (OverflowException ''reading varint''), r)"
proof -
  have "\<not> cache_end r - cache_pos r < 1"
    using assms(1,2) by (metis length_stream length_greater_0_conv less_one not_gr_zero)
  then show ?thesis
    using assms(3) by (simp add: readVarint_loop.simps [of limit name res r] needBytes_def)
qed

lemma unat_cont_septet: "unat (cont_septet n) = n mod 128 + 128"
  unfolding cont_septet_def by (simp only: unat_of_nat) (simp add: take_bit_nat_eq_self)

lemma and_7f_cont: "cont_septet n AND 0x7f = of_nat (n mod 128)"
proof (rule unsigned_word_eqI)
  have "cont_septet n AND 0x7f = take_bit 7 (cont_septet n)"
    using take_bit_eq_mask [of 7 "cont_septet n"] by (simp add: mask_eq_exp_minus_1)
  then show "unat (cont_septet n AND 0x7f) = unat (of_nat (n mod 128) :: byte)"
    by (simp only: unsigned_take_bit_eq unat_cont_septet) (simp add: unat_of_nat take_bit_eq_mod)
qed

lemma unat_septet: "unat (of_nat (n mod 128) :: byte) = n mod 128"
  by (simp add: unat_of_nat take_bit_nat_eq_self)

lemma ucast_septet: "(ucast (of_nat (n mod 128) :: byte) :: 'a::len word) = of_nat (n mod 128)"
  by (simp add: unsigned_of_nat take_bit_nat_eq_self)

lemma septet_lt: "(of_nat (n mod 128) :: byte) < 0x80"
  by (simp add: word_less_nat_alt unat_septet)

lemma cont_ge: "\<not> cont_septet n < 0x80"
  by (simp add: word_less_nat_alt unat_cont_septet)

lemma shift_septet: "(of_nat (n div 128) :: 'a::len word) * 128 + of_nat (n mod 128) = of_nat n"
  by (metis div_mult_mod_eq of_nat_add of_nat_mult of_nat_numeral)

lemma advance_advance: "advance m (advance n r) = advance (n + m) r"
  by (simp add: advance_def add.assoc)

text \<open>Reading the leading septets of \<open>n\<close>, as long as the limit is not reached before the last.\<close>

lemma readVarint_hi:
  fixes limit :: "'a::len word"
  assumes "rd_ok r" and "stream r = varint_hi n @ rest" and "n div 128 < unat limit"
  shows "readVarint_loop limit name 0 r =
    readVarint_loop limit name (of_nat n) (advance (length (varint_hi n)) r)"
  using assms
proof (induction n arbitrary: rest rule: varint_hi.induct)
  case (1 n)
  show ?case
  proof (cases "n = 0")
    case True
    then show ?thesis by (simp add: advance_def)
  next
    case False
    then have hi: "varint_hi n = varint_hi (n div 128) @ [cont_septet n]"
      by (simp add: varint_hi_pos)
    let ?r = "advance (length (varint_hi (n div 128))) r"
    have ih: "readVarint_loop limit name 0 r = readVarint_loop limit name (of_nat (n div 128)) ?r"
    proof (rule 1(1) [OF False])
      show "rd_ok r" by fact
      show "stream r = varint_hi (n div 128) @ (cont_septet n # rest)"
        using 1(3) hi by simp
      show "n div 128 div 128 < unat limit" using 1(4) by (meson div_le_dividend le_less_trans)
    qed
    have ok: "rd_ok ?r" and st: "stream ?r = cont_septet n # rest"
      using advance_ok [OF 1(2), of "length (varint_hi (n div 128))"] 1(3) hi by simp_all
    have "unat (of_nat (n div 128) :: 'a word) \<le> n div 128"
      by (simp add: unat_of_nat take_bit_eq_mod)
    then have lt: "(of_nat (n div 128) :: 'a word) < limit"
      using 1(4) by (simp add: word_less_nat_alt)
    show ?thesis
      using ih readVarint_step [OF ok st lt, of name]
      by (simp add: cont_ge and_7f_cont ucast_septet shift_septet hi advance_advance)
  qed
qed

lemma readVarint_hi_over:
  fixes limit :: "'a::len word"
  assumes "rd_ok r" and "stream r = varint_hi n @ rest" and "rest \<noteq> []"
    and "unat limit \<le> n" and "unat limit * 128 \<le> 2 ^ LENGTH('a)"
  shows "\<exists>r'. readVarint_loop limit name 0 r = (Inl (OverflowException ''reading varint''), r')"
  using assms
proof (induction n arbitrary: rest rule: varint_hi.induct)
  case (1 n)
  show ?case
  proof (cases "n \<noteq> 0 \<and> unat limit \<le> n div 128")
    case True
    then have "varint_hi n = varint_hi (n div 128) @ [cont_septet n]"
      by (simp add: varint_hi_pos)
    then show ?thesis
      using 1(1) [of "cont_septet n # rest"] 1(2-6) True by simp
  next
    case False
    then have lt: "n = 0 \<or> n div 128 < unat limit" by auto
    let ?r = "advance (length (varint_hi n)) r"
    have "readVarint_loop limit name 0 r = readVarint_loop limit name (of_nat n) ?r"
      using lt readVarint_hi [OF 1(2,3), of limit name] by (auto simp: advance_def)
    moreover have "rd_ok ?r" and "stream ?r = rest"
      using advance_ok [OF 1(2), of "length (varint_hi n)"] 1(3) by simp_all
    moreover have "n < 2 ^ LENGTH('a)"
    proof (cases "n = 0")
      case False
      then have "n < unat limit * 128"
        using lt by (simp add: div_less_iff_less_mult)
      then show ?thesis using 1(6) by simp
    qed simp
    then have "limit \<le> of_nat n"
      using 1(5) by (simp add: word_le_nat_alt unat_of_nat take_bit_nat_eq_self)
    ultimately show ?thesis
      using 1(4) by (simp add: readVarint_over)
  qed
qed

lemma reads_as_varint:
  fixes limit :: "'a::len word"
  assumes "v div 128 < unat limit"
  shows "reads_as (readVarint_loop limit name 0) (varint v) (of_nat v)"
  unfolding reads_as_def
proof (intro allI impI, elim conjE)
  fix r
  assume ok: "rd_ok r" and pre: "take (length (varint v)) (stream r) = varint v"
  let ?n = "v div 128" and ?s = "drop (length (varint v)) (stream r)"
  let ?r = "advance (length (varint_hi ?n)) r"
  have st: "stream r = varint_hi ?n @ (of_nat (v mod 128) # ?s)"
    using take_prefixD [OF pre] by (simp add: varint_def)
  have "?n div 128 < unat limit"
    using assms by (meson div_le_dividend le_less_trans)
  then have "readVarint_loop limit name 0 r = readVarint_loop limit name (of_nat ?n) ?r"
    by (rule readVarint_hi [OF ok st])
  moreover have ok': "rd_ok ?r" and st': "stream ?r = of_nat (v mod 128) # ?s"
    using advance_ok [OF ok, of "length (varint_hi ?n)"] st by (metis append_eq_conv_conj length_append le_add1)+
  have "unat (of_nat ?n :: 'a word) \<le> ?n"
    by (simp add: unat_of_nat take_bit_eq_mod)
  then have "(of_nat ?n :: 'a word) < limit"
    using assms by (simp add: word_less_nat_alt)
  ultimately have "readVarint_loop limit name 0 r = (Inr (of_nat v), advance 1 ?r)"
    using readVarint_step [OF ok' st', of "of_nat ?n" limit name] by (simp add: septet_lt ucast_septet shift_septet)
  moreover have "rd_ok (advance 1 ?r)" and "stream (advance 1 ?r) = ?s"
    using advance_ok [OF ok', of 1] st' by simp_all
  ultimately show "\<exists>r'. readVarint_loop limit name 0 r = (Inr (of_nat v), r') \<and> rd_ok r' \<and> stream r' = ?s"
    by blast
qed

lemma readVarint_overflow:
  fixes limit :: "'a::len word"
  assumes "unat limit \<le> v div 128" and "unat limit * 128 \<le> 2 ^ LENGTH('a)"
    and "rd_ok r" and "stream r = varint v @ rest"
  shows "\<exists>r'. readVarint_loop limit name 0 r = (Inl (OverflowException ''reading varint''), r')"
  using assms by (intro readVarint_hi_over [of r "v div 128" "of_nat (v mod 128) # rest"]) (auto simp: varint_def)

lemma reads_as_bind:
  assumes "reads_as m bs v" and "reads_as (f v) cs u"
  shows "reads_as (sbind m f) (bs @ cs) u"
  unfolding reads_as_def
proof (intro allI impI, elim conjE)
  fix r
  assume ok: "rd_ok r" and pre: "take (length (bs @ cs)) (stream r) = bs @ cs"
    and len: "length (bs @ cs) \<le> length (stream r)"
  have st: "stream r = bs @ cs @ drop (length (bs @ cs)) (stream r)"
    using take_prefixD [OF pre] by simp
  have pb: "take (length bs) (stream r) = bs" "length bs \<le> length (stream r)"
    by (subst st, simp) (use len in simp)
  obtain r1 where r1: "m r = (Inr v, r1)" "rd_ok r1" "stream r1 = drop (length bs) (stream r)"
    using assms(1) ok pb unfolding reads_as_def by blast
  have "stream r1 = cs @ drop (length (bs @ cs)) (stream r)"
    unfolding r1(3) by (subst st) simp
  then have "take (length cs) (stream r1) = cs" "length cs \<le> length (stream r1)"
    by simp_all
  then obtain r2 where "f v r1 = (Inr u, r2)" "rd_ok r2" "stream r2 = drop (length cs) (stream r1)"
    using assms(2) r1(2) unfolding reads_as_def by blast
  with r1 show "\<exists>r'. sbind m f r = (Inr u, r') \<and> rd_ok r' \<and> stream r' = drop (length (bs @ cs)) (stream r)"
    by (simp add: sbind_def add.commute)
qed

lemma reads_as_return: "reads_as (sreturn v) [] v"
  by (simp add: reads_as_def sreturn_def)

lemma reads_as_map: "reads_as m bs v \<Longrightarrow> reads_as (sbind m (\<lambda>x. sreturn (f x))) bs (f v)"
  using reads_as_bind [of m bs v "\<lambda>x. sreturn (f x)" "[]"] by (simp add: reads_as_return)

subsection \<open>Typed items\<close>

text \<open>
  A message is a sequence of typed items, written by the operation of each item's type and read by
  the operation of the same type.
\<close>

datatype item =
    I_Nat8 byte | I_Nat16 u16 | I_Nat32 u32 | I_Nat64 u64
  | I_Le8 byte | I_Le16 u16 | I_Le32 u32 | I_Le64 u64
  | I_Be8 byte | I_Be16 u16 | I_Be32 u32 | I_Be64 u64
  | I_Varint32 u32 | I_Varint64 u64
  | I_Bytes "byte list" | I_VarBlob "byte list"

fun write_item :: "'w sink \<Rightarrow> string \<Rightarrow> item \<Rightarrow> ('w, unit) smethod" where
  "write_item wd nm (I_Nat8 v) = writeNat8 wd v nm"
| "write_item wd nm (I_Nat16 v) = writeNat16 wd v nm"
| "write_item wd nm (I_Nat32 v) = writeNat32 wd v nm"
| "write_item wd nm (I_Nat64 v) = writeNat64 wd v nm"
| "write_item wd nm (I_Le8 v) = writeLe8 wd v nm"
| "write_item wd nm (I_Le16 v) = writeLe16 wd v nm"
| "write_item wd nm (I_Le32 v) = writeLe32 wd v nm"
| "write_item wd nm (I_Le64 v) = writeLe64 wd v nm"
| "write_item wd nm (I_Be8 v) = writeBe8 wd v nm"
| "write_item wd nm (I_Be16 v) = writeBe16 wd v nm"
| "write_item wd nm (I_Be32 v) = writeBe32 wd v nm"
| "write_item wd nm (I_Be64 v) = writeBe64 wd v nm"
| "write_item wd nm (I_Varint32 v) = writeVarint32 wd v nm"
| "write_item wd nm (I_Varint64 v) = writeVarint64 wd v nm"
| "write_item wd nm (I_Bytes bs) = writeBytes wd bs nm"
| "write_item wd nm (I_VarBlob bs) = writeVarBlob wd bs nm"

fun read_item :: "string \<Rightarrow> item \<Rightarrow> (bin_reader, item) smethod" where
  "read_item nm (I_Nat8 _) = sbind (readNat8 nm) (\<lambda>v. sreturn (I_Nat8 v))"
| "read_item nm (I_Nat16 _) = sbind (readNat16 nm) (\<lambda>v. sreturn (I_Nat16 v))"
| "read_item nm (I_Nat32 _) = sbind (readNat32 nm) (\<lambda>v. sreturn (I_Nat32 v))"
| "read_item nm (I_Nat64 _) = sbind (readNat64 nm) (\<lambda>v. sreturn (I_Nat64 v))"
| "read_item nm (I_Le8 _) = sbind (readLe8 nm) (\<lambda>v. sreturn (I_Le8 v))"
| "read_item nm (I_Le16 _) = sbind (readLe16 nm) (\<lambda>v. sreturn (I_Le16 v))"
| "read_item nm (I_Le32 _) = sbind (readLe32 nm) (\<lambda>v. sreturn (I_Le32 v))"
| "read_item nm (I_Le64 _) = sbind (readLe64 nm) (\<lambda>v. sreturn (I_Le64 v))"
| "read_item nm (I_Be8 _) = sbind (readBe8 nm) (\<lambda>v. sreturn (I_Be8 v))"
| "read_item nm (I_Be16 _) = sbind (readBe16 nm) (\<lambda>v. sreturn (I_Be16 v))"
| "read_item nm (I_Be32 _) = sbind (readBe32 nm) (\<lambda>v. sreturn (I_Be32 v))"
| "read_item nm (I_Be64 _) = sbind (readBe64 nm) (\<lambda>v. sreturn (I_Be64 v))"
| "read_item nm (I_Varint32 _) = sbind (readVarint32 nm) (\<lambda>v. sreturn (I_Varint32 v))"
| "read_item nm (I_Varint64 _) = sbind (readVarint64 nm) (\<lambda>v. sreturn (I_Varint64 v))"
| "read_item nm (I_Bytes bs) = sbind (readBytes (length bs) nm) (\<lambda>v. sreturn (I_Bytes v))"
| "read_item nm (I_VarBlob bs) = sbind (readVarBlob (length bs) nm) (\<lambda>v. sreturn (I_VarBlob v))"

fun item_octets :: "item \<Rightarrow> byte list" where
  "item_octets (I_Nat8 v) = [v]"
| "item_octets (I_Nat16 v) = le_bytes 2 (unat v)"
| "item_octets (I_Nat32 v) = le_bytes 4 (unat v)"
| "item_octets (I_Nat64 v) = le_bytes 8 (unat v)"
| "item_octets (I_Le8 v) = [v]"
| "item_octets (I_Le16 v) = le_bytes 2 (unat v)"
| "item_octets (I_Le32 v) = le_bytes 4 (unat v)"
| "item_octets (I_Le64 v) = le_bytes 8 (unat v)"
| "item_octets (I_Be8 v) = [v]"
| "item_octets (I_Be16 v) = be_bytes 2 (unat v)"
| "item_octets (I_Be32 v) = be_bytes 4 (unat v)"
| "item_octets (I_Be64 v) = be_bytes 8 (unat v)"
| "item_octets (I_Varint32 v) = varint (unat v)"
| "item_octets (I_Varint64 v) = varint (unat v)"
| "item_octets (I_Bytes bs) = bs"
| "item_octets (I_VarBlob bs) = varint (length bs) @ bs"

text \<open>The items the reader accepts: varints below the reader's limits.\<close>

fun item_ok :: "item \<Rightarrow> bool" where
  "item_ok (I_Varint32 v) = (unat v < 2 ^ 28)"
| "item_ok (I_Varint64 v) = (unat v < 2 ^ 60)"
| "item_ok (I_VarBlob bs) = (length bs < 2 ^ 60)"
| "item_ok _ = True"

fun write_items :: "'w sink \<Rightarrow> string \<Rightarrow> item list \<Rightarrow> ('w, unit) smethod" where
  "write_items wd nm [] = sreturn ()"
| "write_items wd nm (it # its) = sbind (write_item wd nm it) (\<lambda>_. write_items wd nm its)"

fun read_items :: "string \<Rightarrow> item list \<Rightarrow> (bin_reader, item list) smethod" where
  "read_items nm [] = sreturn []"
| "read_items nm (it # its) =
     sbind (read_item nm it) (\<lambda>v. sbind (read_items nm its) (\<lambda>vs. sreturn (v # vs)))"

lemma of_nat_be_value_be_bytes:
  "LENGTH('a) = 8 * n \<Longrightarrow> (of_nat (be_value (be_bytes n (unat v))) :: 'a::len word) = v"
  using of_nat_le_value_le_bytes [where v = v] by (simp add: be_value_def be_bytes_def)

lemma div128_less: "v < 2 ^ 28 \<Longrightarrow> v div 128 < unat (0x200000 :: u32)"
  "v < 2 ^ 60 \<Longrightarrow> v div 128 < unat (push_bit 32 0x200000 :: u64)"
  by (simp_all add: div_less_iff_less_mult)

lemma reads_as_readVarint32: "unat v < 2 ^ 28 \<Longrightarrow> reads_as (readVarint32 nm) (varint (unat v)) v"
  using reads_as_varint [OF div128_less(1), of "unat v" nm] by (simp add: readVarint32_def)

lemma reads_as_readVarint64: "unat v < 2 ^ 60 \<Longrightarrow> reads_as (readVarint64 nm) (varint (unat v)) v"
  using reads_as_varint [OF div128_less(2), of "unat v" nm] by (simp add: readVarint64_def)

lemma reads_as_readBytes: "reads_as (readBytes (length bs) nm) bs bs"
  by (auto simp: reads_as_def readBytes_def fetch_ok advance_ok)

lemma reads_as_readVarBlob:
  assumes "length bs < 2 ^ 60"
  shows "reads_as (readVarBlob (length bs) nm) (varint (length bs) @ bs) bs"
proof -
  have u: "unat (of_nat (length bs) :: u64) = length bs"
    using assms by (simp add: unat_of_nat take_bit_nat_eq_self)
  have "reads_as (readVarint64 nm) (varint (length bs)) (of_nat (length bs))"
    using reads_as_readVarint64 [of "of_nat (length bs)" nm] assms u by simp
  then show ?thesis
    unfolding readVarBlob_def
    by (rule reads_as_bind) (simp add: u reads_as_readBytes)
qed

lemma reads_as_readLe16: "reads_as (readLe16 nm) (le_bytes 2 (unat v)) v"
  unfolding readLe16_def
  by (rule reads_as_return_fetch) (simp, subst readLe16_eq, simp_all add: of_nat_le_value_le_bytes)

lemma reads_as_readLe32: "reads_as (readLe32 nm) (le_bytes 4 (unat v)) v"
  unfolding readLe32_def
  by (rule reads_as_return_fetch) (simp, subst readLe32_eq, simp_all add: of_nat_le_value_le_bytes)

lemma reads_as_readLe64: "reads_as (readLe64 nm) (le_bytes 8 (unat v)) v"
  unfolding readLe64_def
  by (rule reads_as_return_fetch) (simp, subst readLe64_eq, simp_all add: of_nat_le_value_le_bytes)

lemma reads_as_readBe16: "reads_as (readBe16 nm) (be_bytes 2 (unat v)) v"
  unfolding readBe16_def
  by (rule reads_as_return_fetch) (simp, subst readBe16_eq, simp_all add: of_nat_be_value_be_bytes)

lemma reads_as_readBe32: "reads_as (readBe32 nm) (be_bytes 4 (unat v)) v"
  unfolding readBe32_def
  by (rule reads_as_return_fetch) (simp, subst readBe32_eq, simp_all add: of_nat_be_value_be_bytes)

lemma reads_as_readBe64: "reads_as (readBe64 nm) (be_bytes 8 (unat v)) v"
  unfolding readBe64_def
  by (rule reads_as_return_fetch) (simp, subst readBe64_eq, simp_all add: of_nat_be_value_be_bytes)

lemma reads_as_readNat:
  "reads_as (readNat8 nm) [b] b" "reads_as (readLe8 nm) [b] b" "reads_as (readBe8 nm) [b] b"
  "reads_as (readNat16 nm) (le_bytes 2 (unat v2)) v2"
  "reads_as (readNat32 nm) (le_bytes 4 (unat v4)) v4"
  "reads_as (readNat64 nm) (le_bytes 8 (unat v8)) v8"
  unfolding readNat8_def readLe8_def readBe8_def readNat16_def readNat32_def readNat64_def
  by (rule reads_as_return_fetch; simp add: of_nat_le_value_le_bytes)+

lemmas reads_as_intros = reads_as_readNat reads_as_readLe16 reads_as_readLe32 reads_as_readLe64
  reads_as_readBe16 reads_as_readBe32 reads_as_readBe64 reads_as_readVarint32 reads_as_readVarint64
  reads_as_readBytes reads_as_readVarBlob

lemma reads_as_read_item: "item_ok it \<Longrightarrow> reads_as (read_item nm it) (item_octets it) it"
  by (cases it) (auto intro!: reads_as_map reads_as_intros)

lemma reads_as_read_items:
  "list_all item_ok its \<Longrightarrow> reads_as (read_items nm its) (concat (map item_octets its)) its"
proof (induction its)
  case Nil
  then show ?case by (simp add: reads_as_return)
next
  case (Cons it its)
  then show ?case
    by (auto intro!: reads_as_bind reads_as_map reads_as_read_item)
qed

subsection \<open>The interface of a sink\<close>

text \<open>
  What a write operation may rely on: a sink that has room appends exactly the octets it is given,
  one that has not refuses them with \<open>EndOfDataException\<close> and stays as it was.
\<close>

locale byte_sink =
  fixes writeDirect :: "'w sink"
    and written :: "'w \<Rightarrow> byte list"
    and sink_ok :: "'w \<Rightarrow> bool"
    and room :: "'w \<Rightarrow> nat \<Rightarrow> bool"
  assumes write_fits: "sink_ok w \<Longrightarrow> room w (length bs) \<Longrightarrow>
      \<exists>w'. writeDirect bs nm w = (Inr (), w') \<and> sink_ok w' \<and> written w' = written w @ bs \<and>
           (\<forall>n. room w' n = room w (length bs + n))"
    and write_full: "sink_ok w \<Longrightarrow> \<not> room w (length bs) \<Longrightarrow>
      writeDirect bs nm w = (Inl (EndOfDataException ''byte'' nm), w)"
    and room_le: "room w n \<Longrightarrow> m \<le> n \<Longrightarrow> room w m"
begin

definition appends :: "('w, unit) smethod \<Rightarrow> byte list \<Rightarrow> bool" where
  "appends m bs \<longleftrightarrow> (\<forall>w. sink_ok w \<and> room w (length bs) \<longrightarrow>
     (\<exists>w'. m w = (Inr (), w') \<and> sink_ok w' \<and> written w' = written w @ bs \<and>
           (\<forall>n. room w' n = room w (length bs + n))))"

lemma appends_writeDirect: "appends (writeDirect bs nm) bs"
  using write_fits by (simp add: appends_def)

lemma appends_bind:
  assumes "appends m bs" and "\<And>x. appends (f x) cs"
  shows "appends (sbind m f) (bs @ cs)"
  unfolding appends_def
proof (intro allI impI, elim conjE)
  fix w
  assume ok: "sink_ok w" and rm: "room w (length (bs @ cs))"
  then have "room w (length bs)" by (auto intro: room_le)
  then obtain w1 where w1: "m w = (Inr (), w1)" "sink_ok w1" "written w1 = written w @ bs"
      "\<forall>n. room w1 n = room w (length bs + n)"
    using assms(1) ok unfolding appends_def by blast
  with rm have "room w1 (length cs)" by simp
  then obtain w2 where "f () w1 = (Inr (), w2)" "sink_ok w2" "written w2 = written w1 @ cs"
      "\<forall>n. room w2 n = room w1 (length cs + n)"
    using assms(2) [of "()"] w1(2) unfolding appends_def by blast
  with w1 show "\<exists>w'. sbind m f w = (Inr (), w') \<and> sink_ok w' \<and> written w' = written w @ bs @ cs \<and>
      (\<forall>n. room w' n = room w (length (bs @ cs) + n))"
    by (simp add: sbind_def add.assoc)
qed

lemma appends_writeVarint32: "appends (writeVarint32 writeDirect v nm) (varint (unat v))"
proof -
  have "unat v < 2 ^ 32" using unsigned_less [of v] by simp
  then have "unat v < 128 ^ 5" by simp
  then show ?thesis
    using appends_writeDirect [of "varint (unat v)" nm]
    by (simp add: writeVarint32_def varint_octets_eq appends_def)
qed

lemma appends_writeVarint64: "unat v < 2 ^ 63 \<Longrightarrow> appends (writeVarint64 writeDirect v nm) (varint (unat v))"
  using appends_writeDirect [of "varint (unat v)" nm]
  by (simp add: writeVarint64_def varint_octets_eq appends_def)


lemma appends_writeVarBlob:
  assumes "length bs < 2 ^ 60"
  shows "appends (writeVarBlob writeDirect bs nm) (varint (length bs) @ bs)"
proof -
  have "unat (of_nat (length bs) :: u64) = length bs"
    using assms by (simp add: unat_of_nat take_bit_nat_eq_self)
  then have "appends (writeVarint64 writeDirect (of_nat (length bs)) nm) (varint (length bs))"
    using appends_writeVarint64 [of "of_nat (length bs)" nm] assms by simp
  then show ?thesis
    unfolding writeVarBlob_def writeBytes_def by (rule appends_bind) (rule appends_writeDirect)
qed

lemma appends_write_item: "item_ok it \<Longrightarrow> appends (write_item writeDirect nm it) (item_octets it)"
  using appends_writeDirect
  by (cases it)
     (auto simp: writeNat8_def writeNat16_def writeNat32_def writeNat64_def writeLe8_def writeLe16_def
        writeLe32_def writeLe64_def writeBe8_def writeBe16_def writeBe32_def writeBe64_def writeBytes_def
        be_bytes_def write_octets
        intro!: appends_writeVarint32 appends_writeVarint64 appends_writeVarBlob)

lemma appends_write_items:
  "list_all item_ok its \<Longrightarrow> appends (write_items writeDirect nm its) (concat (map item_octets its))"
proof (induction its)
  case Nil
  then show ?case by (simp add: appends_def sreturn_def)
next
  case (Cons it its)
  then show ?case by (auto intro!: appends_bind appends_write_item)
qed

lemma write_items_fit:
  assumes "list_all item_ok its" and "sink_ok w" and "room w (length (concat (map item_octets its)))"
  obtains w' where "write_items writeDirect nm its w = (Inr (), w')" and "sink_ok w'"
    and "written w' = written w @ concat (map item_octets its)"
  using appends_write_items [OF assms(1), of nm] assms(2,3) unfolding appends_def by blast

end

definition mw_ok :: "mem_writer \<Rightarrow> bool" where
  "mw_ok w \<longleftrightarrow> current_pos w \<le> end_pos w \<and> end_pos w \<le> length (mw_data w)"

definition mw_written :: "mem_writer \<Rightarrow> byte list" where
  "mw_written w = take (current_pos w) (mw_data w)"

definition mw_room :: "mem_writer \<Rightarrow> nat \<Rightarrow> bool" where
  "mw_room w n \<longleftrightarrow> n \<le> end_pos w - current_pos w"

interpretation mem_sink: byte_sink mem_writeDirect mw_written mw_ok mw_room
proof (unfold_locales, goal_cases)
  case (1 w bs nm)
  then have "current_pos w + length bs \<le> length (mw_data w)"
    by (auto simp: mw_ok_def mw_room_def)
  with 1 show ?case
    by (auto simp: mem_writeDirect_def mem_write_def mw_ok_def mw_room_def mw_written_def)
next
  case (2 w bs nm)
  then show ?case by (simp add: mem_writeDirect_def mw_room_def)
next
  case (3 w n m)
  then show ?case by (simp add: mw_room_def)
qed

interpretation blob_sink: byte_sink blob_writeDirect content "\<lambda>_. True" "\<lambda>_ _. True"
  by unfold_locales (simp_all add: blob_writeDirect_def)

lemma reads_back:
  assumes "list_all item_ok its"
  shows "\<exists>r. read_items nm its (BinaryMemReader (concat (map item_octets its))) = (Inr its, r) \<and> isEnd r"
proof -
  let ?bs = "concat (map item_octets its)"
  have "rd_ok (BinaryMemReader ?bs)" and "stream (BinaryMemReader ?bs) = ?bs"
    by (simp_all add: rd_ok_def stream_def BinaryMemReader_def)
  then obtain r where r: "read_items nm its (BinaryMemReader ?bs) = (Inr its, r)" "rd_ok r" "stream r = []"
    using reads_as_read_items [OF assms, of nm] unfolding reads_as_def by fastforce
  then have "isEnd r"
    using length_stream [of r] by (simp add: isEnd_def rd_ok_def)
  with r show ?thesis by blast
qed
subsection \<open>Safety of the reader\<close>

text \<open>A safe operation keeps the pointers inside the block and never reads outside it.\<close>

definition rd_safe :: "(bin_reader, 'a) smethod \<Rightarrow> bool" where
  "rd_safe m \<longleftrightarrow> (\<forall>r. rd_ok r \<longrightarrow> rd_ok (snd (m r)) \<and> fst (m r) \<noteq> Inl OutOfBounds)"

lemma rd_safe_bind: "rd_safe m \<Longrightarrow> (\<And>x. rd_safe (f x)) \<Longrightarrow> rd_safe (sbind m f)"
  by (fastforce simp: rd_safe_def sbind_def split: prod.splits sum.splits)

lemma rd_safe_return: "rd_safe (sreturn x)"
  by (simp add: rd_safe_def sreturn_def)

lemma rd_safe_throw: "e \<noteq> OutOfBounds \<Longrightarrow> rd_safe (sthrow e)"
  by (simp add: rd_safe_def sthrow_def)

lemma rd_safe_fetch: "rd_safe (fetch n nm)"
  unfolding rd_safe_def
proof (intro allI impI)
  fix r assume "rd_ok r"
  then show "rd_ok (snd (fetch n nm r)) \<and> fst (fetch n nm r) \<noteq> Inl OutOfBounds"
    by (cases "n \<le> length (stream r)") (simp_all add: fetch_ok advance_ok fetch_end)
qed

lemma rd_safe_readVarint: "rd_safe (readVarint_loop limit nm res)"
  unfolding rd_safe_def
proof (intro allI impI)
  fix r assume "rd_ok r"
  then show "rd_ok (snd (readVarint_loop limit nm res r)) \<and>
      fst (readVarint_loop limit nm res r) \<noteq> Inl OutOfBounds"
  proof (induction limit nm res r rule: readVarint_loop.induct)
    case (1 limit nm res r)
    show ?case
    proof (cases "stream r")
      case Nil
      then have "cache_end r - cache_pos r = 0"
        using length_stream [OF 1(2)] by simp
      then show ?thesis
        using 1(2) by (simp add: readVarint_loop.simps [of limit nm res r] needBytes_def extendCache_def)
    next
      case (Cons b rest)
      have ok: "rd_ok (advance 1 r)" using advance_ok(1) [OF 1(2), of 1] Cons by simp
      have "\<not> cache_end r - cache_pos r < 1" using length_stream [OF 1(2)] Cons by simp
      then have nb: "needBytes 1 nm r = (Inr (), r)" by (simp add: needBytes_def)
      show ?thesis
      proof (cases "limit \<le> res")
        case True
        then show ?thesis using readVarint_over [OF 1(2) _ True, of nm] Cons 1(2) by simp
      next
        case False
        have "mem_get (br_data r) (cache_pos r) = Inr (br_data r ! cache_pos r)"
          using \<open>\<not> cache_end r - cache_pos r < 1\<close> 1(2) by (simp add: mem_get_def rd_ok_def)
        then show ?thesis
          using 1(1) [OF nb [symmetric] refl False, of "br_data r ! cache_pos r" "advance 1 r"] ok False nb
          by (simp add: readVarint_loop.simps [of limit nm res r] Let_def advance_def)
      qed
    qed
  qed
qed

lemma rd_safe_read_item: "rd_safe (read_item nm it)"
  by (cases it)
     (auto simp: readNat8_def readNat16_def readNat32_def readNat64_def readLe8_def readLe16_def
        readLe32_def readLe64_def readBe8_def readBe16_def readBe32_def readBe64_def readVarint32_def
        readVarint64_def readBytes_def readVarBlob_def
        intro!: rd_safe_bind rd_safe_return rd_safe_fetch rd_safe_readVarint rd_safe_throw)

lemma rd_safe_read_items: "rd_safe (read_items nm its)"
  by (induction its) (auto intro!: rd_safe_bind rd_safe_return rd_safe_read_item)

section \<open>Properties\<close>





text \<open>
  \<open>readVarint32\<close> accepts less than \<open>writeVarint(Uint32)\<close> produces: every value of \<open>2 ^ 28\<close> or
  more is written (in five octets) and refused with \<open>OverflowException\<close> when it is read.
\<close>

theorem varint32_not_readable:
  assumes "2 ^ 28 \<le> unat v"
  shows "\<exists>w r. writeVarint32 blob_writeDirect v nm BinaryBlobWriter = (Inr (), w) \<and>
      length (getContent w) = 5 \<and>
      readVarint32 nm (BinaryMemReader (getContent w)) = (Inl (OverflowException ''reading varint''), r)"
proof -
  have lt: "unat v < 2 ^ 32" using unsigned_less [of v] by simp
  then have w: "writeVarint32 blob_writeDirect v nm BinaryBlobWriter = (Inr (), \<lparr>content = varint (unat v)\<rparr>)"
    by (simp add: writeVarint32_def varint_octets_eq blob_writeDirect_def BinaryBlobWriter_def)
  have "length (varint_hi (unat v div 128)) \<le> 4" and "\<not> length (varint_hi (unat v div 128)) \<le> 3"
    using lt assms by (simp_all add: length_varint_hi div_less_iff_less_mult not_less)
  then have "length (varint (unat v)) = 5"
    by (simp add: varint_def)
  moreover have "\<exists>r'. readVarint_loop (0x200000 :: u32) nm 0 (BinaryMemReader (varint (unat v))) =
      (Inl (OverflowException ''reading varint''), r')"
    using assms
    by (intro readVarint_overflow [where rest = "[]"])
       (simp_all add: rd_ok_def stream_def BinaryMemReader_def div_less_iff_less_mult not_less [symmetric])
  ultimately show ?thesis
    using w by (auto simp: getContent_def readVarint32_def)
qed

theorem varint32_not_readable_witness:
  "\<exists>w r. writeVarint32 blob_writeDirect 0x10000000 ''x'' BinaryBlobWriter = (Inr (), w) \<and>
      length (getContent w) = 5 \<and>
      readVarint32 ''x'' (BinaryMemReader (getContent w)) = (Inl (OverflowException ''reading varint''), r)"
  using varint32_not_readable [of "0x10000000" "''x''"] by simp

text \<open>
  The same for 64 bits: values from \<open>2 ^ 60\<close> are refused by the reader, and from \<open>2 ^ 63\<close> the
  writer itself stores a tenth septet before the start of its nine-octet array.
\<close>

theorem varint64_limits:
  assumes "2 ^ 60 \<le> unat v"
  shows "if unat v < 2 ^ 63
    then \<exists>w r. writeVarint64 blob_writeDirect v nm BinaryBlobWriter = (Inr (), w) \<and>
      length (getContent w) = 9 \<and>
      readVarint64 nm (BinaryMemReader (getContent w)) = (Inl (OverflowException ''reading varint''), r)
    else writeVarint64 blob_writeDirect v nm BinaryBlobWriter = (Inl OutOfBounds, BinaryBlobWriter)"
proof (cases "unat v < 2 ^ 63")
  case True
  then have w: "writeVarint64 blob_writeDirect v nm BinaryBlobWriter = (Inr (), \<lparr>content = varint (unat v)\<rparr>)"
    by (simp add: writeVarint64_def varint_octets_eq blob_writeDirect_def BinaryBlobWriter_def)
  have "length (varint_hi (unat v div 128)) \<le> 8" and "\<not> length (varint_hi (unat v div 128)) \<le> 7"
    using True assms by (simp_all add: length_varint_hi div_less_iff_less_mult not_less)
  then have "length (varint (unat v)) = 9"
    by (simp add: varint_def)
  moreover have "\<exists>r'. readVarint_loop (push_bit 32 0x200000 :: u64) nm 0 (BinaryMemReader (varint (unat v))) =
      (Inl (OverflowException ''reading varint''), r')"
    using assms
    by (intro readVarint_overflow [where rest = "[]"])
       (simp_all add: rd_ok_def stream_def BinaryMemReader_def div_less_iff_less_mult not_less [symmetric])
  ultimately show ?thesis
    using w True by (auto simp: getContent_def readVarint64_def)
next
  case False
  then show ?thesis by (simp add: writeVarint64_def varint_octets_eq)
qed

theorem varint64_limits_witness:
  "writeVarint64 blob_writeDirect 0x8000000000000000 ''x'' BinaryBlobWriter = (Inl OutOfBounds, BinaryBlobWriter)"
  using varint64_limits [of "0x8000000000000000" "''x''"] by simp

text \<open>
  C18: Whatever bytes a memory reader is given and whatever types are asked for, no read leaves
  the block and the read position stays between its start and its end.
\<close>

theorem binary_reader_safe:
  assumes "cache_pos r \<le> cache_end r" and "cache_end r \<le> length (br_data r)"
    and "read_items nm its r = (res, r')"
  shows "cache_pos r' \<le> cache_end r' \<and> cache_end r' \<le> length (br_data r') \<and> res \<noteq> Inl OutOfBounds"
  using rd_safe_read_items [of nm its] assms by (fastforce simp: rd_safe_def rd_ok_def)

theorem binary_reader_safe_witness:
  "\<exists>res r'. read_items ''x'' [I_Le32 0] (BinaryMemReader [1, 2, 3]) = (res, r') \<and> res \<noteq> Inl OutOfBounds"
  using binary_reader_safe [of "BinaryMemReader [1, 2, 3]" "''x''" "[I_Le32 0]"]
  by (cases "read_items ''x'' [I_Le32 0] (BinaryMemReader [1, 2, 3])") (auto simp: BinaryMemReader_def)

end
