(* ===== verification/Drt_Heap.thy ===== *)
theory Drt_Heap
  imports Drt_Prelude
begin

text \<open>
  The store the pointer containers of \<^verbatim>\<open>src/src/core/struct\<close> live in.  An address is a natural
  number and \<open>0\<close> is \<^verbatim>\<open>NULL\<close>; \<open>brk\<close> is the next address the allocator hands out, and a freed
  address is never handed out again, so that an access through a dangling pointer is seen as an
  access to an empty cell.  A container is a record that extends \<open>heap\<close> with its own members.

  A loop that follows pointers gets \<open>brk\<close> as its bound: a walk that visits more cells than were
  ever allocated visits one of them twice and would never end.
\<close>

type_synonym addr = nat

record 'n heap =
  cells :: "addr \<Rightarrow> 'n option"
  brk :: nat

definition heap_ok :: "('n, 'z) heap_scheme \<Rightarrow> bool" where
  "heap_ok s \<longleftrightarrow> 0 < brk s \<and> cells s 0 = None \<and> (\<forall>a. brk s \<le> a \<longrightarrow> cells s a = None)"

definition load :: "addr \<Rightarrow> (('n, 'z) heap_scheme, 'n) smethod" where
  "load p s = (case cells s p of None \<Rightarrow> (Inl NullAccess, s) | Some n \<Rightarrow> (Inr n, s))"

definition modify :: "addr \<Rightarrow> ('n \<Rightarrow> 'n) \<Rightarrow> (('n, 'z) heap_scheme, unit) smethod" where
  "modify p f s = (case cells s p of None \<Rightarrow> (Inl NullAccess, s)
     | Some n \<Rightarrow> (Inr (), s\<lparr>cells := (cells s)(p := Some (f n))\<rparr>))"

definition alloc :: "'n \<Rightarrow> (('n, 'z) heap_scheme, addr) smethod" where
  "alloc n s = (Inr (brk s), s\<lparr>cells := (cells s)(brk s := Some n), brk := Suc (brk s)\<rparr>)"

definition dealloc :: "addr \<Rightarrow> (('n, 'z) heap_scheme, unit) smethod" where
  "dealloc p s = (case cells s p of None \<Rightarrow> (Inl NullAccess, s)
     | Some n \<Rightarrow> (Inr (), s\<lparr>cells := (cells s)(p := None)\<rparr>))"

definition pointer_bound :: "(('n, 'z) heap_scheme, nat) smethod" where
  "pointer_bound s = (Inr (brk s), s)"

text \<open>\<open>getf\<close> reads a member of the object, \<open>putf\<close> assigns to members of the object.\<close>

definition getf :: "('s \<Rightarrow> 'a) \<Rightarrow> ('s, 'a) smethod" where
  "getf f s = (Inr (f s), s)"

definition putf :: "('s \<Rightarrow> 's) \<Rightarrow> ('s, unit) smethod" where
  "putf f s = (Inr (), f s)"

lemma getf_eq [simp]: "getf f s = (Inr (f s), s)"
  by (simp add: getf_def)

lemma putf_eq [simp]: "putf f s = (Inr (), f s)"
  by (simp add: putf_def)

lemma pointer_bound_eq [simp]: "pointer_bound s = (Inr (brk s), s)"
  by (simp add: pointer_bound_def)

lemma load_Some [simp]: "cells s p = Some n \<Longrightarrow> load p s = (Inr n, s)"
  by (simp add: load_def)

lemma load_None [simp]: "cells s p = None \<Longrightarrow> load p s = (Inl NullAccess, s)"
  by (simp add: load_def)

lemma modify_Some [simp]:
  "cells s p = Some n \<Longrightarrow> modify p f s = (Inr (), s\<lparr>cells := (cells s)(p := Some (f n))\<rparr>)"
  by (simp add: modify_def)

lemma dealloc_Some [simp]:
  "cells s p = Some n \<Longrightarrow> dealloc p s = (Inr (), s\<lparr>cells := (cells s)(p := None)\<rparr>)"
  by (simp add: dealloc_def)

lemma sbind_simps [simp]:
  "m s = (Inr x, s') \<Longrightarrow> sbind m f s = f x s'"
  "m s = (Inl e, s') \<Longrightarrow> sbind m f s = (Inl e, s')"
  by (simp_all add: sbind_def)

lemma sreturn_eq [simp]: "sreturn x s = (Inr x, s)"
  by (simp add: sreturn_def)

lemma heap_ok_zero [simp]: "heap_ok s \<Longrightarrow> cells s 0 = None"
  by (simp add: heap_ok_def)

lemma heap_ok_brk: "heap_ok s \<Longrightarrow> brk s \<le> a \<Longrightarrow> cells s a = None"
  by (simp add: heap_ok_def)

lemma heap_ok_modify:
  "heap_ok s \<Longrightarrow> cells s p \<noteq> None \<Longrightarrow> heap_ok (s\<lparr>cells := (cells s)(p := Some n)\<rparr>)"
  by (cases "p = 0") (auto simp: heap_ok_def)

lemma heap_ok_alloc:
  "heap_ok s \<Longrightarrow> heap_ok (s\<lparr>cells := (cells s)(brk s := Some n), brk := Suc (brk s)\<rparr>)"
  by (auto simp: heap_ok_def)

lemma heap_ok_free: "heap_ok s \<Longrightarrow> heap_ok (s\<lparr>cells := (cells s)(p := None)\<rparr>)"
  by (auto simp: heap_ok_def)

text \<open>A set of pairwise different live cells is smaller than the bound of the pointer loops.\<close>

lemma distinct_cells_bound:
  assumes "heap_ok s" "distinct xs" "\<And>a. a \<in> set xs \<Longrightarrow> cells s a \<noteq> None"
  shows "length xs < brk s"
proof -
  have sub: "set xs \<subseteq> {1..<brk s}"
  proof
    fix a assume "a \<in> set xs"
    then have c: "cells s a \<noteq> None" by (rule assms(3))
    have "a < brk s" using c heap_ok_brk [OF assms(1), of a] by (cases "a < brk s") auto
    moreover have "0 < a" using c heap_ok_zero [OF assms(1)] by (cases a) auto
    ultimately show "a \<in> {1..<brk s}" by simp
  qed
  have "length xs = card (set xs)" using assms(2) by (simp add: distinct_card)
  also have "\<dots> \<le> card {1..<brk s}" using sub by (rule card_mono [rotated]) simp
  also have "\<dots> < brk s" using assms(1) by (simp add: heap_ok_def)
  finally show ?thesis .
qed

end
