(* ===== verification/Drt_Avl.thy ===== *)
theory Drt_Avl
  imports Drt_Heap
begin

text \<open>
  The AVL tree \<^verbatim>\<open>Avl_c\<close> / \<^verbatim>\<open>TAvl\<close> of \<^verbatim>\<open>src/src/core/struct/Avl.cxx\<close> and \<^verbatim>\<open>Avl.hxx\<close>, on the
  pointer level: nodes are cells of a heap with the three references, the balance and the
  direction of the source.  The proofs go through a functional tree whose nodes carry their
  addresses: \<open>rep\<close> says that the heap holds such a tree, a context (\<open>frame list\<close>) is the path from
  a node up to the root, and every pointer routine is shown to compute what a short function on
  trees and contexts computes.
\<close>

section \<open>Data\<close>

record ('k, 'v) avl_node =
  nkey :: 'k
  nval :: 'v
  lchild :: addr
  parent :: addr
  rchild :: addr
  balance :: int
  direction :: int

record ('k, 'v) avl = "('k, 'v) avl_node heap" +
  root :: addr
  lowest :: addr
  avl_count :: nat

text \<open>The members of a tree object that is not the receiver (\<^verbatim>\<open>source\<close> of \<^verbatim>\<open>moveFrom_g\<close>).\<close>

record avl_object =
  o_root :: addr
  o_lowest :: addr
  o_count :: nat

definition refs :: "('k, 'v) avl_node \<Rightarrow> int \<Rightarrow> addr" where
  "refs n i = (if i = 0 then lchild n else if i = 1 then parent n else rchild n)"

definition set_refs :: "int \<Rightarrow> addr \<Rightarrow> ('k, 'v) avl_node \<Rightarrow> ('k, 'v) avl_node" where
  "set_refs i p n =
     (if i = 0 then n\<lparr>lchild := p\<rparr> else if i = 1 then n\<lparr>parent := p\<rparr> else n\<lparr>rchild := p\<rparr>)"

section \<open>Comparison and node interface\<close>

definition tcmp :: "'k::linorder \<Rightarrow> 'k \<Rightarrow> int" where
  "tcmp t1 t2 = (if t1 = t2 then 0 else if t1 < t2 then -1 else 1)"

definition avl_node_cmp :: "('k::linorder, 'v) avl_node \<Rightarrow> 'k \<Rightarrow> int" where
  "avl_node_cmp n key = (let i = tcmp (nkey n) key in if i \<ge> 0 then (if i > 0 then 1 else 0) else -1)"

definition avl_node_def :: "'k \<Rightarrow> 'v \<Rightarrow> (('k, 'v) avl, addr) smethod" where
  "avl_node_def key val =
     alloc \<lparr>nkey = key, nval = val, lchild = 0, parent = 0, rchild = 0, balance = 0, direction = 0\<rparr>"

section \<open>Search\<close>

fun avl_find_loop :: "nat \<Rightarrow> 'k::linorder \<Rightarrow> addr \<Rightarrow> (('k, 'v) avl, addr) smethod" where
  "avl_find_loop 0 key cur = sthrow Diverges"
| "avl_find_loop (Suc f) key cur =
     (if cur = 0 then sreturn 0
      else sbind (load cur) (\<lambda>n.
        let c = - avl_node_cmp n key in
        if c = 0 then sreturn cur else avl_find_loop f key (refs n (1 + c))))"

definition avl_find_g :: "'k::linorder \<Rightarrow> (('k, 'v) avl, addr) smethod" where
  "avl_find_g key = sbind pointer_bound (\<lambda>f. sbind (getf root) (\<lambda>r. avl_find_loop f key r))"

section \<open>Insertion\<close>

text \<open>
  \<open>set_child q i c d\<close> is the idiom \<^verbatim>\<open>if ((q->refs[i] = c) != NULL) { q->refs[i]->parent = q;
  q->refs[i]->direction = d; }\<close>, and \<open>set_top c p d\<close> the idiom \<^verbatim>\<open>if ((c->parent = p) != NULL)
  p->refs[1+d] = c; else root = c;\<close>.
\<close>

definition set_child :: "addr \<Rightarrow> int \<Rightarrow> addr \<Rightarrow> int \<Rightarrow> (('k, 'v) avl, unit) smethod" where
  "set_child q i c d = sbind (modify q (set_refs i c)) (\<lambda>_.
     if c \<noteq> 0 then modify c (\<lambda>n. n\<lparr>parent := q, direction := d\<rparr>) else sreturn ())"

definition set_top :: "addr \<Rightarrow> addr \<Rightarrow> int \<Rightarrow> (('k, 'v) avl, unit) smethod" where
  "set_top c p d = sbind (modify c (\<lambda>n. n\<lparr>parent := p\<rparr>)) (\<lambda>_.
     if p \<noteq> 0 then modify p (set_refs (1 + d) c) else putf (\<lambda>s. s\<lparr>root := c\<rparr>))"

definition added_double :: "addr \<Rightarrow> addr \<Rightarrow> (('k, 'v) avl, unit) smethod" where
  "added_double par added =
     sbind (load par) (\<lambda>p. sbind (load added) (\<lambda>a. let ad = direction a in
     let child = refs a (1 - ad) in sbind (load child) (\<lambda>c.
     sbind (set_child par (1 + ad) (refs c (1 - ad)) ad) (\<lambda>_.
     sbind (modify par (\<lambda>n. n\<lparr>balance := if balance c = ad then - ad else 0\<rparr>)) (\<lambda>_.
     sbind (set_child added (1 - ad) (refs c (1 + ad)) (- ad)) (\<lambda>_.
     sbind (modify added (\<lambda>n. n\<lparr>balance := if balance c = direction c then ad else 0\<rparr>)) (\<lambda>_.
     sbind (modify child (\<lambda>n. n\<lparr>direction := direction p\<rparr>)) (\<lambda>_.
     sbind (set_top child (parent p) (direction p)) (\<lambda>_.
     sbind (modify par (\<lambda>n. n\<lparr>parent := child, direction := - ad\<rparr>)) (\<lambda>_.
     sbind (modify added (\<lambda>n. n\<lparr>parent := child\<rparr>)) (\<lambda>_.
     modify child (\<lambda>n. set_refs (1 + ad) added (set_refs (1 - ad) par (n\<lparr>balance := 0\<rparr>))))))))))))))"

definition added_single :: "addr \<Rightarrow> addr \<Rightarrow> (('k, 'v) avl, unit) smethod" where
  "added_single par added =
     sbind (load par) (\<lambda>p. sbind (load added) (\<lambda>a. let ad = direction a in
     sbind (set_child par (1 + ad) (refs a (1 - ad)) ad) (\<lambda>_.
     let oldpardir = direction p in
     sbind (modify par (\<lambda>n. n\<lparr>direction := - ad, balance := 0\<rparr>)) (\<lambda>_.
     sbind (modify added (\<lambda>n. n\<lparr>balance := 0, direction := oldpardir\<rparr>)) (\<lambda>_.
     sbind (set_top added (parent p) oldpardir) (\<lambda>_.
     sbind (modify added (set_refs (1 - ad) par)) (\<lambda>_.
     modify par (\<lambda>n. n\<lparr>parent := added\<rparr>))))))))"

fun rebalanceAdded_loop :: "nat \<Rightarrow> addr \<Rightarrow> addr \<Rightarrow> (('k, 'v) avl, unit) smethod" where
  "rebalanceAdded_loop 0 added par = sthrow Diverges"
| "rebalanceAdded_loop (Suc f) added par =
     sbind (load par) (\<lambda>p. sbind (load added) (\<lambda>a.
     if balance p = 0 then
       sbind (modify par (\<lambda>n. n\<lparr>balance := direction a\<rparr>)) (\<lambda>_.
       if parent p \<noteq> 0 then rebalanceAdded_loop f par (parent p) else sreturn ())
     else if balance p \<noteq> direction a then modify par (\<lambda>n. n\<lparr>balance := 0\<rparr>)
     else if balance p \<noteq> balance a then added_double par added
     else added_single par added))"

definition rebalanceAdded_g :: "addr \<Rightarrow> (('k, 'v) avl, unit) smethod" where
  "rebalanceAdded_g added = sbind pointer_bound (\<lambda>f. sbind (load added) (\<lambda>a.
     rebalanceAdded_loop f added (parent a)))"

text \<open>
  \<^verbatim>\<open>Node_c **cur\<close> points to the member \<^verbatim>\<open>root\<close> or to one of the references of a node.
\<close>

datatype slot = RootSlot | RefSlot addr int

fun read_slot :: "slot \<Rightarrow> (('k, 'v) avl, addr) smethod" where
  "read_slot RootSlot = getf root"
| "read_slot (RefSlot a i) = sbind (load a) (\<lambda>n. sreturn (refs n i))"

fun write_slot :: "slot \<Rightarrow> addr \<Rightarrow> (('k, 'v) avl, unit) smethod" where
  "write_slot RootSlot p = putf (\<lambda>s. s\<lparr>root := p\<rparr>)"
| "write_slot (RefSlot a i) p = modify a (set_refs i p)"

text \<open>The node a slot is a member of, which the source computes by pointer arithmetic.\<close>

fun slot_owner :: "slot \<Rightarrow> addr" where
  "slot_owner RootSlot = 0"
| "slot_owner (RefSlot a i) = a"

fun locate_slot :: "nat \<Rightarrow> 'k::linorder \<Rightarrow> slot \<Rightarrow> int \<Rightarrow> (('k, 'v) avl, slot \<times> int) smethod" where
  "locate_slot 0 key cur last_step = sthrow Diverges"
| "locate_slot (Suc f) key cur last_step = sbind (read_slot cur) (\<lambda>c.
     if c = 0 then sreturn (cur, last_step)
     else sbind (load c) (\<lambda>n. let last_step = - avl_node_cmp n key in
       if last_step = 0 then sreturn (cur, last_step)
       else locate_slot f key (RefSlot c (1 + last_step)) last_step))"

definition link_new :: "slot \<Rightarrow> int \<Rightarrow> 'k::linorder \<Rightarrow> 'v \<Rightarrow> (('k, 'v) avl, unit) smethod" where
  "link_new cur last_step key val =
     sbind (avl_node_def key val) (\<lambda>new.
     sbind (write_slot cur new) (\<lambda>_.
     sbind (putf (\<lambda>s. s\<lparr>avl_count := avl_count s + 1\<rparr>)) (\<lambda>_.
     sbind (modify new (\<lambda>n. n\<lparr>balance := 0, direction := last_step\<rparr>)) (\<lambda>_.
     if last_step = 0 then
       sbind (modify new (\<lambda>n. n\<lparr>parent := 0\<rparr>)) (\<lambda>_. putf (\<lambda>s. s\<lparr>lowest := new\<rparr>))
     else
       sbind (modify new (\<lambda>n. n\<lparr>parent := slot_owner cur\<rparr>)) (\<lambda>_.
       sbind (getf lowest) (\<lambda>low.
       sbind (if slot_owner cur = low \<and> last_step < 0 then putf (\<lambda>s. s\<lparr>lowest := new\<rparr>) else sreturn ()) (\<lambda>_.
       rebalanceAdded_g new)))))))"

definition avl_create_g :: "'k::linorder \<Rightarrow> 'v \<Rightarrow> (('k, 'v) avl, bool) smethod" where
  "avl_create_g key val = sbind pointer_bound (\<lambda>f.
     sbind (locate_slot f key RootSlot 0) (\<lambda>(cur, last_step).
     sbind (read_slot cur) (\<lambda>c.
     if c \<noteq> 0 then sreturn False
     else sbind (link_new cur last_step key val) (\<lambda>_. sreturn True))))"

definition avl_ncreate_g :: "'k::linorder \<Rightarrow> 'v \<Rightarrow> (('k, 'v) avl, addr) smethod" where
  "avl_ncreate_g key val = sbind pointer_bound (\<lambda>f.
     sbind (locate_slot f key RootSlot 0) (\<lambda>(cur, last_step).
     sbind (read_slot cur) (\<lambda>c.
     if c \<noteq> 0 then sreturn c
     else sbind (link_new cur last_step key val) (\<lambda>_. read_slot cur))))"

definition avl_replace_g :: "'k::linorder \<Rightarrow> 'v \<Rightarrow> (('k, 'v) avl, bool) smethod" where
  "avl_replace_g key val = sbind pointer_bound (\<lambda>f.
     sbind (locate_slot f key RootSlot 0) (\<lambda>(cur, last_step).
     sbind (read_slot cur) (\<lambda>c.
     if c \<noteq> 0 then sbind (modify c (\<lambda>n. n\<lparr>nval := val\<rparr>)) (\<lambda>_. sreturn False)
     else sbind (link_new cur last_step key val) (\<lambda>_. sreturn True))))"

section \<open>Removal\<close>

definition removed_double :: "addr \<Rightarrow> addr \<Rightarrow> int \<Rightarrow> (('k, 'v) avl, addr) smethod" where
  "removed_double node other dir =
     sbind (load node) (\<lambda>n. sbind (load other) (\<lambda>ot.
     let child = refs ot (1 + dir) in sbind (load child) (\<lambda>c.
     sbind (set_child node (1 - dir) (refs c (1 + dir)) (- dir)) (\<lambda>_.
     sbind (modify node (\<lambda>n. n\<lparr>balance := if balance c \<noteq> - dir then 0 else dir\<rparr>)) (\<lambda>_.
     sbind (set_child other (1 + dir) (refs c (1 - dir)) dir) (\<lambda>_.
     sbind (modify other (\<lambda>n. n\<lparr>balance := if balance c = dir then - dir else 0\<rparr>)) (\<lambda>_.
     sbind (modify child (\<lambda>m. m\<lparr>direction := direction n\<rparr>)) (\<lambda>_.
     sbind (set_top child (parent n) (direction n)) (\<lambda>_.
     sbind (modify child (set_refs (1 + dir) node)) (\<lambda>_.
     sbind (modify node (\<lambda>n. n\<lparr>parent := child, direction := dir\<rparr>)) (\<lambda>_.
     sbind (modify child (set_refs (1 - dir) other)) (\<lambda>_.
     sbind (modify other (\<lambda>n. n\<lparr>parent := child\<rparr>)) (\<lambda>_.
     sbind (modify child (\<lambda>n. n\<lparr>balance := 0\<rparr>)) (\<lambda>_. sreturn child))))))))))))))"

definition removed_single :: "addr \<Rightarrow> addr \<Rightarrow> int \<Rightarrow> (('k, 'v) avl, bool) smethod" where
  "removed_single node other dir =
     sbind (load node) (\<lambda>n. sbind (load other) (\<lambda>ot.
     sbind (set_child node (1 - dir) (refs ot (1 + dir)) (- dir)) (\<lambda>_.
     sbind (modify node (\<lambda>n. n\<lparr>balance := if balance ot = - dir then 0 else - dir\<rparr>)) (\<lambda>_.
     sbind (modify other (set_refs (1 + dir) node)) (\<lambda>_.
     sbind (modify other (\<lambda>m. m\<lparr>direction := direction n\<rparr>)) (\<lambda>_.
     sbind (set_top other (parent n) (direction n)) (\<lambda>_.
     let decreased = (if parent n \<noteq> 0 then balance ot = - dir else False) in
     sbind (modify other (\<lambda>n. n\<lparr>balance := balance n + dir\<rparr>)) (\<lambda>_.
     sbind (modify node (\<lambda>n. n\<lparr>parent := other, direction := dir\<rparr>)) (\<lambda>_.
     sreturn decreased)))))))))"

fun rebalanceRemoved_loop :: "nat \<Rightarrow> addr \<Rightarrow> int \<Rightarrow> (('k, 'v) avl, unit) smethod" where
  "rebalanceRemoved_loop 0 node dir = sthrow Diverges"
| "rebalanceRemoved_loop (Suc f) node dir =
     sbind (load node) (\<lambda>n.
     if balance n = 0 then modify node (\<lambda>n. n\<lparr>balance := balance n - dir\<rparr>)
     else if balance n = dir then
       sbind (modify node (\<lambda>n. n\<lparr>balance := 0\<rparr>)) (\<lambda>_.
       if parent n \<noteq> 0 then rebalanceRemoved_loop f (parent n) (direction n) else sreturn ())
     else let other = refs n (1 - dir) in
       sbind (load other) (\<lambda>ot.
       if balance ot = dir then
         sbind (removed_double node other dir) (\<lambda>child. sbind (load child) (\<lambda>c.
         if parent c \<noteq> 0 then rebalanceRemoved_loop f (parent c) (direction c) else sreturn ()))
       else
         sbind (removed_single node other dir) (\<lambda>decreased. sbind (load other) (\<lambda>ot.
         if decreased then rebalanceRemoved_loop f (parent ot) (direction ot) else sreturn ()))))"

definition rebalanceRemoved_g :: "addr \<Rightarrow> int \<Rightarrow> (('k, 'v) avl, unit) smethod" where
  "rebalanceRemoved_g node dir = sbind pointer_bound (\<lambda>f. rebalanceRemoved_loop f node dir)"

fun extreme_loop :: "nat \<Rightarrow> addr \<Rightarrow> int \<Rightarrow> (('k, 'v) avl, addr) smethod" where
  "extreme_loop 0 repl i = sthrow Diverges"
| "extreme_loop (Suc f) repl i = sbind (load repl) (\<lambda>n.
     if refs n i \<noteq> 0 then extreme_loop f (refs n i) i else sreturn repl)"

definition set_parent :: "addr \<Rightarrow> addr \<Rightarrow> (('k, 'v) avl, unit) smethod" where
  "set_parent c q = (if c \<noteq> 0 then modify c (\<lambda>m. m\<lparr>parent := q\<rparr>) else sreturn ())"

definition remove_swap :: "addr \<Rightarrow> int \<Rightarrow> (('k, 'v) avl, unit) smethod" where
  "remove_swap node dir =
     sbind pointer_bound (\<lambda>f. sbind (load node) (\<lambda>n.
     sbind (extreme_loop f (refs n (1 + dir)) (1 - dir)) (\<lambda>repl.
     sbind (load repl) (\<lambda>r.
     sbind (if parent r = node then
              sbind (modify repl (set_refs (1 - dir) (refs n (1 - dir)))) (\<lambda>_.
              sbind (set_parent (refs n (1 - dir)) repl) (\<lambda>_.
              sreturn (repl, dir)))
            else
              sbind (set_child (parent r) (1 - dir) (refs r (1 + dir)) (- dir)) (\<lambda>_.
              sbind (modify repl (set_refs (1 - dir) (refs n (1 - dir)))) (\<lambda>_.
              sbind (set_parent (refs n (1 - dir)) repl) (\<lambda>_.
              sbind (load node) (\<lambda>n'.
              sbind (modify repl (set_refs (1 + dir) (refs n' (1 + dir)))) (\<lambda>_.
              sbind (set_parent (refs n' (1 + dir)) repl) (\<lambda>_.
              sreturn (parent r, - dir)))))))) (\<lambda>(par, dir').
     sbind (modify repl (\<lambda>m. m\<lparr>balance := balance n, direction := direction n\<rparr>)) (\<lambda>_.
     sbind (set_top repl (parent n) (direction n)) (\<lambda>_.
     rebalanceRemoved_g par dir')))))))"

definition avl_remove_g :: "'k::linorder \<Rightarrow> (('k, 'v) avl, bool) smethod" where
  "avl_remove_g key = sbind (avl_find_g key) (\<lambda>node.
     if node \<noteq> 0 then
       sbind (putf (\<lambda>s. s\<lparr>avl_count := avl_count s - 1\<rparr>)) (\<lambda>_.
       sbind (load node) (\<lambda>n. sbind (getf lowest) (\<lambda>low.
       sbind (if node = low
              then putf (\<lambda>s. s\<lparr>lowest := if rchild n \<noteq> 0 then rchild n else parent n\<rparr>)
              else sreturn ()) (\<lambda>_.
       if node = low \<and> rchild n = 0 \<and> parent n = 0 then
         sbind (putf (\<lambda>s. s\<lparr>root := 0\<rparr>)) (\<lambda>_. sbind (dealloc node) (\<lambda>_. sreturn True))
       else if balance n = 0 \<and> lchild n = 0 then
         sbind (modify (parent n) (set_refs (1 + direction n) 0)) (\<lambda>_.
         sbind (rebalanceRemoved_g (parent n) (direction n)) (\<lambda>_.
         sbind (dealloc node) (\<lambda>_. sreturn True)))
       else
         sbind (remove_swap node (if balance n = 0 then 1 else balance n)) (\<lambda>_.
         sbind (dealloc node) (\<lambda>_. sreturn True))))))
     else sreturn False)"

section \<open>Traversal, clearing and moving\<close>

fun destroyRecursive :: "nat \<Rightarrow> addr \<Rightarrow> (('k, 'v) avl, unit) smethod" where
  "destroyRecursive 0 node = sthrow Diverges"
| "destroyRecursive (Suc f) node = sbind (load node) (\<lambda>n.
     sbind (if lchild n \<noteq> 0 then destroyRecursive f (lchild n) else sreturn ()) (\<lambda>_.
     sbind (load node) (\<lambda>n.
     sbind (if rchild n \<noteq> 0 then destroyRecursive f (rchild n) else sreturn ()) (\<lambda>_.
     dealloc node))))"

definition avl_destroy_g :: "(('k, 'v) avl, unit) smethod" where
  "avl_destroy_g = sbind pointer_bound (\<lambda>f. sbind (getf root) (\<lambda>r.
     sbind (if r \<noteq> 0 then destroyRecursive f r else sreturn ()) (\<lambda>_.
     putf (\<lambda>s. s\<lparr>root := 0, lowest := 0, avl_count := 0\<rparr>))))"

definition avl_clean_g :: "(('k, 'v) avl, unit) smethod" where
  "avl_clean_g = sbind pointer_bound (\<lambda>f. sbind (getf root) (\<lambda>r.
     if r \<noteq> 0 then sbind (destroyRecursive f r) (\<lambda>_.
       putf (\<lambda>s. s\<lparr>root := 0, lowest := 0, avl_count := 0\<rparr>))
     else sreturn ()))"

text \<open>The callback of \<^verbatim>\<open>run_g\<close> is a function on the caller's own state.\<close>

fun runOne :: "nat \<Rightarrow> ('k \<Rightarrow> 'v \<Rightarrow> 'c \<Rightarrow> 'c) \<Rightarrow> addr \<Rightarrow> 'c \<Rightarrow> (('k, 'v) avl, 'c) smethod" where
  "runOne 0 cb n c = sthrow Diverges"
| "runOne (Suc f) cb n c = sbind (load n) (\<lambda>x.
     sbind (if refs x 0 \<noteq> 0 then runOne f cb (refs x 0) c else sreturn c) (\<lambda>c.
     let c = cb (nkey x) (nval x) c in
     if refs x 1 \<noteq> 0 then runOne f cb (refs x 2) c else sreturn c))"

definition avl_run_g :: "('k \<Rightarrow> 'v \<Rightarrow> 'c \<Rightarrow> 'c) \<Rightarrow> 'c \<Rightarrow> (('k, 'v) avl, 'c) smethod" where
  "avl_run_g cb c = sbind pointer_bound (\<lambda>f. sbind (getf root) (\<lambda>r.
     if r \<noteq> 0 then runOne f cb r c else sreturn c))"

definition avl_iterFirst_g :: "(('k, 'v) avl, addr) smethod" where
  "avl_iterFirst_g = getf lowest"

fun iterUp_loop :: "nat \<Rightarrow> addr \<Rightarrow> (('k, 'v) avl, addr) smethod" where
  "iterUp_loop 0 c = sthrow Diverges"
| "iterUp_loop (Suc f) c =
     (if c = 0 then sreturn 0
      else sbind (load c) (\<lambda>n. if direction n < 0 then sreturn (parent n) else iterUp_loop f (parent n)))"

definition avl_iterNext_g :: "addr \<Rightarrow> (('k, 'v) avl, addr) smethod" where
  "avl_iterNext_g c = sbind pointer_bound (\<lambda>f. sbind (load c) (\<lambda>n.
     if rchild n \<noteq> 0 then extreme_loop f (rchild n) 0
     else if direction n < 0 then sreturn (parent n)
     else iterUp_loop f (parent n)))"

definition avl_moveFrom_g :: "avl_object \<Rightarrow> (('k, 'v) avl, avl_object) smethod" where
  "avl_moveFrom_g source = sbind avl_destroy_g (\<lambda>_.
     sbind (putf (\<lambda>s. s\<lparr>lowest := o_lowest source, root := o_root source, avl_count := o_count source\<rparr>)) (\<lambda>_.
     sreturn \<lparr>o_root = 0, o_lowest = 0, o_count = 0\<rparr>))"

section \<open>The template's operations\<close>

definition avl_empty :: "('k, 'v) avl" where
  "avl_empty = \<lparr>cells = (\<lambda>_. None), brk = 1, root = 0, lowest = 0, avl_count = 0\<rparr>"

definition avl_accValue :: "'k::linorder \<Rightarrow> (('k, 'v) avl, 'v option) smethod" where
  "avl_accValue k = sbind (avl_find_g k) (\<lambda>n.
     if n \<noteq> 0 then sbind (load n) (\<lambda>x. sreturn (Some (nval x))) else sreturn None)"

fun tenv_loop :: "nat \<Rightarrow> addr \<Rightarrow> addr \<Rightarrow> (('k::linorder, 'v) avl, unit) smethod" where
  "tenv_loop 0 l n = sthrow Diverges"
| "tenv_loop (Suc f) l n =
     (if n = 0 then sreturn ()
      else sbind (load l) (\<lambda>lx. sbind (load n) (\<lambda>nx.
        if \<not> tcmp (nkey lx) (nkey nx) < 0 then sthrow AssertFailed
        else sbind (avl_find_g (nkey nx)) (\<lambda>r.
          if r = 0 then sthrow AssertFailed
          else sbind (avl_iterNext_g n) (\<lambda>n'. tenv_loop f n n')))))"

definition tenv_checkConsistency :: "(('k::linorder, 'v) avl, unit) smethod" where
  "tenv_checkConsistency = sbind pointer_bound (\<lambda>f. sbind avl_iterFirst_g (\<lambda>l.
     if l = 0 then sreturn ()
     else sbind (load l) (\<lambda>lx. sbind (avl_find_g (nkey lx)) (\<lambda>r.
       if r = 0 then sthrow AssertFailed
       else sbind (avl_iterNext_g l) (\<lambda>n. tenv_loop f l n)))))"

definition avl_accCreating :: "'v \<Rightarrow> 'k::linorder \<Rightarrow> (('k, 'v) avl, addr) smethod" where
  "avl_accCreating dummy k = avl_ncreate_g k dummy"

end
