(* ===== verification/Drt_Avl_Tree.thy ===== *)
theory Drt_Avl_Tree
  imports Drt_Heap
begin

text \<open>
  The functional trees behind the AVL container: what the pointer routines of \<open>Drt_Avl\<close> compute.
  A node carries its address, so that the in-order list of a tree also fixes which cell holds
  which entry.  \<open>nd d\<close> names the two subtrees of a node by their direction, so that a rotation and
  its mirror image are one definition: \<open>nd d a k v b x y\<close> has \<open>x\<close> in direction \<open>d\<close> and \<open>y\<close> in
  direction \<open>- d\<close>.
\<close>

section \<open>Trees and contexts\<close>

datatype ('k, 'v) tree = Lf | Nd addr 'k 'v int "('k, 'v) tree" "('k, 'v) tree"

datatype ('k, 'v) frame = Fr int addr 'k 'v int "('k, 'v) tree"

fun rt :: "('k, 'v) tree \<Rightarrow> addr" where
  "rt Lf = 0"
| "rt (Nd a k v b l r) = a"

fun bal :: "('k, 'v) tree \<Rightarrow> int" where
  "bal Lf = 0"
| "bal (Nd a k v b l r) = b"

fun ht :: "('k, 'v) tree \<Rightarrow> nat" where
  "ht Lf = 0"
| "ht (Nd a k v b l r) = Suc (max (ht l) (ht r))"

fun inord :: "('k, 'v) tree \<Rightarrow> (addr \<times> 'k \<times> 'v) list" where
  "inord Lf = []"
| "inord (Nd a k v b l r) = inord l @ (a, k, v) # inord r"

definition nd :: "int \<Rightarrow> addr \<Rightarrow> 'k \<Rightarrow> 'v \<Rightarrow> int \<Rightarrow> ('k, 'v) tree \<Rightarrow> ('k, 'v) tree \<Rightarrow> ('k, 'v) tree" where
  "nd d a k v b x y = (if d < 0 then Nd a k v b x y else Nd a k v b y x)"

fun plug :: "('k, 'v) frame list \<Rightarrow> ('k, 'v) tree \<Rightarrow> ('k, 'v) tree" where
  "plug [] t = t"
| "plug (Fr d a k v b x # c) t = plug c (nd d a k v b t x)"

fun upaddr :: "('k, 'v) frame list \<Rightarrow> addr" where
  "upaddr [] = 0"
| "upaddr (Fr d a k v b x # c) = a"

fun dir :: "('k, 'v) frame list \<Rightarrow> int" where
  "dir [] = 0"
| "dir (Fr d a k v b x # c) = d"

text \<open>A direction is \<open>-1\<close> (left) or \<open>1\<close> (right).\<close>

definition dirn :: "int \<Rightarrow> bool" where
  "dirn d \<longleftrightarrow> d = -1 \<or> d = 1"

fun dirs :: "('k, 'v) frame list \<Rightarrow> bool" where
  "dirs [] = True"
| "dirs (Fr d a k v b x # c) = (dirn d \<and> dirs c)"

lemma dirn_cases [consumes 1, case_names left right]:
  assumes "dirn d" "d = -1 \<Longrightarrow> P" "d = 1 \<Longrightarrow> P"
  shows P
  using assms by (auto simp: dirn_def)

lemma nd_cases:
  assumes "dirn d"
  obtains "t = Lf" | a k v b x y where "t = nd d a k v b x y"
proof (cases t)
  case (Nd a k v b l r)
  from assms show thesis
  proof (cases rule: dirn_cases)
    case left
    then show thesis using that(2) [of a k v b l r] Nd by (simp add: nd_def)
  next
    case right
    then show thesis using that(2) [of a k v b r l] Nd by (simp add: nd_def)
  qed
qed (use that in auto)

lemma nd_simps [simp]:
  "rt (nd d a k v b x y) = a"
  "bal (nd d a k v b x y) = b"
  "ht (nd d a k v b x y) = Suc (max (ht x) (ht y))"
  "nd d a k v b x y \<noteq> Lf"
  "Lf \<noteq> nd d a k v b x y"
  by (auto simp: nd_def)

lemma nd_swap: "dirn d \<Longrightarrow> nd (- d) a k v b x y = nd d a k v b y x"
  by (auto simp: nd_def dirn_def)

lemma nd_inject [simp]:
  "nd d a k v b x y = nd d a' k' v' b' x' y' \<longleftrightarrow>
   a = a' \<and> k = k' \<and> v = v' \<and> b = b' \<and> x = x' \<and> y = y'"
  by (auto simp: nd_def)

lemma inord_nd:
  "inord (nd d a k v b x y) = (if d < 0 then inord x @ (a, k, v) # inord y else inord y @ (a, k, v) # inord x)"
  by (simp add: nd_def)

lemma set_inord_nd [simp]: "set (inord (nd d a k v b x y)) = {(a, k, v)} \<union> set (inord x) \<union> set (inord y)"
  by (auto simp: inord_nd)

section \<open>The order of a context\<close>

fun lefts :: "('k, 'v) frame list \<Rightarrow> (addr \<times> 'k \<times> 'v) list" where
  "lefts [] = []"
| "lefts (Fr d a k v b x # c) = lefts c @ (if d < 0 then [] else inord x @ [(a, k, v)])"

fun rights :: "('k, 'v) frame list \<Rightarrow> (addr \<times> 'k \<times> 'v) list" where
  "rights [] = []"
| "rights (Fr d a k v b x # c) = (if d < 0 then (a, k, v) # inord x else []) @ rights c"

lemma inord_plug: "inord (plug c t) = lefts c @ inord t @ rights c"
  by (induction c t rule: plug.induct) (auto simp: inord_nd)

lemma plug_append: "plug (c @ c') t = plug c' (plug c t)"
  by (induction c t rule: plug.induct) auto

lemma lefts_append: "lefts (c @ c') = lefts c' @ lefts c"
  by (induction c rule: lefts.induct) auto

lemma rights_append: "rights (c @ c') = rights c @ rights c'"
  by (induction c rule: rights.induct) auto

lemma dirs_append [simp]: "dirs (c @ c') \<longleftrightarrow> dirs c \<and> dirs c'"
  by (induction c rule: dirs.induct) auto

section \<open>Balance\<close>

fun avl :: "('k, 'v) tree \<Rightarrow> bool" where
  "avl Lf = True"
| "avl (Nd a k v b l r) = (avl l \<and> avl r \<and> b = int (ht r) - int (ht l) \<and> \<bar>b\<bar> \<le> 1)"

text \<open>\<open>avl_ctx c h\<close>: the context is balanced when a tree of height \<open>h\<close> stands in its hole.\<close>

fun avl_ctx :: "('k, 'v) frame list \<Rightarrow> nat \<Rightarrow> bool" where
  "avl_ctx [] h = True"
| "avl_ctx (Fr d a k v b x # c) h =
     (dirn d \<and> avl x \<and> b = d * (int h - int (ht x)) \<and> \<bar>b\<bar> \<le> 1 \<and> avl_ctx c (Suc (max h (ht x))))"

lemma avl_nd:
  "dirn d \<Longrightarrow> avl (nd d a k v b x y) \<longleftrightarrow> avl x \<and> avl y \<and> b = d * (int (ht x) - int (ht y)) \<and> \<bar>b\<bar> \<le> 1"
  by (auto simp: dirn_def nd_def)

lemma avl_plug: "dirs c \<Longrightarrow> avl (plug c t) \<longleftrightarrow> avl t \<and> avl_ctx c (ht t)"
  by (induction c t rule: plug.induct) (auto simp: avl_nd)

lemma avl_ctx_dirs: "avl_ctx c h \<Longrightarrow> dirs c"
  by (induction c h rule: avl_ctx.induct) auto

lemma avl_ctx_dir: "avl_ctx c h \<Longrightarrow> c \<noteq> [] \<Longrightarrow> dirn (dir c)"
  by (cases c rule: dirs.cases) auto

lemma avl_bal_zero: "avl t \<Longrightarrow> bal t = 0 \<Longrightarrow> t = Nd a k v b l r \<Longrightarrow> ht l = ht r"
  by auto

section \<open>Rebalancing after an insertion\<close>

text \<open>The result of \<^verbatim>\<open>rebalanceAdded_g\<close>: the tree \<open>t\<close> in the hole has just grown by one level.\<close>

definition rot_single :: "int \<Rightarrow> addr \<Rightarrow> 'k \<Rightarrow> 'v \<Rightarrow> ('k, 'v) tree \<Rightarrow> ('k, 'v) tree \<Rightarrow> ('k, 'v) tree" where
  "rot_single d p kp vp t x = (case t of Lf \<Rightarrow> Lf | Nd a k v b l r \<Rightarrow>
     nd d a k v 0 (if d < 0 then l else r) (nd d p kp vp 0 (if d < 0 then r else l) x))"

definition rot_double :: "int \<Rightarrow> addr \<Rightarrow> 'k \<Rightarrow> 'v \<Rightarrow> ('k, 'v) tree \<Rightarrow> ('k, 'v) tree \<Rightarrow> ('k, 'v) tree" where
  "rot_double d p kp vp t x = (case t of Lf \<Rightarrow> Lf | Nd a k v b l r \<Rightarrow>
     (case (if d < 0 then r else l) of Lf \<Rightarrow> Lf | Nd c kc vc bc cl cr \<Rightarrow>
       nd d c kc vc 0
         (nd d a k v (if bc = - d then d else 0) (if d < 0 then l else r) (if d < 0 then cl else cr))
         (nd d p kp vp (if bc = d then - d else 0) (if d < 0 then cr else cl) x)))"

lemma rot_single_nd:
  "dirn d \<Longrightarrow> rot_single d p kp vp (nd d a k v b x y) z = nd d a k v 0 x (nd d p kp vp 0 y z)"
  by (auto simp: rot_single_def nd_def)

lemma rot_double_nd:
  "dirn d \<Longrightarrow> rot_double d p kp vp (nd d a k v b x (nd d c kc vc bc u w)) z =
     nd d c kc vc 0 (nd d a k v (if bc = - d then d else 0) x u) (nd d p kp vp (if bc = d then - d else 0) w z)"
  by (auto simp: rot_double_def nd_def dirn_def)

fun grown :: "('k, 'v) frame list \<Rightarrow> ('k, 'v) tree \<Rightarrow> ('k, 'v) tree" where
  "grown [] t = t"
| "grown (Fr d p k v b x # c) t =
     (if b = 0 then grown c (nd d p k v d t x)
      else if b \<noteq> d then plug c (nd d p k v 0 t x)
      else if b \<noteq> bal t then plug c (rot_double d p k v t x)
      else plug c (rot_single d p k v t x))"

text \<open>
  The state of the insertion walk: the context was balanced for the old height of the hole.
\<close>

definition grows :: "('k, 'v) frame list \<Rightarrow> ('k, 'v) tree \<Rightarrow> bool" where
  "grows c t \<longleftrightarrow> t \<noteq> Lf \<and> avl t \<and> avl_ctx c (ht t - 1) \<and> (bal t \<noteq> 0 \<or> ht t = 1)"

lemma grows_up:
  assumes "grows (Fr d p k v 0 x # c) t"
  shows "grows c (nd d p k v d t x)"
  using assms by (auto simp: grows_def avl_nd dirn_def; cases t; auto)

text \<open>What a double rotation finds: the inner subtree of the grown side is there.\<close>

lemma grows_double:
  assumes "grows (Fr d p k v d x # c) t" "bal t \<noteq> d"
  obtains a ka va y e ke ve be u w where
    "t = nd d a ka va (- d) y (nd d e ke ve be u w)" "avl y" "avl u" "avl w"
    "ht y = ht x" "max (ht u) (ht w) = ht x" "be = d * (int (ht u) - int (ht w))" "\<bar>be\<bar> \<le> 1"
    "avl x" "dirn d" "avl_ctx c (Suc (Suc (ht x)))"
proof -
  have d: "dirn d" and x: "avl x" and t: "avl t" "t \<noteq> Lf"
    and hx: "d = d * (int (ht t - 1) - int (ht x))" and bz: "bal t \<noteq> 0 \<or> ht t = 1"
    and c: "avl_ctx c (Suc (max (ht t - 1) (ht x)))"
    using assms(1) by (auto simp: grows_def)
  have h: "ht t = Suc (Suc (ht x))" using d hx by (auto simp: dirn_def; cases t; auto)
  obtain a ka va b y z where te: "t = nd d a ka va b y z" using nd_cases [OF d, of t] t by metis
  have b: "b = - d" "avl y" "avl z" "b = d * (int (ht y) - int (ht z))"
    using t bz h assms(2) d by (auto simp: te avl_nd dirn_def)
  have yz: "ht z = Suc (ht x)" "ht y = ht x" using b h d by (auto simp: te dirn_def)
  obtain e ke ve be u w where ze: "z = nd d e ke ve be u w" using nd_cases [OF d, of z] yz by force
  show thesis
    by (rule that [of a ka va y e ke ve be u w])
      (use te ze b yz d x c h in \<open>auto simp: avl_nd\<close>)
qed

lemma grows_single:
  assumes "grows (Fr d p k v d x # c) t" "bal t = d"
  obtains a ka va y z where
    "t = nd d a ka va d y z" "avl y" "avl z" "ht y = Suc (ht x)" "ht z = ht x" "avl x" "dirn d"
    "avl_ctx c (Suc (Suc (ht x)))"
proof -
  have d: "dirn d" and x: "avl x" and t: "avl t" "t \<noteq> Lf"
    and hx: "d = d * (int (ht t - 1) - int (ht x))"
    and c: "avl_ctx c (Suc (max (ht t - 1) (ht x)))"
    using assms(1) by (auto simp: grows_def)
  have h: "ht t = Suc (Suc (ht x))" using d hx by (auto simp: dirn_def; cases t; auto)
  obtain a ka va b y z where te: "t = nd d a ka va b y z" using nd_cases [OF d, of t] t by metis
  have b: "b = d" "avl y" "avl z" "b = d * (int (ht y) - int (ht z))"
    using t assms(2) d by (auto simp: te avl_nd)
  show thesis
    by (rule that [of a ka va y z]) (use te b d x c h in \<open>auto simp: dirn_def\<close>)
qed

lemma grows_other:
  assumes "grows (Fr d p k v b x # c) t" "b \<noteq> 0" "b \<noteq> d"
  shows "ht x = ht t" "avl t" "avl x" "avl_ctx c (Suc (ht t))"
proof -
  have "t \<noteq> Lf" using assms(1) by (simp add: grows_def)
  then obtain h where h: "ht t = Suc h" by (cases t) auto
  have d: "dirn d" "b = d * (int h - int (ht x))" "\<bar>b\<bar> \<le> 1" "avl t" "avl x"
    and c: "avl_ctx c (Suc (max h (ht x)))"
    using assms(1) h by (auto simp: grows_def)
  have x: "ht x = Suc h"
  proof (cases "d = 1")
    case True
    then show ?thesis using d(2,3) assms(2,3) by auto
  next
    case False
    then have "d = -1" using d(1) by (simp add: dirn_def)
    then show ?thesis using d(2,3) assms(2,3) by auto
  qed
  show "ht x = ht t" using x h by simp
  show "avl t" "avl x" by fact+
  show "avl_ctx c (Suc (ht t))" using c x h by simp
qed

lemma avl_grown: "grows c t \<Longrightarrow> avl (grown c t)"
proof (induction c t rule: grown.induct)
  case (1 t)
  then show ?case by (simp add: grows_def)
next
  case (2 d p k v b x c t)
  have dc: "dirs c" "dirn d" using 2(2) avl_ctx_dirs by (auto simp: grows_def)
  consider "b = 0" | "b \<noteq> 0" "b \<noteq> d" | "b = d" "b \<noteq> bal t" "b \<noteq> 0" | "b = d" "b = bal t" "b \<noteq> 0"
    by blast
  then show ?case
  proof cases
    case 1
    then have "grows (Fr d p k v 0 x # c) t" using 2(2) by simp
    then have "grows c (nd d p k v d t x)" by (rule grows_up)
    from 2(1) [OF 1 this] show ?thesis using 1 by simp
  next
    case 2: 2
    from grows_other [OF \<open>grows (Fr d p k v b x # c) t\<close> this] show ?thesis using 2 dc
      by (auto simp: avl_plug avl_nd)
  next
    case 3
    with 2(2) have "grows (Fr d p k v d x # c) t" "bal t \<noteq> d" by auto
    then show ?thesis
      by (rule grows_double) (use 3 dc in \<open>auto simp: rot_double_nd avl_plug avl_nd dirn_def max_def split: if_splits\<close>)
  next
    case 4
    with 2(2) have "grows (Fr d p k v d x # c) t" "bal t = d" by auto
    then show ?thesis
      by (rule grows_single) (use 4 dc in \<open>auto simp: rot_single_nd avl_plug avl_nd\<close>)
  qed
qed

lemma inord_grown: "grows c t \<Longrightarrow> inord (grown c t) = inord (plug c t)"
proof (induction c t rule: grown.induct)
  case (2 d p k v b x c t)
  consider "b = 0" | "b \<noteq> 0" "b \<noteq> d" | "b = d" "b \<noteq> bal t" "b \<noteq> 0" | "b = d" "b = bal t" "b \<noteq> 0"
    by blast
  then show ?case
  proof cases
    case 1
    then have "grows (Fr d p k v 0 x # c) t" using 2(2) by simp
    then have "grows c (nd d p k v d t x)" by (rule grows_up)
    from 2(1) [OF 1 this] show ?thesis using 1 by (simp add: inord_plug inord_nd)
  next
    case 3
    with 2(2) have "grows (Fr d p k v d x # c) t" "bal t \<noteq> d" by auto
    then show ?thesis
      by (rule grows_double) (use 3 in \<open>auto simp: rot_double_nd inord_plug inord_nd\<close>)
  next
    case 4
    with 2(2) have "grows (Fr d p k v d x # c) t" "bal t = d" by auto
    then show ?thesis
      by (rule grows_single) (use 4 in \<open>auto simp: rot_single_nd inord_plug inord_nd\<close>)
  qed (auto simp: inord_plug inord_nd)
qed simp

section \<open>Rebalancing after a removal\<close>

text \<open>The result of \<^verbatim>\<open>rebalanceRemoved_g\<close>: the tree \<open>t\<close> in the hole has just lost one level.\<close>

definition unrot_single :: "int \<Rightarrow> addr \<Rightarrow> 'k \<Rightarrow> 'v \<Rightarrow> ('k, 'v) tree \<Rightarrow> ('k, 'v) tree \<Rightarrow> ('k, 'v) tree" where
  "unrot_single d n kn vn t x = (case x of Lf \<Rightarrow> Lf | Nd p k v b l r \<Rightarrow>
     nd d p k v (b + d) (nd d n kn vn (if b = - d then 0 else - d) t (if d < 0 then l else r))
       (if d < 0 then r else l))"

definition unrot_double :: "int \<Rightarrow> addr \<Rightarrow> 'k \<Rightarrow> 'v \<Rightarrow> ('k, 'v) tree \<Rightarrow> ('k, 'v) tree \<Rightarrow> ('k, 'v) tree" where
  "unrot_double d n kn vn t x = (case x of Lf \<Rightarrow> Lf | Nd p k v b l r \<Rightarrow>
     (case (if d < 0 then l else r) of Lf \<Rightarrow> Lf | Nd c kc vc bc cl cr \<Rightarrow>
       nd d c kc vc 0
         (nd d n kn vn (if bc \<noteq> - d then 0 else d) t (if d < 0 then cl else cr))
         (nd d p k v (if bc = d then - d else 0) (if d < 0 then cr else cl) (if d < 0 then r else l))))"

lemma unrot_single_nd:
  "dirn d \<Longrightarrow> unrot_single d n kn vn t (nd d p k v b y z) =
     nd d p k v (b + d) (nd d n kn vn (if b = - d then 0 else - d) t y) z"
  by (auto simp: unrot_single_def nd_def)

lemma unrot_double_nd:
  "dirn d \<Longrightarrow> unrot_double d n kn vn t (nd d p k v b (nd d c kc vc bc u w) z) =
     nd d c kc vc 0 (nd d n kn vn (if bc \<noteq> - d then 0 else d) t u) (nd d p k v (if bc = d then - d else 0) w z)"
  by (auto simp: unrot_double_def nd_def)

fun shrunk :: "('k, 'v) frame list \<Rightarrow> ('k, 'v) tree \<Rightarrow> ('k, 'v) tree" where
  "shrunk [] t = t"
| "shrunk (Fr d n k v b x # c) t =
     (if b = 0 then plug c (nd d n k v (- d) t x)
      else if b = d then shrunk c (nd d n k v 0 t x)
      else if bal x = d then shrunk c (unrot_double d n k v t x)
      else if bal x = - d then shrunk c (unrot_single d n k v t x)
      else plug c (unrot_single d n k v t x))"

definition shrinks :: "('k, 'v) frame list \<Rightarrow> ('k, 'v) tree \<Rightarrow> bool" where
  "shrinks c t \<longleftrightarrow> avl t \<and> avl_ctx c (Suc (ht t))"

lemma shrinks_same:
  assumes "shrinks (Fr d n k v d x # c) t"
  shows "shrinks c (nd d n k v 0 t x)"
  using assms by (auto simp: shrinks_def avl_nd dirn_def max_def)

text \<open>The sibling a rotation takes its nodes from is there, and how high its parts are.\<close>

lemma shrinks_sibling:
  assumes "shrinks (Fr d n k v b x # c) t" "b \<noteq> 0" "b \<noteq> d"
  obtains p kp vp bp y z where "x = nd d p kp vp bp y z" "b = - d" "dirn d" "avl t" "avl y" "avl z"
    "bp = d * (int (ht y) - int (ht z))" "\<bar>bp\<bar> \<le> 1" "Suc (max (ht y) (ht z)) = Suc (Suc (ht t))"
    "avl_ctx c (Suc (Suc (Suc (ht t))))"
proof -
  have d: "dirn d" and x: "avl x" "avl t" and b: "b = d * (int (Suc (ht t)) - int (ht x))" "\<bar>b\<bar> \<le> 1"
    and c: "avl_ctx c (Suc (max (Suc (ht t)) (ht x)))"
    using assms(1) by (auto simp: shrinks_def)
  have h: "ht x = Suc (Suc (ht t))" "b = - d" using d b assms(2,3) by (auto simp: dirn_def)
  obtain p kp vp bp y z where xe: "x = nd d p kp vp bp y z" using nd_cases [OF d, of x] h by force
  show thesis
    by (rule that [of p kp vp bp y z]) (use xe h x d c in \<open>auto simp: avl_nd\<close>)
qed

lemma shrinks_inner:
  assumes "shrinks (Fr d n k v b x # c) t" "b \<noteq> 0" "b \<noteq> d" "bal x = d"
  obtains p kp vp e ke ve be u w z where
    "x = nd d p kp vp d (nd d e ke ve be u w) z" "b = - d" "dirn d" "avl t" "avl u" "avl w" "avl z"
    "ht z = ht t" "max (ht u) (ht w) = ht t" "be = d * (int (ht u) - int (ht w))" "\<bar>be\<bar> \<le> 1"
    "avl_ctx c (Suc (Suc (Suc (ht t))))"
proof -
  obtain p kp vp bp y z where x: "x = nd d p kp vp bp y z" "b = - d" "dirn d" "avl t" "avl y" "avl z"
    "bp = d * (int (ht y) - int (ht z))" "\<bar>bp\<bar> \<le> 1" "Suc (max (ht y) (ht z)) = Suc (Suc (ht t))"
    "avl_ctx c (Suc (Suc (Suc (ht t))))"
    by (rule shrinks_sibling [OF assms(1-3)])
  have h: "ht y = Suc (ht t)" "ht z = ht t" "bp = d" using x assms(4) by (auto simp: dirn_def)
  obtain e ke ve be u w where "y = nd d e ke ve be u w" using nd_cases [OF x(3), of y] h by force
  then show thesis by (intro that [of p kp vp e ke ve be u w z]) (use x h in \<open>auto simp: avl_nd\<close>)
qed

lemma shrinks_double:
  assumes "shrinks (Fr d n k v b x # c) t" "b \<noteq> 0" "b \<noteq> d" "bal x = d"
  shows "shrinks c (unrot_double d n k v t x)"
  by (rule shrinks_inner [OF assms])
    (auto simp: unrot_double_nd shrinks_def avl_nd dirn_def max_def split: if_splits)

lemma shrinks_single:
  assumes "shrinks (Fr d n k v b x # c) t" "b \<noteq> 0" "b \<noteq> d" "bal x = - d"
  shows "shrinks c (unrot_single d n k v t x)"
  by (rule shrinks_sibling [OF assms(1-3)])
    (use assms(4) in \<open>auto simp: unrot_single_nd shrinks_def avl_nd dirn_def max_def split: if_splits\<close>)

lemma avl_unrot_single:
  assumes "shrinks (Fr d n k v b x # c) t" "b \<noteq> 0" "b \<noteq> d" "bal x \<noteq> d" "bal x \<noteq> - d"
  shows "avl (plug c (unrot_single d n k v t x))"
proof -
  have "dirs c" using assms(1) avl_ctx_dirs by (auto simp: shrinks_def)
  obtain p kp vp bp y z where x: "x = nd d p kp vp bp y z" "b = - d" "dirn d" "avl t" "avl y" "avl z"
    "bp = d * (int (ht y) - int (ht z))" "\<bar>bp\<bar> \<le> 1" "Suc (max (ht y) (ht z)) = Suc (Suc (ht t))"
    "avl_ctx c (Suc (Suc (Suc (ht t))))"
    by (rule shrinks_sibling [OF assms(1-3)])
  have h: "ht y = Suc (ht t)" "ht z = Suc (ht t)" "bp = 0" using x assms(4,5) by (auto simp: dirn_def)
  then show ?thesis using x \<open>dirs c\<close> by (auto simp: unrot_single_nd avl_plug avl_nd dirn_def)
qed

lemma inord_unrot_single:
  assumes "shrinks (Fr d n k v b x # c) t" "b \<noteq> 0" "b \<noteq> d"
  shows "inord (unrot_single d n k v t x) = inord (nd d n k v b t x)"
  by (rule shrinks_sibling [OF assms]) (auto simp: unrot_single_nd inord_nd)

lemma inord_unrot_double:
  assumes "shrinks (Fr d n k v b x # c) t" "b \<noteq> 0" "b \<noteq> d" "bal x = d"
  shows "inord (unrot_double d n k v t x) = inord (nd d n k v b t x)"
  by (rule shrinks_inner [OF assms]) (auto simp: unrot_double_nd inord_nd)

lemma shrunk_correct: "shrinks c t \<Longrightarrow> avl (shrunk c t) \<and> inord (shrunk c t) = inord (plug c t)"
proof (induction c t rule: shrunk.induct)
  case (1 t)
  then show ?case by (simp add: shrinks_def)
next
  case (2 d n k v b x c t)
  note IH = 2(1-3) and s = 2(4)
  have dc: "dirs c" "dirn d" using s avl_ctx_dirs by (auto simp: shrinks_def)
  consider "b = 0" | "b \<noteq> 0" "b = d" | "b \<noteq> 0" "b \<noteq> d" "bal x = d"
    | "b \<noteq> 0" "b \<noteq> d" "bal x \<noteq> d" "bal x = - d" | "b \<noteq> 0" "b \<noteq> d" "bal x \<noteq> d" "bal x \<noteq> - d"
    by blast
  then show ?case
  proof cases
    case 1
    then have "ht x = Suc (ht t)" "avl t" "avl x" "avl_ctx c (Suc (Suc (ht t)))"
      using s dc by (auto simp: shrinks_def dirn_def)
    then show ?thesis using 1 dc by (auto simp: avl_plug avl_nd dirn_def inord_plug inord_nd)
  next
    case 2
    then show ?thesis using IH(1) [OF 2] s shrinks_same [of d n k v x c t]
      by (auto simp: inord_plug inord_nd)
  next
    case 3
    then show ?thesis using IH(2) [OF 3] shrinks_double [OF s 3] inord_unrot_double [OF s 3]
      by (auto simp: inord_plug inord_nd)
  next
    case 4
    then show ?thesis using IH(3) [OF 4] shrinks_single [OF s 4(1,2,4)] inord_unrot_single [OF s 4(1,2)]
      by (auto simp: inord_plug inord_nd)
  next
    case 5
    then show ?thesis using avl_unrot_single [OF s 5] inord_unrot_single [OF s 5(1,2)]
      by (auto simp: inord_plug inord_nd)
  qed
qed

section \<open>Search paths\<close>

definition keys :: "(addr \<times> 'k \<times> 'v) list \<Rightarrow> 'k list" where
  "keys xs = map (\<lambda>e. fst (snd e)) xs"

definition adrs :: "(addr \<times> 'k \<times> 'v) list \<Rightarrow> addr list" where
  "adrs xs = map fst xs"

lemma keys_simps [simp]:
  "keys [] = []" "keys ((a, k, v) # xs) = k # keys xs" "keys (xs @ ys) = keys xs @ keys ys"
  by (auto simp: keys_def)

lemma adrs_simps [simp]:
  "adrs [] = []" "adrs ((a, k, v) # xs) = a # adrs xs" "adrs (xs @ ys) = adrs xs @ adrs ys"
  by (auto simp: adrs_def)

definition bst :: "('k::linorder, 'v) tree \<Rightarrow> bool" where
  "bst t \<longleftrightarrow> sorted_wrt (<) (keys (inord t))"

fun zlocate :: "'k::linorder \<Rightarrow> ('k, 'v) tree \<Rightarrow> ('k, 'v) frame list \<Rightarrow> ('k, 'v) frame list \<times> ('k, 'v) tree" where
  "zlocate key Lf c = (c, Lf)"
| "zlocate key (Nd a k v b l r) c =
     (if key = k then (c, Nd a k v b l r)
      else if key < k then zlocate key l (Fr (-1) a k v b r # c)
      else zlocate key r (Fr 1 a k v b l # c))"

text \<open>\<open>around key c\<close>: the context separates the keys below and upaddr \<open>key\<close>.\<close>

definition around :: "'k::linorder \<Rightarrow> ('k, 'v) frame list \<Rightarrow> bool" where
  "around key c \<longleftrightarrow> (\<forall>k\<in>set (keys (lefts c)). k < key) \<and> (\<forall>k\<in>set (keys (rights c)). key < k)"

lemma zlocate_plug: "zlocate key t c = (c', t') \<Longrightarrow> plug c' t' = plug c t"
  by (induction key t c rule: zlocate.induct) (auto simp: nd_def split: if_splits)

lemma zlocate_dirs: "zlocate key t c = (c', t') \<Longrightarrow> dirs c \<Longrightarrow> dirs c'"
  by (induction key t c rule: zlocate.induct) (auto simp: dirn_def split: if_splits)

lemma zlocate_hit: "zlocate key t c = (c', Nd a k v b l r) \<Longrightarrow> k = key"
  by (induction key t c rule: zlocate.induct) (auto split: if_splits)

lemma zlocate_around:
  "zlocate key t c = (c', t') \<Longrightarrow> bst t \<Longrightarrow> around key c \<Longrightarrow> around key c'"
proof (induction key t c rule: zlocate.induct)
  case (2 key a k v b l r c)
  have b: "bst l" "bst r" "\<forall>x\<in>set (keys (inord l)). x < k" "\<forall>x\<in>set (keys (inord r)). k < x"
    using 2(4) by (auto simp: bst_def sorted_wrt_append)
  consider "key = k" | "key < k" | "k < key" by fastforce
  then show ?case
  proof cases
    case 1
    then show ?thesis using 2(3,5) by simp
  next
    case less: 2
    then have "around key (Fr (-1) a k v b r # c)" using b 2(5) by (auto simp: around_def)
    then show ?thesis using less b(1) 2(1) [OF _ less] 2(3) by (simp split: if_splits)
  next
    case greater: 3
    then have "around key (Fr 1 a k v b l # c)" using b 2(5) by (auto simp: around_def)
    then show ?thesis using greater b(2) 2(2,3) by (auto split: if_splits)
  qed
qed auto

lemma zlocate_avl:
  "zlocate key t [] = (c, t') \<Longrightarrow> avl t \<Longrightarrow> avl t' \<and> avl_ctx c (ht t') \<and> dirs c"
  using zlocate_plug [of key t "[]" c t'] zlocate_dirs [of key t "[]" c t'] avl_plug [of c t'] by simp

text \<open>The path in direction \<open>e\<close> down to the last node.\<close>

fun zdown :: "int \<Rightarrow> ('k, 'v) tree \<Rightarrow> ('k, 'v) frame list \<Rightarrow> ('k, 'v) frame list \<times> ('k, 'v) tree" where
  "zdown e Lf c = (c, Lf)"
| "zdown e (Nd a k v b l r) c =
     (if (if e < 0 then l else r) = Lf then (c, Nd a k v b l r)
      else zdown e (if e < 0 then l else r) (Fr e a k v b (if e < 0 then r else l) # c))"

lemma zdown_plug: "zdown e t c = (c', t') \<Longrightarrow> plug c' t' = plug c t"
  by (induction e t c rule: zdown.induct) (auto simp: nd_def split: if_splits)

lemma zdown_end:
  assumes "zdown e t c = (c', t')" "t \<noteq> Lf"
  obtains a k v b y where "t' = nd e a k v b Lf y"
proof -
  have "\<exists>a k v b y. t' = nd e a k v b Lf y"
    using assms
  proof (induction e t c rule: zdown.induct)
    case (2 e a k v b l r c)
    then show ?case
    proof (cases "(if e < 0 then l else r) = Lf")
      case True
      then have "t' = nd e a k v b Lf (if e < 0 then r else l)" using 2(2) by (auto simp: nd_def split: if_splits)
      then show ?thesis by blast
    qed auto
  qed simp
  then show thesis using that by blast
qed

fun all_dir :: "int \<Rightarrow> ('k, 'v) frame list \<Rightarrow> bool" where
  "all_dir e [] = True"
| "all_dir e (Fr d a k v b x # c) = (d = e \<and> all_dir e c)"

lemma zdown_all_dir: "zdown e t c = (c', t') \<Longrightarrow> all_dir e c \<Longrightarrow> all_dir e c'"
  by (induction e t c rule: zdown.induct) (auto split: if_splits)

lemma all_dir_lefts: "all_dir e c \<Longrightarrow> e < 0 \<Longrightarrow> lefts c = []"
  by (induction e c rule: all_dir.induct) auto

lemma all_dir_rights: "all_dir e c \<Longrightarrow> \<not> e < 0 \<Longrightarrow> rights c = []"
  by (induction e c rule: all_dir.induct) auto

lemma all_dir_dirs: "all_dir e c \<Longrightarrow> dirn e \<Longrightarrow> dirs c"
  by (induction e c rule: all_dir.induct) auto

lemma zdown_base: "zdown e t c = (fst (zdown e t []) @ c, snd (zdown e t []))"
proof (induction t arbitrary: c)
  case (Nd a k v b l r)
  let ?x = "if e < 0 then l else r" and ?f = "Fr e a k v b (if e < 0 then r else l)"
  have x: "zdown e ?x c' = (fst (zdown e ?x []) @ c', snd (zdown e ?x []))" for c'
    using Nd.IH [of c'] by (cases "e < 0") simp_all
  show ?case
  proof (cases "?x = Lf")
    case False
    then show ?thesis using x [of "?f # c"] x [of "[?f]"] by (simp split del: if_split)
  qed simp
qed simp

section \<open>Removal of a node\<close>

text \<open>
  A leaf is cut off.  An inner node is replaced by its neighbour \<open>R\<close> in the heavier subtree (the
  right one when both are equally high), whose own subtree \<open>w\<close> takes the place of \<open>R\<close>.
\<close>

definition zremove :: "('k, 'v) frame list \<Rightarrow> ('k, 'v) tree \<Rightarrow> ('k, 'v) tree" where
  "zremove c t = (case t of Lf \<Rightarrow> Lf | Nd a k v b l r \<Rightarrow>
     if b = 0 \<and> l = Lf then shrunk c Lf
     else let d = (if b = 0 then 1 else b) in
       (case zdown (- d) (if d < 0 then l else r) [] of (cc, s) \<Rightarrow>
         (case s of Lf \<Rightarrow> Lf | Nd R kR vR bR lR rR \<Rightarrow>
           shrunk (cc @ Fr d R kR vR b (if d < 0 then r else l) # c) (if d < 0 then lR else rR))))"

lemma avl_ctx_swap:
  "avl_ctx (cc @ Fr d a k v b x # c) h \<Longrightarrow> avl_ctx (cc @ Fr d a' k' v' b x # c) h"
  by (induction cc h rule: avl_ctx.induct) auto

text \<open>The replacement is there, and the context it leaves is balanced for one level more.\<close>

lemma zremove_inner:
  assumes "avl (Nd a k v b l r)" "avl_ctx c (ht (Nd a k v b l r))" "\<not> (b = 0 \<and> l = Lf)"
    and "d = (if b = 0 then 1 else b)"
  obtains cc R kR vR bR w where
    "dirn d" "zdown (- d) (if d < 0 then l else r) [] = (cc, nd d R kR vR bR w Lf)"
    "shrinks (cc @ Fr d R kR vR b (if d < 0 then r else l) # c) w"
    "zremove c (Nd a k v b l r) = shrunk (cc @ Fr d R kR vR b (if d < 0 then r else l) # c) w"
    "all_dir (- d) cc"
proof -
  let ?x = "if d < 0 then l else r" and ?y = "if d < 0 then r else l"
  have d: "dirn d" using assms(1,4) by (auto simp: dirn_def)
  have nx: "?x \<noteq> Lf"
    using assms(1,3,4) by (cases l; cases r) (auto split: if_splits)
  obtain cc s where z: "zdown (- d) ?x [] = (cc, s)" by (cases "zdown (- d) ?x []") auto
  obtain R kR vR bR w where s: "s = nd (- d) R kR vR bR Lf w" by (rule zdown_end [OF z nx])
  have s': "s = nd d R kR vR bR w Lf" using s nd_swap [OF d, of R kR vR bR Lf w] by simp
  have p: "plug cc s = ?x" using zdown_plug [OF z] by simp
  have ad: "all_dir (- d) cc" using zdown_all_dir [OF z] by simp
  have dn: "dirn (- d)" using d by (auto simp: dirn_def)
  have dc: "dirs c" using assms(2) avl_ctx_dirs by blast
  have t: "Nd a k v b l r = nd d a k v b ?x ?y" using d by (auto simp: nd_def)
  have "avl (plug c (Nd a k v b l r))" using avl_plug [OF dc] assms(1,2) by blast
  then have "avl (plug c (nd d a k v b (plug cc s) ?y))" by (simp only: t p)
  then have "avl (plug (cc @ Fr d a k v b ?y # c) s)" by (simp add: plug_append)
  then have "avl s" "avl_ctx (cc @ Fr d a k v b ?y # c) (ht s)"
    using d dc all_dir_dirs [OF ad dn] by (simp_all add: avl_plug)
  then have "shrinks (cc @ Fr d R kR vR b ?y # c) w"
    using avl_ctx_swap d by (auto simp: shrinks_def s' avl_nd)
  moreover have "zremove c (Nd a k v b l r) = shrunk (cc @ Fr d R kR vR b ?y # c) w"
    using assms(3,4) z s' d by (auto simp: zremove_def Let_def nd_def split: if_splits)
  ultimately show thesis using that d z s' ad by blast
qed

lemma zremove_correct:
  assumes "avl (Nd a k v b l r)" "avl_ctx c (ht (Nd a k v b l r))"
  shows "avl (zremove c (Nd a k v b l r)) \<and>
    inord (zremove c (Nd a k v b l r)) = lefts c @ inord l @ inord r @ rights c"
proof (cases "b = 0 \<and> l = Lf")
  case True
  then have r: "r = Lf" using assms(1) by (cases r) auto
  have "shrinks c Lf" using assms(2) True r by (simp add: shrinks_def)
  from shrunk_correct [OF this] show ?thesis using True r by (simp add: zremove_def inord_plug)
next
  case False
  define d where "d = (if b = 0 then 1 else b)"
  let ?x = "if d < 0 then l else r" and ?y = "if d < 0 then r else l"
  obtain cc R kR vR bR w where z: "dirn d" "zdown (- d) ?x [] = (cc, nd d R kR vR bR w Lf)"
    "shrinks (cc @ Fr d R kR vR b ?y # c) w"
    "zremove c (Nd a k v b l r) = shrunk (cc @ Fr d R kR vR b ?y # c) w" "all_dir (- d) cc"
    by (rule zremove_inner [OF assms False d_def])
  have x: "inord ?x = lefts cc @ inord (nd d R kR vR bR w Lf) @ rights cc"
    using zdown_plug [OF z(2)] by (simp add: inord_plug [symmetric])
  from z(1) have "inord (plug (cc @ Fr d R kR vR b ?y # c) w) = lefts c @ inord l @ inord r @ rights c"
  proof (cases rule: dirn_cases)
    case left
    then show ?thesis using x all_dir_rights [OF z(5)] by (simp add: inord_plug lefts_append rights_append inord_nd)
  next
    case right
    then show ?thesis using x all_dir_lefts [OF z(5)] by (simp add: inord_plug lefts_append rights_append inord_nd)
  qed
  then show ?thesis using shrunk_correct [OF z(3)] z(4) by simp
qed

section \<open>Height\<close>

lemma avl_height_bound: "avl t \<Longrightarrow> 2 ^ (ht t div 2) \<le> Suc (length (inord t))"
proof (induction "ht t" arbitrary: t rule: less_induct)
  case less
  show ?case
  proof (cases t)
    case (Nd a k v b l r)
    have lr: "avl l" "avl r" using less.prems Nd by auto
    define m where "m = min (ht l) (ht r)"
    have m: "ht t \<le> m + 2" "m \<le> ht l" "m \<le> ht r" using less.prems Nd by (auto simp: m_def)
    have "2 ^ (ht l div 2) \<le> Suc (length (inord l))" "2 ^ (ht r div 2) \<le> Suc (length (inord r))"
      using less.hyps [of l] less.hyps [of r] lr Nd by auto
    moreover have "(2::nat) ^ (m div 2) \<le> 2 ^ (ht l div 2)" "(2::nat) ^ (m div 2) \<le> 2 ^ (ht r div 2)"
      using m by (simp_all add: div_le_mono)
    moreover have "length (inord t) = Suc (length (inord l) + length (inord r))" using Nd by simp
    ultimately have "2 ^ (m div 2) + 2 ^ (m div 2) \<le> Suc (length (inord t))" by linarith
    moreover have "(2::nat) ^ (ht t div 2) \<le> 2 ^ Suc (m div 2)"
      using m(1) by (intro power_increasing) auto
    ultimately show ?thesis by simp
  qed simp
qed

end
