(* ===== verification/Drt_Avl_Rep.thy ===== *)
theory Drt_Avl_Rep
  imports Drt_Avl Drt_Avl_Tree
begin

text \<open>
  The pointer routines of \<open>Drt_Avl\<close> compute the functions of \<open>Drt_Avl_Tree\<close>.  \<open>zrep s fr c t\<close> says
  that the heap of \<open>s\<close> holds the tree \<open>plug c t\<close> and, outside of its cells, is \<open>fr\<close>.
\<close>

section \<open>Nodes in normal form\<close>

definition mk :: "int \<Rightarrow> 'k \<Rightarrow> 'v \<Rightarrow> int \<Rightarrow> addr \<Rightarrow> addr \<Rightarrow> addr \<Rightarrow> int \<Rightarrow> ('k, 'v) avl_node" where
  "mk d k v b x y par dr = \<lparr>nkey = k, nval = v, lchild = if d < 0 then x else y, parent = par,
     rchild = if d < 0 then y else x, balance = b, direction = dr\<rparr>"

lemma mk_fields [simp]:
  "nkey (mk d k v b x y par dr) = k" "nval (mk d k v b x y par dr) = v"
  "parent (mk d k v b x y par dr) = par" "balance (mk d k v b x y par dr) = b"
  "direction (mk d k v b x y par dr) = dr"
  by (simp_all add: mk_def)

lemma mk_updates [simp]:
  "(mk d k v b x y par dr)\<lparr>parent := p\<rparr> = mk d k v b x y p dr"
  "(mk d k v b x y par dr)\<lparr>balance := i\<rparr> = mk d k v i x y par dr"
  "(mk d k v b x y par dr)\<lparr>direction := i\<rparr> = mk d k v b x y par i"
  "(mk d k v b x y par dr)\<lparr>nval := w\<rparr> = mk d k w b x y par dr"
  by (simp_all add: mk_def)

lemma mk_refs [simp]:
  assumes "dirn d"
  shows "refs (mk d k v b x y par dr) (1 + d) = x" "refs (mk d k v b x y par dr) (1 - d) = y"
    "set_refs (1 + d) p (mk d k v b x y par dr) = mk d k v b p y par dr"
    "set_refs (1 - d) p (mk d k v b x y par dr) = mk d k v b x p par dr"
  using assms by (auto simp: dirn_def mk_def refs_def set_refs_def)

lemma mk_children:
  "lchild (mk d k v b x y par dr) = (if d < 0 then x else y)"
  "rchild (mk d k v b x y par dr) = (if d < 0 then y else x)"
  by (simp_all add: mk_def)

lemma mk_swap: "dirn d \<Longrightarrow> mk (- d) k v b x y par dr = mk d k v b y x par dr"
  by (auto simp: mk_def dirn_def)

section \<open>Representation\<close>

fun rep :: "(addr \<Rightarrow> ('k, 'v) avl_node option) \<Rightarrow> addr \<Rightarrow> int \<Rightarrow> ('k, 'v) tree \<Rightarrow> bool" where
  "rep h par dr Lf = True"
| "rep h par dr (Nd a k v b l r) =
     (a \<noteq> 0 \<and> h a = Some (mk (-1) k v b (rt l) (rt r) par dr) \<and> rep h a (-1) l \<and> rep h a 1 r)"

fun crep :: "(addr \<Rightarrow> ('k, 'v) avl_node option) \<Rightarrow> ('k, 'v) frame list \<Rightarrow> addr \<Rightarrow> bool" where
  "crep h [] hole = True"
| "crep h (Fr d a k v b x # c) hole =
     (a \<noteq> 0 \<and> h a = Some (mk d k v b hole (rt x) (upaddr c) (dir c)) \<and> rep h a (- d) x \<and> crep h c a)"

definition tadrs :: "('k, 'v) tree \<Rightarrow> addr set" where
  "tadrs t = set (adrs (inord t))"

fun cadrs :: "('k, 'v) frame list \<Rightarrow> addr list" where
  "cadrs [] = []"
| "cadrs (Fr d a k v b x # c) = a # adrs (inord x) @ cadrs c"

lemma tadrs_simps [simp]:
  "tadrs Lf = {}" "tadrs (Nd a k v b l r) = insert a (tadrs l \<union> tadrs r)"
  "tadrs (nd d a k v b x y) = insert a (tadrs x \<union> tadrs y)"
  by (auto simp: tadrs_def inord_nd)

lemma rep_nd:
  "dirn d \<Longrightarrow> rep h par dr (nd d a k v b x y) \<longleftrightarrow>
     a \<noteq> 0 \<and> h a = Some (mk d k v b (rt x) (rt y) par dr) \<and> rep h a d x \<and> rep h a (- d) y"
  by (auto simp: dirn_def nd_def mk_def)

lemma rep_nz: "rep h par dr t \<Longrightarrow> 0 \<notin> tadrs t"
  by (induction h par dr t rule: rep.induct) auto

lemma rep_live: "rep h par dr t \<Longrightarrow> a \<in> tadrs t \<Longrightarrow> h a \<noteq> None"
  by (induction h par dr t rule: rep.induct) auto

lemma rt_in [simp]: "t \<noteq> Lf \<Longrightarrow> rt t \<in> tadrs t"
  by (cases t) auto

lemma rt_zero: "rep h par dr t \<Longrightarrow> rt t = 0 \<longleftrightarrow> t = Lf"
  by (cases t) auto

lemma rep_cong: "(\<And>a. a \<in> tadrs t \<Longrightarrow> h' a = h a) \<Longrightarrow> rep h' par dr t = rep h par dr t"
  by (induction h par dr t rule: rep.induct) auto

lemma crep_cong: "(\<And>a. a \<in> set (cadrs c) \<Longrightarrow> h' a = h a) \<Longrightarrow> crep h' c hole = crep h c hole"
proof (induction h c hole rule: crep.induct)
  case (2 h d a k v b x c hole)
  then show ?case using rep_cong [of x h' h] by (auto simp: tadrs_def)
qed simp

text \<open>A subtree that gets another parent.\<close>

lemma rep_moved:
  assumes "rep h par dr t" "distinct (adrs (inord t))"
    and "\<And>a. a \<in> tadrs t \<Longrightarrow> a \<noteq> rt t \<Longrightarrow> h' a = h a"
    and "t \<noteq> Lf \<Longrightarrow> h' (rt t) = map_option (\<lambda>n. n\<lparr>parent := par', direction := dr'\<rparr>) (h (rt t))"
  shows "rep h' par' dr' t"
proof (cases t)
  case (Nd a k v b l r)
  have "h' u = h u" if "u \<in> tadrs l \<union> tadrs r" for u
    using that assms(2) assms(3) [of u] Nd by (auto simp: tadrs_def)
  then have "rep h' a (-1) l = rep h a (-1) l" "rep h' a 1 r = rep h a 1 r"
    by (auto intro!: rep_cong)
  then show ?thesis using assms Nd by simp
qed simp

text \<open>A context that gets another tree in its hole.\<close>

lemma crep_moved:
  assumes "crep h c hole" "dirs c" "distinct (cadrs c)"
    and "\<And>a. a \<in> set (cadrs c) \<Longrightarrow> a \<noteq> upaddr c \<Longrightarrow> h' a = h a"
    and "c \<noteq> [] \<Longrightarrow> h' (upaddr c) = map_option (set_refs (1 + dir c) hole') (h (upaddr c))"
  shows "crep h' c hole'"
proof (cases c)
  case (Cons f c')
  obtain d a k v b x where f: "f = Fr d a k v b x" by (cases f)
  have "rep h' a (- d) x = rep h a (- d) x" using assms(3,4) Cons f by (intro rep_cong) (auto simp: tadrs_def)
  moreover have "crep h' c' a = crep h c' a" using assms(3,4) Cons f by (intro crep_cong) auto
  ultimately show ?thesis using assms Cons f by simp
qed simp

lemma upaddr_zero: "crep h c hole \<Longrightarrow> upaddr c = 0 \<longleftrightarrow> c = []"
  by (cases c rule: upaddr.cases) auto

lemma upaddr_in [simp]: "c \<noteq> [] \<Longrightarrow> upaddr c \<in> set (cadrs c)"
  by (cases c rule: upaddr.cases) auto

lemma crep_nz: "crep h c hole \<Longrightarrow> 0 \<notin> set (cadrs c)"
  using rep_nz by (induction h c hole rule: crep.induct) (fastforce simp: tadrs_def)+

lemma crep_live: "crep h c hole \<Longrightarrow> a \<in> set (cadrs c) \<Longrightarrow> h a \<noteq> None"
  using rep_live by (induction h c hole rule: crep.induct) (fastforce simp: tadrs_def)+

lemma rep_plug:
  "dirs c \<Longrightarrow> rep h 0 0 (plug c t) \<longleftrightarrow> crep h c (rt t) \<and> rep h (upaddr c) (dir c) t"
  by (induction c t rule: plug.induct) (auto simp: rep_nd)

lemma set_adrs_plug: "set (adrs (inord (plug c t))) = tadrs t \<union> set (cadrs c)"
  by (induction c t rule: plug.induct) (auto simp: tadrs_def inord_nd)

lemma distinct_plug: "distinct (adrs (inord (plug c t))) \<longleftrightarrow> distinct (adrs (inord t) @ cadrs c)"
  by (induction c t rule: plug.induct) (auto simp: inord_nd)

definition zrep :: "('k, 'v) avl \<Rightarrow> (addr \<Rightarrow> ('k, 'v) avl_node option) \<Rightarrow>
    ('k, 'v) frame list \<Rightarrow> ('k, 'v) tree \<Rightarrow> bool" where
  "zrep s fr c t \<longleftrightarrow> heap_ok s \<and> dirs c \<and> rep (cells s) 0 0 (plug c t) \<and>
     distinct (adrs (inord (plug c t))) \<and> root s = rt (plug c t) \<and>
     (\<forall>a. a \<notin> tadrs (plug c t) \<longrightarrow> cells s a = fr a)"

lemma tadrs_plug: "tadrs (plug c t) = tadrs t \<union> set (cadrs c)"
  using set_adrs_plug by (simp add: tadrs_def)

lemma zrep_shift: "dirs c \<Longrightarrow> plug c t = plug c' t' \<Longrightarrow> zrep s fr c' t' \<Longrightarrow> zrep s fr c t"
  by (simp add: zrep_def)

lemma rt_plug: "c \<noteq> [] \<Longrightarrow> rt (plug c t) = rt (plug c t')"
proof (induction c t arbitrary: t' rule: plug.induct)
  case (2 d a k v b x c t)
  then show ?case by (cases "c = []") auto
qed simp

text \<open>What the state gives around a focus, in the form the step proofs use.\<close>

lemma zrepD:
  assumes "zrep s fr c t"
  shows "heap_ok s" "dirs c" "crep (cells s) c (rt t)" "rep (cells s) (upaddr c) (dir c) t"
    "distinct (adrs (inord t))" "distinct (cadrs c)" "tadrs t \<inter> set (cadrs c) = {}"
    "root s = rt (plug c t)" "0 \<notin> tadrs t" "0 \<notin> set (cadrs c)"
    "\<And>a. a \<notin> tadrs t \<Longrightarrow> a \<notin> set (cadrs c) \<Longrightarrow> cells s a = fr a"
proof -
  show d: "heap_ok s" "dirs c" "root s = rt (plug c t)" using assms by (auto simp: zrep_def)
  show r: "crep (cells s) c (rt t)" "rep (cells s) (upaddr c) (dir c) t"
    using assms d rep_plug by (auto simp: zrep_def)
  show "distinct (adrs (inord t))" "distinct (cadrs c)" "tadrs t \<inter> set (cadrs c) = {}"
    using assms by (auto simp: zrep_def distinct_plug tadrs_def)
  show "0 \<notin> tadrs t" using rep_nz [OF r(2)] .
  show "0 \<notin> set (cadrs c)" using crep_nz [OF r(1)] .
  show "cells s a = fr a" if "a \<notin> tadrs t" "a \<notin> set (cadrs c)" for a
    using assms that by (simp add: zrep_def tadrs_plug)
qed

lemma zrepI:
  assumes "heap_ok s" "dirs c" "crep (cells s) c (rt t)" "rep (cells s) (upaddr c) (dir c) t"
    "distinct (adrs (inord t))" "distinct (cadrs c)" "tadrs t \<inter> set (cadrs c) = {}"
    "root s = rt (plug c t)"
    "\<And>a. a \<notin> tadrs t \<Longrightarrow> a \<notin> set (cadrs c) \<Longrightarrow> cells s a = fr a"
  shows "zrep s fr c t"
  unfolding zrep_def tadrs_plug using assms by (auto simp: rep_plug distinct_plug tadrs_def)

text \<open>
  Replacing the tree in the hole: it is enough to look at the new tree, the cell upaddr the hole
  and the rest of the heap.
\<close>

lemma zrep_replace:
  assumes z: "zrep s fr c t" and ok: "heap_ok s'"
    and t': "rep (cells s') (upaddr c) (dir c) t'" "distinct (adrs (inord t'))" "tadrs t' \<inter> set (cadrs c) = {}"
    and up: "c \<noteq> [] \<Longrightarrow> cells s' (upaddr c) = map_option (set_refs (1 + dir c) (rt t')) (cells s (upaddr c))"
    and same: "\<And>a. a \<notin> tadrs t \<Longrightarrow> a \<notin> tadrs t' \<Longrightarrow> a \<noteq> upaddr c \<Longrightarrow> cells s' a = cells s a"
    and gone: "\<And>a. a \<in> tadrs t \<Longrightarrow> a \<notin> tadrs t' \<Longrightarrow> cells s' a = fr a"
    and r: "root s' = (if c = [] then rt t' else root s)"
  shows "zrep s' fr c t'"
proof (rule zrepI)
  note zd = zrepD [OF z]
  show "heap_ok s'" "dirs c" "rep (cells s') (upaddr c) (dir c) t'" "distinct (adrs (inord t'))"
    "distinct (cadrs c)" "tadrs t' \<inter> set (cadrs c) = {}"
    using ok zd t' by auto
  show "crep (cells s') c (rt t')"
  proof (rule crep_moved [OF zd(3) zd(2) zd(6)])
    show "cells s' a = cells s a" if "a \<in> set (cadrs c)" "a \<noteq> upaddr c" for a
      using that same zd(7) t'(3) by blast
  qed (use up in auto)
  show "root s' = rt (plug c t')" using r zd(8) rt_plug [of c t t'] by (cases "c = []") auto
  show "cells s' a = fr a" if "a \<notin> tadrs t'" "a \<notin> set (cadrs c)" for a
  proof (cases "a \<in> tadrs t")
    case False
    show ?thesis
    proof (cases "c = []")
      case True
      then show ?thesis using that False same [of a] zd(11) [of a] ok zd(1) by (cases "a = 0") auto
    next
      case c: False
      then have "a \<noteq> upaddr c" using that by auto
      then show ?thesis using that False same [of a] zd(11) [of a] by simp
    qed
  qed (use gone that in auto)
qed

section \<open>The linking idioms\<close>

definition reparent :: "(addr \<Rightarrow> ('k, 'v) avl_node option) \<Rightarrow> addr \<Rightarrow> addr \<Rightarrow> int \<Rightarrow> addr \<Rightarrow> ('k, 'v) avl_node option" where
  "reparent h q p d u = (if u = q \<and> q \<noteq> 0 then map_option (\<lambda>n. n\<lparr>parent := p, direction := d\<rparr>) (h u) else h u)"

definition rehang :: "(addr \<Rightarrow> ('k, 'v) avl_node option) \<Rightarrow> addr \<Rightarrow> int \<Rightarrow> addr \<Rightarrow> addr \<Rightarrow> ('k, 'v) avl_node option" where
  "rehang h p d c u = (if u = p \<and> p \<noteq> 0 then map_option (set_refs (1 + d) c) (h u) else h u)"

lemma set_child_exec:
  "cells s q = Some n \<Longrightarrow> c = 0 \<or> c \<noteq> q \<and> cells s c \<noteq> None \<Longrightarrow>
   set_child q i c d s = (Inr (), s\<lparr>cells := reparent ((cells s)(q := Some (set_refs i c n))) c q d\<rparr>)"
  by (auto simp: set_child_def reparent_def fun_eq_iff intro!: arg_cong [of _ _ "\<lambda>h. s\<lparr>cells := h\<rparr>"])

lemma set_top_exec:
  "cells s c = Some n \<Longrightarrow> p = 0 \<or> p \<noteq> c \<and> cells s p \<noteq> None \<Longrightarrow>
   set_top c p d s = (Inr (), s\<lparr>cells := rehang ((cells s)(c := Some (n\<lparr>parent := p\<rparr>))) p d c,
     root := if p = 0 then c else root s\<rparr>)"
  by (auto simp: set_top_def rehang_def fun_eq_iff intro!: arg_cong [of _ _ "\<lambda>h. s\<lparr>cells := h\<rparr>"])

lemma reparent_other [simp]: "u \<noteq> q \<Longrightarrow> reparent h q p d u = h u"
  by (simp add: reparent_def)

lemma reparent_zero [simp]: "reparent h q p d 0 = h 0"
  by (auto simp: reparent_def)

lemma reparent_None [simp]: "reparent h q p d u = None \<longleftrightarrow> h u = None"
  by (simp add: reparent_def)

lemma rehang_other [simp]: "u \<noteq> p \<Longrightarrow> rehang h p d c u = h u"
  by (simp add: rehang_def)

lemma rehang_zero [simp]: "rehang h p d c 0 = h 0"
  by (auto simp: rehang_def)

lemma rehang_None [simp]: "rehang h p d c u = None \<longleftrightarrow> h u = None"
  by (simp add: rehang_def)

lemma rehang_upd: "u \<noteq> x \<Longrightarrow> rehang (h(x := v)) p d c u = rehang h p d c u"
  by (simp add: rehang_def)

lemma reparent_upd: "u \<noteq> x \<Longrightarrow> reparent (h(x := v)) q p d u = reparent h q p d u"
  by (simp add: reparent_def)

lemma rehang_reparent: "rehang (reparent h q p' d') p d c u =
    (if u = p \<and> p \<noteq> 0 then map_option (set_refs (1 + d) c) (reparent h q p' d' u) else reparent h q p' d' u)"
  by (simp add: rehang_def)

lemma reparent2_upd: "u \<noteq> x \<Longrightarrow>
    reparent (reparent (h(x := v)) q p d) q' p' d' u = reparent (reparent h q p d) q' p' d' u"
  by (auto simp: reparent_def)

lemma heap_ok_dom:
  assumes "heap_ok s" "brk s' = brk s" "\<And>a. cells s' a = None \<longleftrightarrow> cells s a = None"
  shows "heap_ok s'"
  using assms by (auto simp: heap_ok_def)

lemma rep_reparented:
  assumes "rep h par dr t" "distinct (adrs (inord t))"
    and "\<And>u. u \<in> tadrs t \<Longrightarrow> h' u = reparent h (rt t) par' dr' u"
  shows "rep h' par' dr' t"
proof (rule rep_moved [OF assms(1,2)])
  show "h' (rt t) = map_option (\<lambda>n. n\<lparr>parent := par', direction := dr'\<rparr>) (h (rt t))" if "t \<noteq> Lf"
    using that assms(3) [of "rt t"] rt_zero [OF assms(1)] by (simp add: reparent_def)
qed (use assms in auto)

text \<open>Members of the object that rebalancing does not touch.\<close>

definition same_obj :: "('k, 'v) avl \<Rightarrow> ('k, 'v) avl \<Rightarrow> bool" where
  "same_obj s s' \<longleftrightarrow> lowest s' = lowest s \<and> avl_count s' = avl_count s \<and> brk s' = brk s"

lemma same_obj_trans: "same_obj s s' \<Longrightarrow> same_obj s' s'' \<Longrightarrow> same_obj s s''"
  by (simp add: same_obj_def)

lemma rt_neq: "a \<notin> tadrs t \<Longrightarrow> a \<noteq> 0 \<Longrightarrow> rt t \<noteq> a \<and> a \<noteq> rt t"
  by (cases t) auto

lemma upaddr_neq: "a \<notin> set (cadrs c) \<Longrightarrow> a \<noteq> 0 \<Longrightarrow> upaddr c \<noteq> a \<and> a \<noteq> upaddr c"
  by (cases c rule: upaddr.cases) auto

lemma rep_rt_live: "rep h par dr t \<Longrightarrow> rt t = 0 \<or> h (rt t) \<noteq> None"
  by (cases t) auto

lemma crep_upaddr_live: "crep h c hole \<Longrightarrow> upaddr c = 0 \<or> h (upaddr c) \<noteq> None"
  by (cases c rule: upaddr.cases) auto

text \<open>What a focus below a node gives.\<close>

lemma zrep_frame:
  assumes "zrep s fr (Fr d p k v b x # c) t"
  shows "dirn d" "p \<noteq> 0" "cells s p = Some (mk d k v b (rt t) (rt x) (upaddr c) (dir c))"
    "rep (cells s) p (- d) x" "rep (cells s) p d t" "p \<notin> tadrs t" "p \<notin> tadrs x" "tadrs t \<inter> tadrs x = {}"
    "distinct (adrs (inord x))" "distinct (adrs (inord t))" "p \<notin> set (cadrs c)"
    "tadrs t \<inter> set (cadrs c) = {}" "tadrs x \<inter> set (cadrs c) = {}"
    "crep (cells s) c p" "dirs c" "heap_ok s" "root s = rt (plug c (nd d p k v b t x))"
  using zrepD [OF assms] by (auto simp: tadrs_def)

lemma zrep_up: "zrep s fr (Fr d p k v b x # c) t \<longleftrightarrow> dirn d \<and> zrep s fr c (nd d p k v b t x)"
  by (auto simp: zrep_def)

lemma rt_mem: "rt t = 0 \<or> rt t \<in> tadrs t"
  by (cases t) auto

lemma upaddr_mem: "upaddr c = 0 \<or> upaddr c \<in> set (cadrs c)"
  by (cases c rule: upaddr.cases) auto

lemma rt_off: "a \<notin> set (adrs (inord t)) \<Longrightarrow> a \<noteq> 0 \<Longrightarrow> a \<noteq> rt t"
  using rt_mem [of t] by (auto simp: tadrs_def)

lemma upaddr_off: "a \<notin> set (cadrs c) \<Longrightarrow> a \<noteq> 0 \<Longrightarrow> a \<noteq> upaddr c"
  using upaddr_mem [of c] by auto

lemma reparent_out: "u \<notin> tadrs t \<Longrightarrow> reparent h (rt t) p d u = h u"
  using rt_mem [of t] by (auto simp: reparent_def)

lemma reparent_cong: "h u = h' u \<Longrightarrow> reparent h q p d u = reparent h' q p d u"
  by (auto simp: reparent_def)

lemma rehang_0 [simp]: "rehang h 0 d c = h"
  by (simp add: rehang_def fun_eq_iff)

lemma reparent_0 [simp]: "reparent h 0 p d = h"
  by (simp add: reparent_def fun_eq_iff)

text \<open>
  The effect of a rotation away from the rotated nodes \<open>ns\<close>: the subtrees of \<open>R\<close> get new parents,
  and the reference above the hole is redirected to the new top node.
\<close>

definition reps :: "(('k, 'v) tree \<times> addr \<times> int) list \<Rightarrow> (addr \<Rightarrow> ('k, 'v) avl_node option) \<Rightarrow>
    addr \<Rightarrow> ('k, 'v) avl_node option" where
  "reps R h = fold (\<lambda>(t, p, d) h. reparent h (rt t) p d) R h"

definition rotated :: "(addr \<Rightarrow> ('k, 'v) avl_node option) \<Rightarrow> (addr \<Rightarrow> ('k, 'v) avl_node option) \<Rightarrow>
    addr list \<Rightarrow> (('k, 'v) tree \<times> addr \<times> int) list \<Rightarrow> ('k, 'v) frame list \<Rightarrow> addr \<Rightarrow> bool" where
  "rotated h h' ns R c hole \<longleftrightarrow>
     (\<forall>u. u \<notin> set ns \<longrightarrow> h' u = rehang (reps R h) (upaddr c) (dir c) hole u) \<and>
     (\<forall>u\<in>set ns. h u \<noteq> None \<and> h' u \<noteq> None)"

definition rtrees :: "(('k, 'v) tree \<times> addr \<times> int) list \<Rightarrow> addr list" where
  "rtrees R = concat (map (\<lambda>(t, p, d). adrs (inord t)) R)"

lemma reps_simps [simp]: "reps [] h = h" "reps ((t, p, d) # R) h = reps R (reparent h (rt t) p d)"
  by (simp_all add: reps_def)

lemma rtrees_simps [simp]: "rtrees [] = []" "rtrees ((t, p, d) # R) = adrs (inord t) @ rtrees R"
  by (simp_all add: rtrees_def)

lemma reps_out: "u \<notin> set (rtrees R) \<Longrightarrow> reps R h u = h u"
  by (induction R arbitrary: h) (auto simp: reparent_out tadrs_def)

lemma reps_None [simp]: "reps R h u = None \<longleftrightarrow> h u = None"
proof (induction R arbitrary: h)
  case (Cons r R)
  then show ?case by (cases r) simp
qed simp

lemma rtrees_mem: "(t, p, d) \<in> set R \<Longrightarrow> u \<in> tadrs t \<Longrightarrow> u \<in> set (rtrees R)"
  by (induction R) (auto simp: tadrs_def)

lemma reps_in:
  "distinct (rtrees R) \<Longrightarrow> (t, p, d) \<in> set R \<Longrightarrow> u \<in> tadrs t \<Longrightarrow> reps R h u = reparent h (rt t) p d u"
proof (induction R arbitrary: h)
  case (Cons r R)
  obtain t' p' d' where r: "r = (t', p', d')" by (cases r) auto
  have dj: "set (adrs (inord t')) \<inter> set (rtrees R) = {}" using Cons.prems(1) r by auto
  show ?case
  proof (cases "(t, p, d) \<in> set R")
    case True
    then have "u \<in> set (rtrees R)" using Cons.prems(3) by (rule rtrees_mem)
    then have "u \<notin> tadrs t'" using dj by (auto simp: tadrs_def)
    moreover have "distinct (rtrees R)" using Cons.prems(1) r by auto
    moreover have "reparent (reparent h (rt t') p' d') (rt t) p d u = reparent h (rt t) p d u"
      using \<open>u \<notin> tadrs t'\<close> by (intro reparent_cong reparent_out)
    ultimately show ?thesis using Cons.IH [OF _ True Cons.prems(3), of "reparent h (rt t') p' d'"] r by simp
  next
    case False
    then have "(t, p, d) = r" using Cons.prems(2) by auto
    then have "u \<notin> set (rtrees R)" using Cons.prems(3) r dj by (auto simp: tadrs_def)
    then have "reps R (reparent h (rt t) p d) u = reparent h (rt t) p d u" by (rule reps_out)
    then show ?thesis using \<open>(t, p, d) = r\<close> by auto
  qed
qed simp

lemma rotated_same:
  assumes "rotated h h' ns R c hole" "u \<notin> set ns" "u \<notin> set (rtrees R)" "u \<noteq> upaddr c \<or> u = 0"
  shows "h' u = h u"
  using assms reps_out [of u R h] by (auto simp: rotated_def)

lemma rotated_dom:
  assumes "rotated h h' ns R c hole"
  shows "h' u = None \<longleftrightarrow> h u = None"
  using assms by (cases "u \<in> set ns") (auto simp: rotated_def)

lemma rotated_tree:
  assumes "rotated h h' ns R c hole" "(t, p, d) \<in> set R" "rep h p' d' t"
    and "distinct (rtrees R @ ns @ cadrs c)"
  shows "rep h' p d t"
proof (rule rep_reparented [OF assms(3)])
  have sub: "set (adrs (inord t)) \<subseteq> set (rtrees R)" using rtrees_mem [OF assms(2)] by (auto simp: tadrs_def)
  show "distinct (adrs (inord t))" using assms(2,4) by (auto simp: rtrees_def distinct_concat_iff)
  show "h' u = reparent h (rt t) p d u" if "u \<in> tadrs t" for u
  proof -
    have "u \<notin> set ns" "u \<notin> set (cadrs c)" "u \<noteq> 0"
      using that sub assms(4) rep_nz [OF assms(3)] by (auto simp: tadrs_def)
    moreover have "u \<noteq> upaddr c" using calculation upaddr_mem [of c] by auto
    ultimately have "h' u = reps R h u" using assms(1) by (simp add: rotated_def)
    then show ?thesis using reps_in [OF _ assms(2) that] assms(4) by auto
  qed
qed

text \<open>The new top node stands in the hole, with the rest of the tree unchanged.\<close>

lemma zrep_rotated:
  assumes z: "zrep s fr c t" and rot: "rotated (cells s) (cells s') ns R c (rt t')"
    and d: "distinct (adrs (inord t'))" "tadrs t' = tadrs t" "t' \<noteq> Lf" "set ns \<subseteq> tadrs t" "set (rtrees R) \<subseteq> tadrs t"
    and r: "rep (cells s') (upaddr c) (dir c) t'" "root s' = (if upaddr c = 0 then rt t' else root s)"
    and s: "same_obj s s'"
  shows "zrep s' fr c t'"
proof (rule zrep_replace [OF z])
  note zd = zrepD [OF z]
  show "heap_ok s'"
    by (rule heap_ok_dom [OF zd(1)]) (use s rotated_dom [OF rot] in \<open>auto simp: same_obj_def\<close>)
  show "cells s' (upaddr c) = map_option (set_refs (1 + dir c) (rt t')) (cells s (upaddr c))" if "c \<noteq> []"
  proof -
    have "upaddr c \<notin> set ns" "upaddr c \<notin> set (rtrees R)" "upaddr c \<noteq> 0"
      using zd(7) d(4,5) upaddr_in [OF that] upaddr_zero [OF zd(3)] that by blast+
    then show ?thesis using rot reps_out [of "upaddr c" R "cells s"] by (simp add: rotated_def rehang_def)
  qed
  show "cells s' u = cells s u" if "u \<notin> tadrs t" "u \<noteq> upaddr c" for u
    using that rotated_same [OF rot] d(4,5) by blast
  show "root s' = (if c = [] then rt t' else root s)" using r(2) upaddr_zero [OF zd(3)] by simp
qed (use d r zrepD(7) [OF z] in auto)

lemma added_single_sim:
  assumes z: "zrep s fr (Fr d p kp vp d z # c) (nd d a ka va ba x y)"
  obtains s' where "added_single p a s = (Inr (), s')" "same_obj s s'"
    "zrep s' fr c (nd d a ka va 0 x (nd d p kp vp 0 y z))"
proof -
  note f = zrep_frame [OF z]
  have d: "dirn d" by fact
  have a: "a \<noteq> 0" "cells s a = Some (mk d ka va ba (rt x) (rt y) p d)" "rep (cells s) a d x" "rep (cells s) a (- d) y"
    using f(5) d by (auto simp: rep_nd)
  have p: "p \<noteq> 0" "cells s p = Some (mk d kp vp d a (rt z) (upaddr c) (dir c))" using f(2,3) by auto
  have ds: "distinct (adrs (inord x) @ adrs (inord y) @ adrs (inord z) @ [p, a] @ cadrs c)"
    using f(6-13) zrepD(6) [OF z] by (auto simp: inord_nd tadrs_def split: if_splits)
  have y: "a \<noteq> rt y" "p \<noteq> rt y" "a \<noteq> upaddr c" "p \<noteq> upaddr c" "a \<noteq> p"
    using ds a(1) p(1) by (simp_all add: rt_off upaddr_off)
  have live: "rt y = 0 \<or> cells s (rt y) \<noteq> None" "upaddr c = 0 \<or> cells s (upaddr c) \<noteq> None"
    using rep_rt_live [OF a(4)] crep_upaddr_live [OF f(14)] by auto
  obtain s' where s': "added_single p a s = (Inr (), s')" "same_obj s s'"
    "root s' = (if upaddr c = 0 then a else root s)"
    "cells s' p = Some (mk d kp vp 0 (rt y) (rt z) a (- d))"
    "cells s' a = Some (mk d ka va 0 (rt x) p (upaddr c) (dir c))"
    "rotated (cells s) (cells s') [p, a] [(y, p, d)] c a"
    using p a y live d unfolding rotated_def
    by (simp add: added_single_def Let_def set_child_exec set_top_exec same_obj_def
        rehang_upd rehang_reparent reparent_upd reparent2_upd cong: if_cong)
  have keep: "cells s' u = cells s u" if "u \<in> tadrs x \<union> tadrs z" for u
    using that rotated_same [OF s'(6), of u] ds upaddr_mem [of c] by (auto simp: tadrs_def)
  have y': "rep (cells s') p d y" by (rule rotated_tree [OF s'(6) _ a(4)]) (use ds in auto)
  have xz: "rep (cells s') a d x" "rep (cells s') p (- d) z" using rep_cong keep a(3) f(4) by blast+
  have "zrep s' fr c (nd d a ka va 0 x (nd d p kp vp 0 y z))"
  proof (rule zrep_rotated [OF iffD1 [OF zrep_up z, THEN conjunct2], of s' "[p, a]" "[(y, p, d)]"])
    show "rep (cells s') (upaddr c) (dir c) (nd d a ka va 0 x (nd d p kp vp 0 y z))"
      using d a p s'(4,5) y' xz by (simp add: rep_nd)
  qed (use s' ds in \<open>auto simp: inord_nd tadrs_def\<close>)
  then show thesis using that s' by blast
qed


lemma added_double_sim:
  assumes z: "zrep s fr (Fr d p kp vp d z # c) (nd d a ka va ba x (nd d e ke ve be u w))"
  obtains s' where "added_double p a s = (Inr (), s')" "same_obj s s'"
    "zrep s' fr c (nd d e ke ve 0 (nd d a ka va (if be = - d then d else 0) x u)
       (nd d p kp vp (if be = d then - d else 0) w z))"
proof -
  note f = zrep_frame [OF z]
  have d: "dirn d" by fact
  have a: "a \<noteq> 0" "cells s a = Some (mk d ka va ba (rt x) e p d)" "rep (cells s) a d x"
    and e: "e \<noteq> 0" "cells s e = Some (mk d ke ve be (rt u) (rt w) a (- d))"
      "rep (cells s) e d u" "rep (cells s) e (- d) w"
    using f(5) d by (auto simp: rep_nd)
  have p: "p \<noteq> 0" "cells s p = Some (mk d kp vp d a (rt z) (upaddr c) (dir c))" using f(2,3) by auto
  have ds: "distinct (adrs (inord x) @ adrs (inord u) @ adrs (inord w) @ adrs (inord z) @ [p, a, e] @ cadrs c)"
    using f(6-13) zrepD(6) [OF z] by (auto simp: inord_nd tadrs_def split: if_splits)
  have y: "a \<noteq> rt u" "p \<noteq> rt u" "e \<noteq> rt u" "a \<noteq> rt w" "p \<noteq> rt w" "e \<noteq> rt w" "a \<noteq> upaddr c" "p \<noteq> upaddr c"
    "e \<noteq> upaddr c" "a \<noteq> p" "a \<noteq> e" "p \<noteq> e"
    using ds a(1) p(1) e(1) by (simp_all add: rt_off upaddr_off)
  have live: "rt u = 0 \<or> cells s (rt u) \<noteq> None" "rt w = 0 \<or> cells s (rt w) \<noteq> None"
    "upaddr c = 0 \<or> cells s (upaddr c) \<noteq> None"
    using rep_rt_live [OF e(3)] rep_rt_live [OF e(4)] crep_upaddr_live [OF f(14)] by auto
  obtain s' where s': "added_double p a s = (Inr (), s')" "same_obj s s'"
    "root s' = (if upaddr c = 0 then e else root s)"
    "cells s' p = Some (mk d kp vp (if be = d then - d else 0) (rt w) (rt z) e (- d))"
    "cells s' a = Some (mk d ka va (if be = - d then d else 0) (rt x) (rt u) e d)"
    "cells s' e = Some (mk d ke ve 0 a p (upaddr c) (dir c))"
    "rotated (cells s) (cells s') [p, a, e] [(w, p, d), (u, a, - d)] c e"
    using p a e y live d unfolding rotated_def
    by (simp add: added_double_def Let_def set_child_exec set_top_exec same_obj_def
        rehang_upd rehang_reparent reparent_upd reparent2_upd cong: if_cong)
  have keep: "cells s' v = cells s v" if "v \<in> tadrs x \<union> tadrs z" for v
    using that rotated_same [OF s'(7), of v] ds upaddr_mem [of c] by (auto simp: tadrs_def)
  have uw: "rep (cells s') p d w" by (rule rotated_tree [OF s'(7) _ e(4)]) (use ds in auto)
  have uu: "rep (cells s') a (- d) u" by (rule rotated_tree [OF s'(7) _ e(3)]) (use ds in auto)
  have xz: "rep (cells s') a d x" "rep (cells s') p (- d) z" using rep_cong keep a(3) f(4) by blast+
  let ?t = "nd d e ke ve 0 (nd d a ka va (if be = - d then d else 0) x u)
       (nd d p kp vp (if be = d then - d else 0) w z)"
  have "zrep s' fr c ?t"
  proof (rule zrep_rotated [OF iffD1 [OF zrep_up z, THEN conjunct2], of s' "[p, a, e]" "[(w, p, d), (u, a, - d)]"])
    show "rep (cells s') (upaddr c) (dir c) ?t"
      using d a e p s'(4-6) uw uu xz by (simp add: rep_nd)
  qed (use s' ds in \<open>auto simp: inord_nd tadrs_def\<close>)
  then show thesis using that s' by blast
qed


lemma removed_single_sim:
  assumes z: "zrep s fr (Fr d n kn vn bn (nd d p kp vp bp y z) # c) t"
  obtains s' where "removed_single n p d s = (Inr (c \<noteq> [] \<and> bp = - d), s')" "same_obj s s'"
    "zrep s' fr c (nd d p kp vp (bp + d) (nd d n kn vn (if bp = - d then 0 else - d) t y) z)"
proof -
  note f = zrep_frame [OF z]
  have d: "dirn d" by fact
  have p: "p \<noteq> 0" "cells s p = Some (mk d kp vp bp (rt y) (rt z) n (- d))" "rep (cells s) p d y" "rep (cells s) p (- d) z"
    using f(4) d by (auto simp: rep_nd)
  have n: "n \<noteq> 0" "cells s n = Some (mk d kn vn bn (rt t) p (upaddr c) (dir c))" using f(2,3) by auto
  have ds: "distinct (adrs (inord t) @ adrs (inord y) @ adrs (inord z) @ [n, p] @ cadrs c)"
    using f(6-13) zrepD(6) [OF z] by (auto simp: inord_nd tadrs_def split: if_splits)
  have y: "n \<noteq> rt y" "p \<noteq> rt y" "n \<noteq> upaddr c" "p \<noteq> upaddr c" "n \<noteq> p"
    using ds n(1) p(1) by (simp_all add: rt_off upaddr_off)
  have live: "rt y = 0 \<or> cells s (rt y) \<noteq> None" "upaddr c = 0 \<or> cells s (upaddr c) \<noteq> None"
    using rep_rt_live [OF p(3)] crep_upaddr_live [OF f(14)] by auto
  obtain s' where s': "removed_single n p d s = (Inr (upaddr c \<noteq> 0 \<and> bp = - d), s')" "same_obj s s'"
    "root s' = (if upaddr c = 0 then p else root s)"
    "cells s' n = Some (mk d kn vn (if bp = - d then 0 else - d) (rt t) (rt y) p d)"
    "cells s' p = Some (mk d kp vp (bp + d) n (rt z) (upaddr c) (dir c))"
    "rotated (cells s) (cells s') [n, p] [(y, n, - d)] c p"
    using p n y live d unfolding rotated_def
    by (simp add: removed_single_def Let_def set_child_exec set_top_exec same_obj_def
        rehang_upd rehang_reparent reparent_upd reparent2_upd cong: if_cong)
  have keep: "cells s' u = cells s u" if "u \<in> tadrs t \<union> tadrs z" for u
    using that rotated_same [OF s'(6), of u] ds upaddr_mem [of c] by (auto simp: tadrs_def)
  have y': "rep (cells s') n (- d) y" by (rule rotated_tree [OF s'(6) _ p(3)]) (use ds in auto)
  have tz: "rep (cells s') n d t" "rep (cells s') p (- d) z" using rep_cong keep p(4) f(5) by blast+
  let ?t = "nd d p kp vp (bp + d) (nd d n kn vn (if bp = - d then 0 else - d) t y) z"
  have "zrep s' fr c ?t"
  proof (rule zrep_rotated [OF iffD1 [OF zrep_up z, THEN conjunct2], of s' "[n, p]" "[(y, n, - d)]"])
    show "rep (cells s') (upaddr c) (dir c) ?t" using d n p s'(4,5) y' tz by (simp add: rep_nd)
  qed (use s' ds in \<open>auto simp: inord_nd tadrs_def\<close>)
  then show thesis using that s' upaddr_zero [OF f(14)] by auto
qed

lemma removed_double_sim:
  assumes z: "zrep s fr (Fr d n kn vn bn (nd d p kp vp bp (nd d e ke ve be u w) z) # c) t"
  obtains s' where "removed_double n p d s = (Inr e, s')" "same_obj s s'"
    "zrep s' fr c (nd d e ke ve 0 (nd d n kn vn (if be \<noteq> - d then 0 else d) t u)
       (nd d p kp vp (if be = d then - d else 0) w z))"
proof -
  note f = zrep_frame [OF z]
  have d: "dirn d" by fact
  have p: "p \<noteq> 0" "cells s p = Some (mk d kp vp bp e (rt z) n (- d))" "rep (cells s) p (- d) z"
    and e: "e \<noteq> 0" "cells s e = Some (mk d ke ve be (rt u) (rt w) p d)"
      "rep (cells s) e d u" "rep (cells s) e (- d) w"
    using f(4) d by (auto simp: rep_nd)
  have n: "n \<noteq> 0" "cells s n = Some (mk d kn vn bn (rt t) p (upaddr c) (dir c))" using f(2,3) by auto
  have ds: "distinct (adrs (inord t) @ adrs (inord u) @ adrs (inord w) @ adrs (inord z) @ [n, p, e] @ cadrs c)"
    using f(6-13) zrepD(6) [OF z] by (auto simp: inord_nd tadrs_def split: if_splits)
  have y: "n \<noteq> rt u" "p \<noteq> rt u" "e \<noteq> rt u" "n \<noteq> rt w" "p \<noteq> rt w" "e \<noteq> rt w" "n \<noteq> upaddr c" "p \<noteq> upaddr c"
    "e \<noteq> upaddr c" "n \<noteq> p" "n \<noteq> e" "p \<noteq> e"
    using ds n(1) p(1) e(1) by (simp_all add: rt_off upaddr_off)
  have live: "rt u = 0 \<or> cells s (rt u) \<noteq> None" "rt w = 0 \<or> cells s (rt w) \<noteq> None"
    "upaddr c = 0 \<or> cells s (upaddr c) \<noteq> None"
    using rep_rt_live [OF e(3)] rep_rt_live [OF e(4)] crep_upaddr_live [OF f(14)] by auto
  obtain s' where s': "removed_double n p d s = (Inr e, s')" "same_obj s s'"
    "root s' = (if upaddr c = 0 then e else root s)"
    "cells s' n = Some (mk d kn vn (if be \<noteq> - d then 0 else d) (rt t) (rt u) e d)"
    "cells s' p = Some (mk d kp vp (if be = d then - d else 0) (rt w) (rt z) e (- d))"
    "cells s' e = Some (mk d ke ve 0 n p (upaddr c) (dir c))"
    "rotated (cells s) (cells s') [n, p, e] [(u, n, - d), (w, p, d)] c e"
    using n p e y live d unfolding rotated_def
    by (simp add: removed_double_def Let_def set_child_exec set_top_exec same_obj_def
        rehang_upd rehang_reparent reparent_upd reparent2_upd cong: if_cong)
  have keep: "cells s' v = cells s v" if "v \<in> tadrs t \<union> tadrs z" for v
    using that rotated_same [OF s'(7), of v] ds upaddr_mem [of c] by (auto simp: tadrs_def)
  have uu: "rep (cells s') n (- d) u" by (rule rotated_tree [OF s'(7) _ e(3)]) (use ds in auto)
  have ww: "rep (cells s') p d w" by (rule rotated_tree [OF s'(7) _ e(4)]) (use ds in auto)
  have tz: "rep (cells s') n d t" "rep (cells s') p (- d) z" using rep_cong keep p(3) f(5) by blast+
  let ?t = "nd d e ke ve 0 (nd d n kn vn (if be \<noteq> - d then 0 else d) t u)
       (nd d p kp vp (if be = d then - d else 0) w z)"
  have "zrep s' fr c ?t"
  proof (rule zrep_rotated [OF iffD1 [OF zrep_up z, THEN conjunct2], of s' "[n, p, e]" "[(u, n, - d), (w, p, d)]"])
    show "rep (cells s') (upaddr c) (dir c) ?t"
      using d n p e s'(4-6) uu ww tz by (simp add: rep_nd)
  qed (use s' ds in \<open>auto simp: inord_nd tadrs_def\<close>)
  then show thesis using that s' by blast
qed

section \<open>Rebalancing\<close>

lemma zrep_balance:
  assumes "zrep s fr (Fr d p k v b x # c) t"
  shows "zrep (s\<lparr>cells := (cells s)(p := Some (mk d k v b' (rt t) (rt x) (upaddr c) (dir c)))\<rparr>) fr
    (Fr d p k v b' x # c) t"
proof -
  note f = zrep_frame [OF assms] and zd = zrepD [OF assms]
  have "rep ((cells s)(p := q)) p d t = rep (cells s) p d t" "rep ((cells s)(p := q)) p (- d) x = rep (cells s) p (- d) x"
    "crep ((cells s)(p := q)) c p = crep (cells s) c p" for q
    using f(6,7,11) by (auto intro!: rep_cong crep_cong)
  moreover have "rt (plug (Fr d p k v b' x # c) t) = root s" using f(17) rt_plug [of c] by (cases "c = []") auto
  ultimately show ?thesis
    by (intro zrepI) (use f zd heap_ok_modify [OF f(16), of p] in \<open>auto simp: tadrs_def\<close>)
qed

lemma zrep_closed: "zrep s fr c t \<Longrightarrow> zrep s fr [] (plug c t)"
  by (simp add: zrep_def)

lemma zrep_open: "dirs c \<Longrightarrow> zrep s fr [] (plug c t) \<Longrightarrow> zrep s fr c t"
  by (simp add: zrep_def)

lemma rebalanceAdded_loop_sim:
  assumes "grows c t" "c \<noteq> []" "zrep s fr c t" "length c \<le> f"
  obtains s' where "rebalanceAdded_loop f (rt t) (upaddr c) s = (Inr (), s')" "same_obj s s'"
    "zrep s' fr [] (grown c t)"
proof -
  have "\<exists>s'. rebalanceAdded_loop f (rt t) (upaddr c) s = (Inr (), s') \<and> same_obj s s' \<and> zrep s' fr [] (grown c t)"
    using assms
  proof (induction c t arbitrary: s f rule: grown.induct)
    case (2 d p k v b x c t)
    note z = 2(4) and f = zrep_frame [OF 2(4)]
    obtain f' where f': "f = Suc f'" "length c \<le> f'" using 2(5) by (cases f) auto
    have "t \<noteq> Lf" using 2(2) by (simp add: grows_def)
    then have a: "\<exists>n. cells s (rt t) = Some n \<and> direction n = d \<and> balance n = bal t" using f(5) by (cases t) auto
    consider "b = 0" | "b \<noteq> 0" "b \<noteq> d" | "b = d" "b \<noteq> bal t" "b \<noteq> 0" | "b = d" "b = bal t" "b \<noteq> 0"
      by blast
    then show ?case
    proof cases
      case 1
      let ?s = "s\<lparr>cells := (cells s)(p := Some (mk d k v d (rt t) (rt x) (upaddr c) (dir c)))\<rparr>"
      have z1: "zrep ?s fr c (nd d p k v d t x)" using zrep_balance [OF z, of d] by (simp add: zrep_up)
      have g: "grows c (nd d p k v d t x)" using 2(2) 1 by (intro grows_up) simp
      show ?thesis
      proof (cases "c = []")
        case True
        then show ?thesis using 1 f' f(3) a z1 by (auto simp: same_obj_def)
      next
        case False
        have u: "upaddr c \<noteq> 0" using False upaddr_zero [OF f(14)] by simp
        show ?thesis using 2(1) [OF 1 g False z1 f'(2)] 1 f' f(3) a u by (auto simp: same_obj_def)
      qed
    next
      case 2
      then show ?thesis using zrep_closed [OF zrep_balance [OF z, of 0]] f' f(3) a by (auto simp: same_obj_def)
    next
      case 3
      have g: "grows (Fr d p k v d x # c) t" "bal t \<noteq> d" using 2(2) 3 by auto
      show ?thesis
      proof (rule grows_double [OF g])
        fix a' ka va y e ke ve be u w
        assume t: "t = nd d a' ka va (- d) y (nd d e ke ve be u w)"
        obtain s' where s': "added_double p a' s = (Inr (), s')" "same_obj s s'"
          "zrep s' fr c (nd d e ke ve 0 (nd d a' ka va (if be = - d then d else 0) y u)
             (nd d p k v (if be = d then - d else 0) w x))"
          by (rule added_double_sim [of s fr d p k v x c a' ka va "- d" y e ke ve be u w]) (use z 3 t in auto)
        then show ?thesis using 3 f' f(1,3) a t zrep_closed [OF s'(3)] by (auto simp: rot_double_nd)
      qed
    next
      case 4
      have g: "grows (Fr d p k v d x # c) t" "bal t = d" using 2(2) 4 by auto
      show ?thesis
      proof (rule grows_single [OF g])
        fix a' ka va y w
        assume t: "t = nd d a' ka va d y w"
        obtain s' where s': "added_single p a' s = (Inr (), s')" "same_obj s s'"
          "zrep s' fr c (nd d a' ka va 0 y (nd d p k v 0 w x))"
          by (rule added_single_sim [of s fr d p k v x c a' ka va d y w]) (use z 4 t in auto)
        then show ?thesis using 4 f' f(1,3) a t zrep_closed [OF s'(3)] by (auto simp: rot_single_nd)
      qed
    qed
  qed simp
  then show thesis using that by blast
qed

lemma rebalanceRemoved_loop_sim:
  assumes "shrinks c t" "c \<noteq> []" "zrep s fr c t" "length c \<le> f"
  obtains s' where "rebalanceRemoved_loop f (upaddr c) (dir c) s = (Inr (), s')" "same_obj s s'"
    "zrep s' fr [] (shrunk c t)"
proof -
  have "\<exists>s'. rebalanceRemoved_loop f (upaddr c) (dir c) s = (Inr (), s') \<and> same_obj s s' \<and> zrep s' fr [] (shrunk c t)"
    using assms
  proof (induction c t arbitrary: s f rule: shrunk.induct)
    case (2 d n k v b x c t)
    note IH = 2(1-3) and sh = 2(4) and z = 2(6) and f = zrep_frame [OF 2(6)]
    obtain f' where f': "f = Suc f'" "length c \<le> f'" using 2(7) by (cases f) auto
    have u0: "upaddr c = 0 \<longleftrightarrow> c = []" using upaddr_zero [OF f(14)] .
    consider "b = 0" | "b \<noteq> 0" "b = d" | "b \<noteq> 0" "b \<noteq> d" "bal x = d"
      | "b \<noteq> 0" "b \<noteq> d" "bal x \<noteq> d"
      by blast
    then show ?case
    proof cases
      case 1
      then show ?thesis using zrep_closed [OF zrep_balance [OF z, of "- d"]] f' f(3) by (auto simp: same_obj_def)
    next
      case 2
      let ?s = "s\<lparr>cells := (cells s)(n := Some (mk d k v 0 (rt t) (rt x) (upaddr c) (dir c)))\<rparr>"
      have z1: "zrep ?s fr c (nd d n k v 0 t x)" using zrep_balance [OF z, of 0] by (simp add: zrep_up)
      have g: "shrinks c (nd d n k v 0 t x)" using sh 2 by (intro shrinks_same) simp
      show ?thesis
      proof (cases "c = []")
        case True
        then show ?thesis using 2 f' f(3) z1 by (auto simp: same_obj_def)
      next
        case False
        then show ?thesis using IH(1) [OF 2 g False z1 f'(2)] 2 f' f(3) u0 by (auto simp: same_obj_def)
      qed
    next
      case 3
      show ?thesis
      proof (rule shrinks_inner [OF sh 3])
        fix p kp vp e ke ve be u w y
        assume x: "x = nd d p kp vp d (nd d e ke ve be u w) y" and b: "b = - d"
        obtain s1 where s1: "removed_double n p d s = (Inr e, s1)" "same_obj s s1"
          "zrep s1 fr c (nd d e ke ve 0 (nd d n k v (if be \<noteq> - d then 0 else d) t u)
             (nd d p kp vp (if be = d then - d else 0) w y))"
          by (rule removed_double_sim [of s fr d n k v b p kp vp d e ke ve be u w y c t]) (use z x in auto)
        have z1: "zrep s1 fr c (unrot_double d n k v t x)" using s1(3) f(1) x by (simp add: unrot_double_nd)
        have p: "cells s p = Some (mk d kp vp d e (rt y) n (- d))" using f(1,4) x by (simp add: rep_nd)
        have e: "\<exists>m. cells s1 e = Some m \<and> parent m = upaddr c \<and> direction m = dir c"
          using zrepD(4) [OF s1(3)] f(1) by (auto simp: rep_nd)
        show ?thesis
        proof (cases "c = []")
          case True
          then show ?thesis using 3 b f' f(1,3) x p e s1(1,2) z1 u0 by auto
        next
          case False
          obtain s2 where "rebalanceRemoved_loop f' (upaddr c) (dir c) s1 = (Inr (), s2)" "same_obj s1 s2"
            "zrep s2 fr [] (shrunk c (unrot_double d n k v t x))"
            using IH(2) [OF 3 shrinks_double [OF sh 3] False z1 f'(2)] by blast
          then show ?thesis using 3 b f' f(1,3) x p e s1(1,2) u0 False same_obj_trans by auto
        qed
      qed
    next
      case 4
      show ?thesis
      proof (rule shrinks_sibling [OF sh 4(1,2)])
        fix p kp vp bp y w
        assume x: "x = nd d p kp vp bp y w" and b: "b = - d"
        obtain s1 where s1: "removed_single n p d s = (Inr (c \<noteq> [] \<and> bp = - d), s1)" "same_obj s s1"
          "zrep s1 fr c (nd d p kp vp (bp + d) (nd d n k v (if bp = - d then 0 else - d) t y) w)"
          by (rule removed_single_sim [of s fr d n k v b p kp vp bp y w c t]) (use z x in auto)
        have z1: "zrep s1 fr c (unrot_single d n k v t x)" using s1(3) f(1) x by (simp add: unrot_single_nd)
        have p: "cells s p = Some (mk d kp vp bp (rt y) (rt w) n (- d))" using f(1,4) x by (simp add: rep_nd)
        have e: "\<exists>m. cells s1 p = Some m \<and> parent m = upaddr c \<and> direction m = dir c"
          using zrepD(4) [OF s1(3)] f(1) by (auto simp: rep_nd)
        show ?thesis
        proof (cases "c = [] \<or> bp \<noteq> - d")
          case True
          then show ?thesis using 4 b f' f(1,3) x p e s1(1,2) zrep_closed [OF z1] u0 by auto
        next
          case False
          then have bx: "bal x = - d" "c \<noteq> []" using x by auto
          obtain s2 where "rebalanceRemoved_loop f' (upaddr c) (dir c) s1 = (Inr (), s2)" "same_obj s1 s2"
            "zrep s2 fr [] (shrunk c (unrot_single d n k v t x))"
            using IH(3) [OF 4 bx(1) shrinks_single [OF sh 4(1,2) bx(1)] bx(2) z1 f'(2)] by blast
          then show ?thesis using 4 b f' f(1,3) x p e s1(1,2) u0 bx same_obj_trans by auto
        qed
      qed
    qed
  qed simp
  then show thesis using that by blast
qed

section \<open>Bounds of the pointer loops\<close>

lemma length_cadrs: "length c \<le> length (cadrs c)"
  by (induction c rule: cadrs.induct) auto

lemma ht_le: "ht t \<le> length (inord t)"
  by (induction t) auto

lemma zrep_bound: assumes "zrep s fr c t" shows "length c + ht t < brk s"
proof -
  note zd = zrepD [OF assms]
  have "length (adrs (inord t) @ cadrs c) < brk s"
  proof (rule distinct_cells_bound [OF zd(1)])
    show "distinct (adrs (inord t) @ cadrs c)" using zd(5-7) by (auto simp: tadrs_def)
    show "cells s a \<noteq> None" if "a \<in> set (adrs (inord t) @ cadrs c)" for a
      using that rep_live [OF zd(4), of a] crep_live [OF zd(3), of a] by (auto simp: tadrs_def)
  qed
  then show ?thesis using length_cadrs [of c] ht_le [of t] by (simp add: adrs_def)
qed

section \<open>Search\<close>

lemma node_cmp_mk [simp]:
  "avl_node_cmp (mk d k v b x y par dr) key = (if k = key then 0 else if k < key then -1 else 1)"
  by (simp add: avl_node_cmp_def tcmp_def)

lemma refs_mk_num [simp]:
  "refs (mk (-1) k v b x y par dr) 0 = x" "refs (mk (-1) k v b x y par dr) 2 = y"
  "refs (mk d k v b x y par dr) 1 = par"
  by (simp_all add: refs_def mk_def)

lemma find_loop_sim:
  "rep (cells s) par dr t \<Longrightarrow> ht t < f \<Longrightarrow>
   avl_find_loop f key (rt t) s = (Inr (rt (snd (zlocate key t c))), s)"
proof (induction t arbitrary: f par dr c)
  case Lf
  then show ?case by (cases f) auto
next
  case (Nd a k v b l r)
  then obtain f' where f': "f = Suc f'" by (cases f) auto
  consider "key = k" | "key < k" | "k < key" by fastforce
  then show ?case
  proof cases
    case 2
    then show ?thesis using Nd.prems f' Nd.IH(1) [of a "-1" f' "Fr (-1) a k v b r # c"] by auto
  next
    case 3
    then show ?thesis using Nd.prems f' Nd.IH(2) [of a 1 f' "Fr 1 a k v b l # c"] by auto
  qed (use Nd.prems f' in auto)
qed

lemma find_g_sim:
  assumes "zrep s fr [] t"
  shows "avl_find_g key s = (Inr (rt (snd (zlocate key t []))), s)"
  using find_loop_sim [OF zrepD(4) [OF assms], of "brk s" key "[]"] zrep_bound [OF assms] zrepD(8) [OF assms]
  by (simp add: avl_find_g_def)

definition slot_of :: "('k, 'v) frame list \<Rightarrow> slot" where
  "slot_of c = (if c = [] then RootSlot else RefSlot (upaddr c) (1 + dir c))"

lemma read_slot_sim: "zrep s fr c t \<Longrightarrow> read_slot (slot_of c) s = (Inr (rt t), s)"
proof (cases c)
  case (Cons f c')
  obtain d a k v b x where "f = Fr d a k v b x" by (cases f)
  moreover assume "zrep s fr c t"
  ultimately show ?thesis using zrep_frame(1,3) [of s fr d a k v b x c' t] Cons by (simp add: slot_of_def)
qed (auto simp: slot_of_def zrep_def)

lemma locate_slot_sim:
  assumes "zrep s fr c t" "ht t < f" "zlocate key t c = (c', t')"
  shows "locate_slot f key (slot_of c) (dir c) s = (Inr (slot_of c', if t' = Lf then dir c' else 0), s) \<and> zrep s fr c' t'"
  using assms
proof (induction t arbitrary: f c)
  case Lf
  then show ?case using read_slot_sim [OF Lf(1)] by (cases f) auto
next
  case (Nd a k v b l r)
  obtain f' where f': "f = Suc f'" using Nd.prems(2) by (cases f) auto
  note r = read_slot_sim [OF Nd.prems(1)]
  have h: "a \<noteq> 0" "cells s a = Some (mk (-1) k v b (rt l) (rt r) (upaddr c) (dir c))"
    using zrepD(4) [OF Nd.prems(1)] by auto
  have zl: "zrep s fr (Fr (-1) a k v b r # c) l" and zr: "zrep s fr (Fr 1 a k v b l # c) r"
    using Nd.prems(1) by (auto simp: zrep_up nd_def dirn_def)
  consider "key = k" | "key < k" | "k < key" by fastforce
  then show ?case
  proof cases
    case 2
    then show ?thesis using Nd.IH(1) [OF zl, of f'] Nd.prems f' h r by (auto simp: slot_of_def)
  next
    case 3
    then have "\<not> key < k" "key \<noteq> k" by auto
    then show ?thesis using Nd.IH(2) [OF zr, of f'] Nd.prems f' h r 3 by (auto simp: slot_of_def)
  qed (use Nd.prems f' h r in auto)
qed

section \<open>Insertion\<close>

definition low :: "('k, 'v) tree \<Rightarrow> addr" where
  "low t = (case adrs (inord t) of [] \<Rightarrow> 0 | a # _ \<Rightarrow> a)"

text \<open>
  The invariant of the container: a heap that holds a balanced search tree, with \<open>lowest\<close> and the
  element count as members.  \<open>fr\<close> is the rest of the heap, where none of the tree's cells are.
\<close>

definition avl_inv :: "('k::linorder, 'v) avl \<Rightarrow> (addr \<Rightarrow> ('k, 'v) avl_node option) \<Rightarrow> ('k, 'v) tree \<Rightarrow> bool" where
  "avl_inv s fr t \<longleftrightarrow> zrep s fr [] t \<and> avl t \<and> bst t \<and> lowest s = low t \<and>
     avl_count s = length (inord t) \<and> (\<forall>a\<in>tadrs t. fr a = None)"

lemma low_inord: "inord t = inord t' \<Longrightarrow> low t = low t'"
  by (simp add: low_def)

text \<open>The new node is the lowest exactly when its parent was and it hangs to the left.\<close>

lemma low_insert:
  assumes "zrep s fr c Lf" "c \<noteq> []"
  shows "low (plug c (Nd n k v b Lf Lf)) =
    (if upaddr c = low (plug c Lf) \<and> dir c < 0 then n else low (plug c Lf))"
proof (cases "lefts c")
  case Nil
  from assms(2) Nil obtain d a k' v' b' x c' where "c = Fr d a k' v' b' x # c'" "d < 0"
    by (cases c rule: upaddr.cases) (auto split: if_splits)
  then show ?thesis using Nil by (auto simp: low_def inord_plug inord_nd)
next
  case (Cons e es)
  obtain a0 k0 v0 where e: "e = (a0, k0, v0)" by (cases e)
  have "upaddr c \<noteq> a0" if "dir c < 0"
  proof -
    obtain d a k' v' b' x c' where c: "c = Fr d a k' v' b' x # c'" using assms(2) by (cases c rule: upaddr.cases) auto
    have "distinct (adrs (lefts c @ rights c))" using assms(1) by (simp add: zrep_def inord_plug)
    then show ?thesis using that c Cons e by auto
  qed
  then show ?thesis using Cons e by (auto simp: low_def inord_plug)
qed

lemma link_cell:
  "\<lparr>nkey = k, nval = v, lchild = 0, parent = p, rchild = 0, balance = b, direction = d\<rparr> = mk (-1) k v b 0 0 p d"
  by (simp add: mk_def)

lemma zrep_new:
  assumes z: "zrep s fr c Lf" and n: "n = brk s"
    and b: "brk s' = Suc n" and r: "root s' = (if c = [] then n else root s)"
    and cs: "cells s' n = Some (mk (-1) k v 0 0 0 (upaddr c) (dir c))"
      "c \<noteq> [] \<Longrightarrow> cells s' (upaddr c) = map_option (set_refs (1 + dir c) n) (cells s (upaddr c))"
      "\<And>a. a \<noteq> n \<Longrightarrow> c = [] \<or> a \<noteq> upaddr c \<Longrightarrow> cells s' a = cells s a"
  shows "zrep s' fr c (Nd n k v 0 Lf Lf)"
proof (rule zrep_replace [OF z])
  note zd = zrepD [OF z]
  have n0: "n \<noteq> 0" using zd(1) n by (simp add: heap_ok_def)
  have nc: "n \<notin> set (cadrs c)" using crep_live [OF zd(3), of n] heap_ok_brk [OF zd(1), of n] n by auto
  show "tadrs (Nd n k v 0 Lf Lf) \<inter> set (cadrs c) = {}" using nc by simp
  show "rep (cells s') (upaddr c) (dir c) (Nd n k v 0 Lf Lf)" using cs(1) n0 by simp
  show "heap_ok s'"
    unfolding heap_ok_def
  proof (intro conjI allI impI)
    show "0 < brk s'" using b by simp
    show "cells s' 0 = None" using cs(3) [of 0] n0 zd(1) upaddr_zero [OF zd(3)] by auto
    show "cells s' a = None" if "brk s' \<le> a" for a
    proof -
      have "cells s a = None" using that b n zd(1) by (intro heap_ok_brk) auto
      then have "a \<notin> set (cadrs c)" using crep_live [OF zd(3), of a] by auto
      then have "c = [] \<or> a \<noteq> upaddr c" by auto
      then show ?thesis using cs(3) [of a] that b \<open>cells s a = None\<close> by simp
    qed
  qed
  show "cells s' a = cells s a" if "a \<notin> tadrs (Nd n k v 0 Lf Lf)" "a \<noteq> upaddr c" for a
    using that cs(3) by simp
qed (use cs r in auto)

lemma link_new_sim:
  assumes z: "zrep s fr c Lf" and c: "avl_ctx c 0" and l: "lowest s = low (plug c Lf)"
  obtains s' where "link_new (slot_of c) (dir c) key val s = (Inr (), s')"
    "zrep s' fr [] (grown c (Nd (brk s) key val 0 Lf Lf))"
    "lowest s' = low (grown c (Nd (brk s) key val 0 Lf Lf))" "avl_count s' = avl_count s + 1" "brk s' = Suc (brk s)"
proof -
  let ?n = "Nd (brk s) key val 0 Lf Lf"
  have g: "grows c ?n" using c by (simp add: grows_def)
  note zd = zrepD [OF z]
  have ng: "low (grown c ?n) = low (plug c ?n)" using inord_grown [OF g] by (rule low_inord)
  show thesis
  proof (cases "c = []")
    case True
    let ?s = "s\<lparr>cells := (cells s)(brk s := Some (mk (-1) key val 0 0 0 0 0)), brk := Suc (brk s),
      root := brk s, lowest := brk s, avl_count := avl_count s + 1\<rparr>"
    have "link_new (slot_of c) (dir c) key val s = (Inr (), ?s)"
      using True by (simp add: link_new_def avl_node_def_def alloc_def slot_of_def link_cell)
    moreover have "zrep ?s fr c ?n" by (rule zrep_new [OF z refl]) (use True in auto)
    ultimately show thesis using that [of ?s] True by (simp add: low_def)
  next
    case False
    obtain m where m: "cells s (upaddr c) = Some m" using crep_upaddr_live [OF zd(3)] upaddr_zero [OF zd(3)] False by auto
    have u: "upaddr c \<noteq> brk s" using m heap_ok_brk [OF zd(1), of "brk s"] by auto
    have d: "dir c \<noteq> 0" using avl_ctx_dir [OF c False] by (auto simp: dirn_def)
    let ?s = "s\<lparr>cells := (cells s)(upaddr c := Some (set_refs (1 + dir c) (brk s) m),
        brk s := Some (mk (-1) key val 0 0 0 (upaddr c) (dir c))), brk := Suc (brk s),
      lowest := if upaddr c = lowest s \<and> dir c < 0 then brk s else lowest s, avl_count := avl_count s + 1\<rparr>"
    have z1: "zrep ?s fr c ?n" by (rule zrep_new [OF z refl]) (use False m u in auto)
    obtain s' where s': "rebalanceAdded_loop (brk ?s) (rt ?n) (upaddr c) ?s = (Inr (), s')" "same_obj ?s s'"
      "zrep s' fr [] (grown c ?n)"
      by (rule rebalanceAdded_loop_sim [OF g False z1, of "brk ?s"]) (use zrep_bound [OF z1] in auto)
    have "link_new (slot_of c) (dir c) key val s = rebalanceAdded_g (brk s) ?s"
      using False m u d
      by (cases s) (simp add: link_new_def avl_node_def_def alloc_def slot_of_def link_cell fun_upd_twist [of "brk s" "upaddr c"])
    also have "\<dots> = (Inr (), s')" using s'(1)
      by (simp add: rebalanceAdded_g_def del: rebalanceAdded_loop.simps split del: if_split)
    finally show thesis using that [of s'] s' l low_insert [OF z False, of "brk s" key val 0] ng
      by (simp add: same_obj_def)
  qed
qed

section \<open>Removal\<close>

lemma extreme_loop_sim:
  "rep (cells s) par dr t \<Longrightarrow> t \<noteq> Lf \<Longrightarrow> ht t \<le> f \<Longrightarrow> dirn e \<Longrightarrow>
   extreme_loop f (rt t) (1 + e) s = (Inr (rt (snd (zdown e t c))), s)"
proof (induction t arbitrary: f par dr c)
  case (Nd a k v b l r)
  obtain f' where f': "f = Suc f'" using Nd.prems(3) by (cases f) auto
  let ?x = "if e < 0 then l else r"
  have x: "rep (cells s) a e ?x" "ht ?x \<le> f'" using Nd.prems f' by (auto simp: dirn_def)
  have r: "refs (mk (-1) k v b (rt l) (rt r) par dr) (1 + e) = rt ?x"
    using Nd.prems(4) by (auto simp: dirn_def)
  have IH: "?x \<noteq> Lf \<Longrightarrow> extreme_loop f' (rt ?x) (1 + e) s = (Inr (rt (snd (zdown e ?x c'))), s)" for c'
    using Nd.IH x Nd.prems(4) by (auto split: if_splits)
  show ?case using Nd.prems(1) f' r rt_zero [OF x(1)] IH by (auto split del: if_split)
qed simp

lemma set_parent_exec:
  "p = 0 \<or> (\<exists>m. cells s p = Some m \<and> direction m = d) \<Longrightarrow>
   set_parent p q s = (Inr (), s\<lparr>cells := reparent (cells s) p q d\<rparr>)"
  by (auto simp: set_parent_def reparent_def fun_eq_iff intro!: arg_cong [of _ _ "\<lambda>h. s\<lparr>cells := h\<rparr>"])

lemma rep_rt_dir: "rep h par dr t \<Longrightarrow> rt t = 0 \<or> (\<exists>m. h (rt t) = Some m \<and> direction m = dr)"
  by (cases t) auto

lemma zrep_frame_set:
  "zrep s fr c t \<Longrightarrow> (\<And>u. u \<notin> tadrs (plug c t) \<Longrightarrow> fr' u = fr u) \<Longrightarrow> zrep s fr' c t"
  by (simp add: zrep_def)

text \<open>
  The replacement \<open>R\<close> takes the place of the node \<open>a\<close>; the cell of \<open>a\<close> stays as it is, outside of
  the tree.  In the first form \<open>R\<close> is the child of \<open>a\<close>, in the second it is not part of the tree.
\<close>

lemma swap_child:
  assumes z: "zrep s fr c (nd d a k v b (nd d R kR vR bR w Lf) y)" and d: "dirn d"
    and rot: "rotated (cells s) (cells s') [R] [(y, R, - d)] c R"
    and R: "cells s' R = Some (mk d kR vR b (rt w) (rt y) (upaddr c) (dir c))"
    and r: "root s' = (if upaddr c = 0 then R else root s)" and b: "brk s' = brk s"
  shows "zrep s' (fr(a := cells s a)) c (nd d R kR vR b w y)"
proof (rule zrep_replace [OF zrep_frame_set [OF z, of "fr(a := cells s a)"]])
  note zd = zrepD [OF z]
  have reps: "rep (cells s) R d w" "rep (cells s) a (- d) y" "R \<noteq> 0" "a \<noteq> 0" using zd(4) d by (auto simp: rep_nd)
  have ds: "distinct (adrs (inord w) @ adrs (inord y) @ [R, a] @ cadrs c)"
    using zd(5-7) by (auto simp: inord_nd tadrs_def split: if_splits)
  show "heap_ok s'" by (rule heap_ok_dom [OF zd(1) b]) (rule rotated_dom [OF rot])
  have y: "rep (cells s') R (- d) y" by (rule rotated_tree [OF rot _ reps(2)]) (use ds in auto)
  have "cells s' u = cells s u" if "u \<in> tadrs w" for u
    using that rotated_same [OF rot, of u] ds upaddr_mem [of c] by (auto simp: tadrs_def)
  then have "rep (cells s') R d w" using reps(1) rep_cong by blast
  then show "rep (cells s') (upaddr c) (dir c) (nd d R kR vR b w y)" using R y d reps(3) by (simp add: rep_nd)
  show "distinct (adrs (inord (nd d R kR vR b w y)))" using ds by (auto simp: inord_nd)
  show "cells s' (upaddr c) = map_option (set_refs (1 + dir c) (rt (nd d R kR vR b w y))) (cells s (upaddr c))" if "c \<noteq> []"
  proof -
    have "upaddr c \<noteq> R" "upaddr c \<notin> set (adrs (inord y))" "upaddr c \<noteq> 0"
      using ds upaddr_in [OF that] upaddr_zero [OF zd(3)] that by auto
    then show ?thesis using rot reps_out [of "upaddr c" "[(y, R, - d)]" "cells s"] by (simp add: rotated_def rehang_def)
  qed
  show "cells s' u = cells s u"
    if "u \<notin> tadrs (nd d a k v b (nd d R kR vR bR w Lf) y)" "u \<noteq> upaddr c" for u
    using that by (intro rotated_same [OF rot]) (auto simp: tadrs_def [symmetric])
  show "cells s' u = (fr(a := cells s a)) u"
    if "u \<in> tadrs (nd d a k v b (nd d R kR vR bR w Lf) y)" "u \<notin> tadrs (nd d R kR vR b w y)" for u
  proof -
    have "u = a" using that by auto
    then show ?thesis using ds reps(4) upaddr_mem [of c] rotated_same [OF rot, of a] by auto
  qed
  show "tadrs (nd d R kR vR b w y) \<inter> set (cadrs c) = {}" using ds by (auto simp: tadrs_def inord_nd)
  show "root s' = (if c = [] then rt (nd d R kR vR b w y) else root s)" using r upaddr_zero [OF zd(3)] by simp
qed (auto simp: tadrs_plug)

lemma swap_far:
  assumes z: "zrep s fr c (nd d a k v b x y)" and d: "dirn d" and Rn: "R \<noteq> 0" "R \<notin> tadrs (nd d a k v b x y)" "R \<notin> set (cadrs c)"
    and rot: "rotated (cells s) (cells s') [R] [(y, R, - d), (x, R, d)] c R"
    and R: "cells s' R = Some (mk d kR vR b (rt x) (rt y) (upaddr c) (dir c))"
    and r: "root s' = (if upaddr c = 0 then R else root s)" and b: "brk s' = brk s"
  shows "zrep s' (fr(a := cells s a)) c (nd d R kR vR b x y)"
proof (rule zrep_replace [OF zrep_frame_set [OF z, of "fr(a := cells s a)"]])
  note zd = zrepD [OF z]
  have reps: "rep (cells s) a d x" "rep (cells s) a (- d) y" "a \<noteq> 0" using zd(4) d by (auto simp: rep_nd)
  have ds: "distinct (adrs (inord y) @ adrs (inord x) @ [R, a] @ cadrs c)"
    using zd(5-7) Rn by (auto simp: inord_nd tadrs_def split: if_splits)
  show "heap_ok s'" by (rule heap_ok_dom [OF zd(1) b]) (rule rotated_dom [OF rot])
  have y: "rep (cells s') R (- d) y" by (rule rotated_tree [OF rot _ reps(2)]) (use ds in auto)
  have x: "rep (cells s') R d x" by (rule rotated_tree [OF rot _ reps(1)]) (use ds in auto)
  show "rep (cells s') (upaddr c) (dir c) (nd d R kR vR b x y)" using R x y d Rn by (simp add: rep_nd)
  show "distinct (adrs (inord (nd d R kR vR b x y)))" using ds by (auto simp: inord_nd)
  show "cells s' (upaddr c) = map_option (set_refs (1 + dir c) (rt (nd d R kR vR b x y))) (cells s (upaddr c))" if "c \<noteq> []"
  proof -
    have "upaddr c \<noteq> R" "upaddr c \<notin> set (adrs (inord y))" "upaddr c \<notin> set (adrs (inord x))" "upaddr c \<noteq> 0"
      using ds upaddr_in [OF that] upaddr_zero [OF zd(3)] that by auto
    then show ?thesis using rot reps_out [of "upaddr c" "[(y, R, - d), (x, R, d)]" "cells s"]
      by (simp add: rotated_def rehang_def)
  qed
  show "cells s' u = cells s u"
    if "u \<notin> tadrs (nd d a k v b x y)" "u \<notin> tadrs (nd d R kR vR b x y)" "u \<noteq> upaddr c" for u
    using that by (intro rotated_same [OF rot]) (auto simp: tadrs_def [symmetric])
  show "cells s' u = (fr(a := cells s a)) u"
    if "u \<in> tadrs (nd d a k v b x y)" "u \<notin> tadrs (nd d R kR vR b x y)" for u
  proof -
    have "u = a" using that by auto
    then show ?thesis using ds reps(3) upaddr_mem [of c] rotated_same [OF rot, of a] by auto
  qed
  show "tadrs (nd d R kR vR b x y) \<inter> set (cadrs c) = {}" using ds by (auto simp: tadrs_def inord_nd)
  show "root s' = (if c = [] then rt (nd d R kR vR b x y) else root s)" using r upaddr_zero [OF zd(3)] by simp
qed (auto simp: tadrs_plug)

text \<open>The replacement is cut out of its place; its subtree \<open>w\<close> moves up.\<close>

lemma cut_out:
  assumes z: "zrep s fr (Fr e p k v b y # c) (nd e' R kR vR bR w Lf)" "dirn e'"
  obtains s' where "set_child p (1 + e) (rt w) e s = (Inr (), s')" "same_obj s s'" "root s' = root s"
    "zrep s' (fr(R := cells s R)) (Fr e p k v b y # c) w" "cells s' R = cells s R"
    "\<And>u. u \<notin> tadrs w \<Longrightarrow> u \<noteq> p \<Longrightarrow> cells s' u = cells s u"
proof -
  note f = zrep_frame [OF z(1)] and zd = zrepD [OF z(1)]
  have w: "R \<noteq> 0" "rep (cells s) R e' w" using f(5) z(2) by (auto simp: rep_nd)
  have ds: "R \<notin> tadrs w" "p \<notin> tadrs w" "R \<noteq> p" "p \<noteq> rt w" "distinct (adrs (inord w))" "tadrs w \<inter> set (cadrs (Fr e p k v b y # c)) = {}"
    using f(2,6) zd(5,7) rt_mem [of w] by (auto simp: inord_nd tadrs_def split: if_splits)
  let ?s = "s\<lparr>cells := reparent ((cells s)(p := Some (mk e k v b (rt w) (rt y) (upaddr c) (dir c)))) (rt w) p e\<rparr>"
  have ex: "set_child p (1 + e) (rt w) e s = (Inr (), ?s)"
    using f(1,3) ds(4) rep_rt_live [OF w(2)] by (subst set_child_exec) auto
  have u: "cells ?s u = cells s u" if "u \<notin> tadrs w" "u \<noteq> p" for u
    using that by (simp add: reparent_out)
  have "zrep ?s (fr(R := cells s R)) (Fr e p k v b y # c) w"
  proof (rule zrep_replace [OF zrep_frame_set [OF z(1), of "fr(R := cells s R)"]])
    show "heap_ok ?s" by (rule heap_ok_dom [OF f(16)]) (use f(3) in auto)
    show "rep (cells ?s) (upaddr (Fr e p k v b y # c)) (dir (Fr e p k v b y # c)) w"
      using w ds(2,5) by (auto intro!: rep_reparented [OF w(2)] reparent_upd)
    show "cells ?s (upaddr (Fr e p k v b y # c)) =
        map_option (set_refs (1 + dir (Fr e p k v b y # c)) (rt w)) (cells s (upaddr (Fr e p k v b y # c)))"
      using f(1,3) ds(2) by (simp add: reparent_out)
    show "cells ?s a = (fr(R := cells s R)) a" if "a \<in> tadrs (nd e' R kR vR bR w Lf)" "a \<notin> tadrs w" for a
      using that u [of a] ds by auto
    show "cells ?s a = cells s a"
      if "a \<notin> tadrs (nd e' R kR vR bR w Lf)" "a \<notin> tadrs w" "a \<noteq> upaddr (Fr e p k v b y # c)" for a
      using that u by simp
  qed (use ds in \<open>auto simp: tadrs_plug\<close>)
  then show thesis using that [of ?s] ex u ds by (auto simp: same_obj_def)
qed

lemma zdown_zrep:
  assumes "zrep s fr (Fr d a k v b y # c) x" "zdown e x [] = (cc, t)" "dirs cc"
  shows "zrep s fr (cc @ Fr d a k v b y # c) t"
  by (rule zrep_shift [OF _ _ assms(1)])
    (use assms(2,3) zrepD(2) [OF assms(1)] zdown_plug [OF assms(2)] in \<open>auto simp: plug_append\<close>)

lemma upaddr_append: "cc \<noteq> [] \<Longrightarrow> upaddr (cc @ c) = upaddr cc"
  by (cases cc rule: upaddr.cases) auto

lemma upaddr_local: "crep h (cc @ Fr d a k v b y # c) hole \<Longrightarrow> a \<notin> set (cadrs cc) \<Longrightarrow>
    upaddr (cc @ Fr d a k v b y # c) = a \<longleftrightarrow> cc = []"
  by (cases cc rule: upaddr.cases) auto

lemma cadrs_append [simp]: "cadrs (c @ c') = cadrs c @ cadrs c'"
  by (induction c rule: cadrs.induct) auto

text \<open>The part of \<^verbatim>\<open>remove_g\<close> that puts the replacement in the place of an inner node.\<close>

lemma remove_swap_sim:
  assumes z: "zrep s fr c (Nd a k v b l r)" and av: "avl (Nd a k v b l r)" "avl_ctx c (ht (Nd a k v b l r))"
    and inner: "\<not> (b = 0 \<and> l = Lf)"
  obtains s' where "remove_swap a (if b = 0 then 1 else b) s = (Inr (), s')" "same_obj s s'"
    "zrep s' (fr(a := cells s a)) [] (zremove c (Nd a k v b l r))"
proof -
  define d where "d = (if b = 0 then 1 else b)"
  let ?x = "if d < 0 then l else r" and ?y = "if d < 0 then r else l"
  obtain cc R kR vR bR w where zr: "dirn d" "zdown (- d) ?x [] = (cc, nd d R kR vR bR w Lf)"
    "shrinks (cc @ Fr d R kR vR b ?y # c) w"
    "zremove c (Nd a k v b l r) = shrunk (cc @ Fr d R kR vR b ?y # c) w" "all_dir (- d) cc"
    by (rule zremove_inner [OF av inner d_def])
  define x y where "x = ?x" and "y = ?y"
  note d = zr(1) and zr = zr(2-5) [folded x_def y_def]
  have t: "Nd a k v b l r = nd d a k v b x y" using d by (auto simp: nd_def x_def y_def dirn_def)
  have dn: "dirn (- d)" using d by (auto simp: dirn_def)
  have dc: "dirs cc" using all_dir_dirs [OF zr(4) dn] .
  have zx: "zrep s fr (Fr d a k v b y # c) x" using z t d by (simp add: zrep_up)
  have z1: "zrep s fr (cc @ Fr d a k v b y # c) (nd d R kR vR bR w Lf)" by (rule zdown_zrep [OF zx zr(1) dc])
  note f = zrep_frame [OF zx] and z1d = zrepD [OF z1] and zd = zrepD [OF z]
  have x0: "x \<noteq> Lf" using zr(1) by auto
  have ext: "extreme_loop (brk s) (rt x) (1 - d) s = (Inr R, s)"
    using extreme_loop_sim [OF f(5) x0 _ dn, of "brk s" "[]"] zrep_bound [OF zx] zr(1) by simp
  have a: "cells s a = Some (mk d k v b (rt x) (rt y) (upaddr c) (dir c))" using f(3) .
  have R: "R \<noteq> 0" "cells s R = Some (mk d kR vR bR (rt w) 0 (upaddr (cc @ Fr d a k v b y # c)) (dir (cc @ Fr d a k v b y # c)))"
    using z1d(4) d by (auto simp: rep_nd)
  have live: "rt y = 0 \<or> (\<exists>m. cells s (rt y) = Some m \<and> direction m = - d)"
    "upaddr c = 0 \<or> cells s (upaddr c) \<noteq> None"
    using rep_rt_dir [OF f(4)] crep_upaddr_live [OF f(14)] by auto
  have ds: "distinct (adrs (inord w) @ adrs (inord y) @ [R, a] @ cadrs c)" "R \<notin> set (cadrs cc)" "a \<notin> set (cadrs cc)"
    using z1d(5-7) by (auto simp: inord_nd tadrs_def split: if_splits)
  have ne: "R \<noteq> rt y" "a \<noteq> rt y" "R \<noteq> upaddr c" "a \<noteq> upaddr c" "R \<noteq> a"
    using ds(1) R(1) f(2) by (simp_all add: rt_off upaddr_off)
  have "\<exists>s1. remove_swap a d s = rebalanceRemoved_g (upaddr (cc @ Fr d R kR vR b y # c)) (dir (cc @ Fr d R kR vR b y # c)) s1 \<and>
    same_obj s s1 \<and> zrep s1 (fr(a := cells s a)) (cc @ Fr d R kR vR b y # c) w"
  proof (cases "cc = []")
    case True
    have x: "x = nd d R kR vR bR w Lf" using zr(1) True zdown_plug [OF zr(1)] by simp
    obtain s1 where s1: "remove_swap a d s = rebalanceRemoved_g R d s1" "same_obj s s1"
      "root s1 = (if upaddr c = 0 then R else root s)"
      "cells s1 R = Some (mk d kR vR b (rt w) (rt y) (upaddr c) (dir c))"
      "rotated (cells s) (cells s1) [R] [(y, R, - d)] c R"
      using a R ne live d f(2) ext True unfolding rotated_def
      by (simp add: remove_swap_def Let_def set_parent_exec set_top_exec same_obj_def
          rehang_upd rehang_reparent reparent_upd reparent2_upd cong: if_cong)
    have "zrep s1 (fr(a := cells s a)) c (nd d R kR vR b w y)"
      by (rule swap_child [OF _ d s1(5,4,3)]) (use z t x s1(2) in \<open>auto simp: same_obj_def\<close>)
    then show ?thesis using s1 True d by (auto simp: zrep_up)
  next
    case False
    then obtain p kp vp bp yp cc' where cc: "cc = Fr (- d) p kp vp bp yp # cc'" using zr(4) by (cases cc rule: upaddr.cases) auto
    let ?c = "cc' @ Fr d a k v b y # c"
    have z1': "zrep s fr (Fr (- d) p kp vp bp yp # ?c) (nd d R kR vR bR w Lf)" using z1 cc by simp
    obtain s1 where s1: "set_child p (1 - d) (rt w) (- d) s = (Inr (), s1)" "same_obj s s1" "root s1 = root s"
      "zrep s1 (fr(R := cells s R)) (Fr (- d) p kp vp bp yp # ?c) w" "cells s1 R = cells s R"
      "\<And>u. u \<notin> tadrs w \<Longrightarrow> u \<noteq> p \<Longrightarrow> cells s1 u = cells s u"
      using cut_out [OF z1' d] by (metis diff_conv_add_uminus)
    define x' where "x' = plug cc w"
    have x: "x = plug cc (nd d R kR vR bR w Lf)" using zdown_plug [OF zr(1)] by simp
    have rx: "rt x' = rt x" using rt_plug [OF False] x x'_def by blast
    have z2: "zrep s1 (fr(R := cells s R)) (Fr d a k v b y # c) x'"
      by (rule zrep_shift [OF _ _ s1(4)]) (use zrepD(2) [OF zx] cc x'_def in \<open>auto simp: plug_append\<close>)
    note f2 = zrep_frame [OF z2]
    have live2: "rt y = 0 \<or> (\<exists>m. cells s1 (rt y) = Some m \<and> direction m = - d)"
      "upaddr c = 0 \<or> cells s1 (upaddr c) \<noteq> None"
      using rep_rt_dir [OF f2(4)] crep_upaddr_live [OF f2(14)] by auto
    have x'0: "rt x' \<noteq> 0" using rx x0 rt_zero [OF f(5)] by simp
    then have x'L: "x' \<noteq> Lf" by auto
    obtain m where m: "cells s1 (rt x') = Some m" "direction m = d" using rep_rt_dir [OF f2(5)] x'0 by auto
    have ds2: "distinct (adrs (inord x') @ adrs (inord y) @ [R, a] @ cadrs c)" "p \<noteq> a" "p \<noteq> R"
      using z1d(5-7) ds cc f2(6-13) set_adrs_plug [of cc w] by (auto simp: x'_def inord_nd tadrs_def split: if_splits)
    have ne2: "R \<noteq> rt x'" "a \<noteq> rt x'" using ds2(1) R(1) f(2) by (simp_all add: rt_off)
    have xy: "rt x' \<noteq> rt y" using rt_in [OF x'L] rt_mem [of y] x'0 f2(8) by auto
    have a2: "cells s1 a = Some (mk d k v b (rt x') (rt y) (upaddr c) (dir c))" using f2(3) .
    obtain s2 where s2: "remove_swap a d s = rebalanceRemoved_g p (- d) s2" "same_obj s1 s2"
      "root s2 = (if upaddr c = 0 then R else root s1)"
      "cells s2 R = Some (mk d kR vR b (rt x') (rt y) (upaddr c) (dir c))"
      "rotated (cells s1) (cells s2) [R] [(y, R, - d), (x', R, d)] c R"
      using a a2 R s1(1,5) ne ne2 xy x'0 m live2 d f(2) ext cc ds2(2,3) rx unfolding rotated_def
      by (simp add: remove_swap_def Let_def set_parent_exec set_top_exec same_obj_def
          rehang_upd rehang_reparent reparent_upd reparent2_upd cong: if_cong)
    have "zrep s2 ((fr(R := cells s R))(a := cells s1 a)) c (nd d R kR vR b x' y)"
      by (rule swap_far [OF iffD1 [OF zrep_up z2, THEN conjunct2] d R(1) _ _ s2(5,4,3)])
        (use ds2 s2(2) in \<open>auto simp: same_obj_def tadrs_def [symmetric]\<close>)
    then have "zrep s2 (fr(a := cells s a)) (Fr d R kR vR b y # c) x'"
      using a a2 rx d by (auto simp: zrep_up intro: zrep_frame_set simp: tadrs_plug)
    then have "zrep s2 (fr(a := cells s a)) (cc @ Fr d R kR vR b y # c) w"
      by (rule zrep_shift [rotated 2]) (use zrepD(2) [OF z1] in \<open>auto simp: plug_append x'_def\<close>)
    then show ?thesis using s2(1,2) s1(2) cc same_obj_trans by auto
  qed
  then obtain s1 where s1: "remove_swap a d s =
      rebalanceRemoved_g (upaddr (cc @ Fr d R kR vR b y # c)) (dir (cc @ Fr d R kR vR b y # c)) s1"
    "same_obj s s1" "zrep s1 (fr(a := cells s a)) (cc @ Fr d R kR vR b y # c) w"
    by blast
  obtain s2 where s2: "rebalanceRemoved_loop (brk s1) (upaddr (cc @ Fr d R kR vR b y # c))
      (dir (cc @ Fr d R kR vR b y # c)) s1 = (Inr (), s2)" "same_obj s1 s2"
    "zrep s2 (fr(a := cells s a)) [] (shrunk (cc @ Fr d R kR vR b y # c) w)"
    by (rule rebalanceRemoved_loop_sim [OF zr(2) _ s1(3), of "brk s1"]) (use zrep_bound [OF s1(3)] in auto)
  show thesis
    by (rule that [of s2])
      (use s1 s2 same_obj_trans zr(3) d_def in \<open>auto simp: rebalanceRemoved_g_def\<close>)
qed

end
