(* ===== verification/Drt_Dict.thy ===== *)
theory Drt_Dict
  imports Drt_Prelude
begin

text \<open>
  What the associative containers (\<^verbatim>\<open>TAvl\<close>, \<^verbatim>\<open>THash\<close>) promise their users: lookup, insertion of a
  new key, insertion or replacement, removal and the number of entries, as laws over the map a
  container stands for.  A client that only uses these operations sees a finite map.
\<close>

datatype ('k, 'v) dict_op = Lookup 'k | Create 'k 'v | Replace 'k 'v | Remove 'k

datatype 'v dict_answer = Found "'v option" | Done bool

fun spec_op :: "('k, 'v) dict_op \<Rightarrow> ('k \<rightharpoonup> 'v) \<Rightarrow> 'v dict_answer \<times> ('k \<rightharpoonup> 'v)" where
  "spec_op (Lookup k) m = (Found (m k), m)"
| "spec_op (Create k v) m = (Done (m k = None), if m k = None then m(k \<mapsto> v) else m)"
| "spec_op (Replace k v) m = (Done (m k = None), m(k \<mapsto> v))"
| "spec_op (Remove k) m = (Done (m k \<noteq> None), m(k := None))"

fun spec_run :: "('k, 'v) dict_op list \<Rightarrow> ('k \<rightharpoonup> 'v) \<Rightarrow> 'v dict_answer list \<times> ('k \<rightharpoonup> 'v)" where
  "spec_run [] m = ([], m)"
| "spec_run (p # ps) m = (let (a, m1) = spec_op p m; (as, m2) = spec_run ps m1 in (a # as, m2))"

text \<open>The same sequence of calls on a container, given by its four operations.\<close>

definition dict_step :: "('k \<Rightarrow> ('s, 'v option) smethod) \<Rightarrow> ('k \<Rightarrow> 'v \<Rightarrow> ('s, bool) smethod) \<Rightarrow>
    ('k \<Rightarrow> 'v \<Rightarrow> ('s, bool) smethod) \<Rightarrow> ('k \<Rightarrow> ('s, bool) smethod) \<Rightarrow>
    ('k, 'v) dict_op \<Rightarrow> ('s, 'v dict_answer) smethod" where
  "dict_step lookup create replace remove p = (case p of
     Lookup k \<Rightarrow> sbind (lookup k) (\<lambda>x. sreturn (Found x))
   | Create k v \<Rightarrow> sbind (create k v) (\<lambda>b. sreturn (Done b))
   | Replace k v \<Rightarrow> sbind (replace k v) (\<lambda>b. sreturn (Done b))
   | Remove k \<Rightarrow> sbind (remove k) (\<lambda>b. sreturn (Done b)))"

fun dict_run :: "(('k, 'v) dict_op \<Rightarrow> ('s, 'v dict_answer) smethod) \<Rightarrow> ('k, 'v) dict_op list \<Rightarrow>
    ('s, 'v dict_answer list) smethod" where
  "dict_run step [] = sreturn []"
| "dict_run step (p # ps) = sbind (step p) (\<lambda>a. sbind (dict_run step ps) (\<lambda>as. sreturn (a # as)))"

locale dict =
  fixes inv :: "'s \<Rightarrow> bool" and abs :: "'s \<Rightarrow> 'k \<rightharpoonup> 'v" and count :: "'s \<Rightarrow> nat"
    and lookup :: "'k \<Rightarrow> ('s, 'v option) smethod"
    and create :: "'k \<Rightarrow> 'v \<Rightarrow> ('s, bool) smethod"
    and replace :: "'k \<Rightarrow> 'v \<Rightarrow> ('s, bool) smethod"
    and remove :: "'k \<Rightarrow> ('s, bool) smethod"
  assumes lookup_law: "inv s \<Longrightarrow> lookup k s = (Inr (abs s k), s)"
    and create_law: "inv s \<Longrightarrow> \<exists>s'. create k v s = (Inr (abs s k = None), s') \<and> inv s' \<and>
      abs s' = (if abs s k = None then (abs s)(k \<mapsto> v) else abs s)"
    and replace_law: "inv s \<Longrightarrow> \<exists>s'. replace k v s = (Inr (abs s k = None), s') \<and> inv s' \<and>
      abs s' = (abs s)(k \<mapsto> v)"
    and remove_law: "inv s \<Longrightarrow> \<exists>s'. remove k s = (Inr (abs s k \<noteq> None), s') \<and> inv s' \<and>
      abs s' = (abs s)(k := None)"
    and count_law: "inv s \<Longrightarrow> finite (dom (abs s)) \<and> count s = card (dom (abs s))"
begin

lemma step_refines:
  assumes "inv s" "spec_op p (abs s) = (a, m)"
  shows "\<exists>s'. dict_step lookup create replace remove p s = (Inr a, s') \<and> inv s' \<and> abs s' = m"
proof (cases p)
  case (Lookup k)
  then show ?thesis using assms lookup_law [of s k]
    by (auto simp: dict_step_def sbind_def sreturn_def)
next
  case (Create k v)
  then show ?thesis using assms create_law [of s k v]
    by (auto simp: dict_step_def sbind_def sreturn_def split: if_splits)
next
  case (Replace k v)
  then show ?thesis using assms replace_law [of s k v]
    by (auto simp: dict_step_def sbind_def sreturn_def)
next
  case (Remove k)
  then show ?thesis using assms remove_law [of s k]
    by (auto simp: dict_step_def sbind_def sreturn_def)
qed

lemma run_refines:
  assumes "inv s" "spec_run ps (abs s) = (as, m)"
  shows "\<exists>s'. dict_run (dict_step lookup create replace remove) ps s = (Inr as, s') \<and> inv s' \<and> abs s' = m \<and>
    count s' = card (dom m)"
  using assms
proof (induction ps arbitrary: s as)
  case Nil
  then show ?case using count_law [of s] by (simp add: sreturn_def)
next
  case (Cons p ps)
  obtain a m1 as' where sp: "spec_op p (abs s) = (a, m1)" "spec_run ps m1 = (as', m)" "as = a # as'"
    using Cons.prems(2) by (auto split: prod.splits)
  obtain s1 where s1: "dict_step lookup create replace remove p s = (Inr a, s1)" "inv s1" "abs s1 = m1"
    using step_refines [OF Cons.prems(1) sp(1)] by blast
  obtain s2 where "dict_run (dict_step lookup create replace remove) ps s1 = (Inr as', s2)" "inv s2" "abs s2 = m"
    "count s2 = card (dom m)"
    using Cons.IH [of s1 as'] s1(2,3) sp(2) by blast
  then show ?case using s1 sp(3) by (auto simp: sbind_def sreturn_def)
qed

end

end
