(* ===== verification/Drt_Avl_Ops.thy ===== *)
theory Drt_Avl_Ops
  imports Drt_Avl_Rep Drt_Dict
begin

text \<open>
  The operations of the AVL container on valid states: each keeps the invariant and acts on the map
  of the tree as a dictionary operation.  \<open>avl_dict\<close> interprets the dictionary interface with them.
  The last part covers iteration, clearing, moving, and the two operations that do not do what
  they are meant to: \<^verbatim>\<open>run_g\<close> and \<^verbatim>\<open>ncreate_g\<close>.
\<close>

section \<open>The map a tree stands for\<close>

definition amap :: "('k, 'v) tree \<Rightarrow> 'k \<rightharpoonup> 'v" where
  "amap t = map_of (map snd (inord t))"

lemma map_of_middle:
  "k \<notin> set (keys xs) \<Longrightarrow> map_of (map snd (xs @ (a, k, v) # ys)) = (map_of (map snd (xs @ ys)))(k \<mapsto> v)"
proof (induction xs)
  case (Cons e xs)
  then show ?case by (cases e) (auto simp: fun_upd_twist)
qed simp

lemma map_of_absent: "k \<notin> set (keys xs) \<Longrightarrow> map_of (map snd xs) k = None"
proof (induction xs)
  case (Cons e xs)
  then show ?case by (cases e) auto
qed simp

lemma dom_amap: "dom (amap t) = set (keys (inord t))"
  by (force simp: amap_def dom_map_of_conv_image_fst keys_def)

lemma avl_size_card: "bst t \<Longrightarrow> card (dom (amap t)) = length (inord t)"
  using distinct_card [of "keys (inord t)"] by (simp add: dom_amap bst_def strict_sorted_iff) (simp add: keys_def)

text \<open>Looking for a key ends in its node or in the hole where it belongs.\<close>

lemma around_keys: "around key c \<Longrightarrow> key \<notin> set (keys (lefts c)) \<and> key \<notin> set (keys (rights c))"
  by (auto simp: around_def)

lemma zlocate_amap:
  assumes "bst t" "zlocate key t [] = (c, t')"
  shows "around key c" "plug c t' = t" "amap t key = (case t' of Lf \<Rightarrow> None | Nd a k v b l r \<Rightarrow> Some v)"
    "case t' of Lf \<Rightarrow> True | Nd a k v b l r \<Rightarrow> k = key"
proof -
  show a: "around key c" using zlocate_around [OF assms(2,1)] by (simp add: around_def)
  show p: "plug c t' = t" using zlocate_plug [OF assms(2)] by simp
  show k: "case t' of Lf \<Rightarrow> True | Nd a k v b l r \<Rightarrow> k = key" using zlocate_hit [of key t "[]" c] assms(2) by (cases t') auto
  show "amap t key = (case t' of Lf \<Rightarrow> None | Nd a k v b l r \<Rightarrow> Some v)"
  proof (cases t')
    case Lf
    then show ?thesis using around_keys [OF a] p map_of_absent [of key "lefts c @ rights c"]
      by (simp add: amap_def inord_plug p [symmetric])
  next
    case (Nd n k' v b l r)
    have "sorted_wrt (<) (keys (lefts c @ inord l @ (n, key, v) # inord r @ rights c))"
      using assms(1) p k Nd by (simp add: bst_def inord_plug p [symmetric])
    then have "key \<notin> set (keys (lefts c @ inord l))" by (fastforce simp: sorted_wrt_append)
    from map_of_middle [OF this, of n v "inord r @ rights c"] show ?thesis using p k Nd
      by (simp add: amap_def inord_plug p [symmetric] del: map_append)
  qed
qed

lemma amap_insert:
  assumes "around key c" "inord t' = lefts c @ (n, key, v) # rights c"
  shows "amap t' = (amap (plug c Lf))(key \<mapsto> v)"
  using map_of_middle [of key "lefts c" n v "rights c"] around_keys [OF assms(1)] assms(2)
  by (simp add: amap_def inord_plug)

lemma bst_insert:
  assumes "around key c" "bst (plug c Lf)" "inord t' = lefts c @ (n, key, v) # rights c"
  shows "bst t'"
  using assms by (fastforce simp: bst_def around_def inord_plug sorted_wrt_append)

lemma bst_plug_mid:
  assumes "bst (plug c (Nd a k v b l r))"
  shows "k \<notin> set (keys (lefts c @ inord l))" "k \<notin> set (keys (inord r @ rights c))"
    "sorted_wrt (<) (keys (lefts c @ inord l @ inord r @ rights c))"
  using assms by (fastforce simp: bst_def inord_plug sorted_wrt_append)+

section \<open>Operations on valid states\<close>

lemma create_sim:
  assumes inv: "avl_inv s fr t" and z: "zlocate key t [] = (c, t')"
  shows "locate_slot (brk s) key RootSlot 0 s = (Inr (slot_of c, if t' = Lf then dir c else 0), s)"
    "read_slot (slot_of c) s = (Inr (rt t'), s)" "zrep s fr c t'"
    "t' = Lf \<Longrightarrow> \<exists>s'. link_new (slot_of c) (dir c) key val s = (Inr (), s') \<and>
      avl_inv s' fr (grown c (Nd (brk s) key val 0 Lf Lf)) \<and>
      amap (grown c (Nd (brk s) key val 0 Lf Lf)) = (amap t)(key \<mapsto> val)"
proof -
  have zs: "zrep s fr [] t" and b: "bst t" "avl t" using inv by (auto simp: avl_inv_def)
  have l: "locate_slot (brk s) key (slot_of ([] :: ('a, 'b) frame list)) (dir ([] :: ('a, 'b) frame list)) s =
      (Inr (slot_of c, if t' = Lf then dir c else 0), s) \<and> zrep s fr c t'"
    by (rule locate_slot_sim [OF zs _ z]) (use zrep_bound [OF zs] in simp)
  then show "locate_slot (brk s) key RootSlot 0 s = (Inr (slot_of c, if t' = Lf then dir c else 0), s)"
    and zc: "zrep s fr c t'" by (auto simp: slot_of_def)
  show "read_slot (slot_of c) s = (Inr (rt t'), s)" by (rule read_slot_sim [OF zc])
  note za = zlocate_amap [OF b(1) z]
  assume t': "t' = Lf"
  have c0: "avl_ctx c 0" using zlocate_avl [OF z b(2)] t' by simp
  let ?n = "Nd (brk s) key val 0 Lf Lf" and ?t = "grown c (Nd (brk s) key val 0 Lf Lf)"
  have g: "grows c ?n" using c0 by (simp add: grows_def)
  have i: "inord ?t = lefts c @ (brk s, key, val) # rights c" using inord_grown [OF g] by (simp add: inord_plug)
  obtain s' where s': "link_new (slot_of c) (dir c) key val s = (Inr (), s')" "zrep s' fr [] ?t"
    "lowest s' = low ?t" "avl_count s' = avl_count s + 1" "brk s' = Suc (brk s)"
    by (rule link_new_sim [of s fr c key val]) (use zc t' c0 inv za(2) in \<open>auto simp: avl_inv_def\<close>)
  have "brk s \<notin> tadrs t"
    using rep_live [OF zrepD(4) [OF zs], of "brk s"] heap_ok_brk [OF zrepD(1) [OF zs], of "brk s"] by auto
  then have "fr (brk s) = None" using zrepD(11) [OF zs] heap_ok_brk [OF zrepD(1) [OF zs], of "brk s"] by simp
  moreover have "tadrs ?t = insert (brk s) (tadrs t)" using i za(2) t' inord_plug [of c Lf] by (auto simp: tadrs_def)
  moreover have "length (inord ?t) = Suc (length (inord t))" using i za(2) t' inord_plug [of c Lf] by auto
  ultimately have "avl_inv s' fr ?t"
    using inv s' avl_grown [OF g] bst_insert [OF za(1) _ i] b(1) za(2) t' by (auto simp: avl_inv_def)
  then show "\<exists>s'. link_new (slot_of c) (dir c) key val s = (Inr (), s') \<and> avl_inv s' fr ?t \<and>
      amap ?t = (amap t)(key \<mapsto> val)"
    using s'(1) amap_insert [OF za(1) i] za(2) t' by auto
qed

lemma avl_create_inv:
  assumes inv: "avl_inv s fr t"
  shows "\<exists>s' t'. avl_create_g k v s = (Inr (amap t k = None), s') \<and> avl_inv s' fr t' \<and>
    amap t' = (if amap t k = None then (amap t)(k \<mapsto> v) else amap t)"
proof -
  obtain c t' where z: "zlocate k t [] = (c, t')" by (cases "zlocate k t []") auto
  note cs = create_sim [OF inv z]
  have b: "bst t" using inv by (simp add: avl_inv_def)
  note za = zlocate_amap [OF b z]
  show ?thesis
  proof (cases t')
    case Lf
    then show ?thesis using cs(1,2) cs(4) [OF Lf, of v] za(3) by (auto simp: avl_create_g_def)
  next
    case (Nd a k' v' b l r)
    then have "a \<noteq> 0" using zrepD(4) [OF cs(3)] by simp
    then show ?thesis using cs(1,2) Nd za(3) inv by (auto simp: avl_create_g_def)
  qed
qed

lemma zrep_value:
  assumes z: "zrep s fr c (Nd a k v b l r)"
  shows "zrep (s\<lparr>cells := (cells s)(a := Some (mk (-1) k v' b (rt l) (rt r) (upaddr c) (dir c)))\<rparr>) fr c (Nd a k v' b l r)"
    (is "zrep ?s fr c ?t")
proof (rule zrep_replace [OF z])
  note zd = zrepD [OF z]
  have a: "cells s a = Some (mk (-1) k v b (rt l) (rt r) (upaddr c) (dir c))" "a \<noteq> 0" using zd(4) by auto
  have n: "a \<notin> tadrs l" "a \<notin> tadrs r" "a \<notin> set (cadrs c)" using zd(5,7) by (auto simp: tadrs_def)
  show "heap_ok ?s" using heap_ok_modify [OF zd(1), of a] a by simp
  have "rep (cells ?s) a (-1) l = rep (cells s) a (-1) l" "rep (cells ?s) a 1 r = rep (cells s) a 1 r"
    using n by (auto intro!: rep_cong)
  then show "rep (cells ?s) (upaddr c) (dir c) ?t" using zd(4) by simp
  show "cells ?s (upaddr c) = map_option (set_refs (1 + dir c) (rt ?t)) (cells s (upaddr c))" if "c \<noteq> []"
  proof -
    have "upaddr c \<noteq> a" using n upaddr_in [OF that] by auto
    then show ?thesis using zd(2,3) that by (cases c rule: upaddr.cases) auto
  qed
qed (use zrepD(5,7,8) [OF z] in auto)

lemma avl_replace_inv:
  assumes inv: "avl_inv s fr t"
  shows "\<exists>s' t'. avl_replace_g k v s = (Inr (amap t k = None), s') \<and> avl_inv s' fr t' \<and> amap t' = (amap t)(k \<mapsto> v)"
proof -
  obtain c t' where z: "zlocate k t [] = (c, t')" by (cases "zlocate k t []") auto
  note cs = create_sim [OF inv z]
  have b: "bst t" using inv by (simp add: avl_inv_def)
  note za = zlocate_amap [OF b z]
  show ?thesis
  proof (cases t')
    case Lf
    then show ?thesis using cs(1,2) cs(4) [OF Lf, of v] za(3) by (auto simp: avl_replace_g_def)
  next
    case (Nd a k' v' b l r)
    let ?t = "plug c (Nd a k v b l r)"
    have k: "k' = k" using za(4) Nd by simp
    have a: "a \<noteq> 0" "cells s a = Some (mk (-1) k v' b (rt l) (rt r) (upaddr c) (dir c))"
      using zrepD(4) [OF cs(3)] Nd k by auto
    let ?s = "s\<lparr>cells := (cells s)(a := Some (mk (-1) k v b (rt l) (rt r) (upaddr c) (dir c)))\<rparr>"
    have "zrep ?s fr [] ?t" using zrep_closed [OF zrep_value [of s fr c a k v' b l r v]] cs(3) Nd k by simp
    moreover have "avl ?t = avl t" using za(2) Nd k zrepD(2) [OF cs(3)] by (auto simp: avl_plug)
    moreover have "keys (inord ?t) = keys (inord t)" "tadrs ?t = tadrs t" "low ?t = low t"
      "length (inord ?t) = length (inord t)"
      using za(2) Nd k by (auto simp: inord_plug tadrs_def low_def split: list.splits)
    ultimately have "avl_inv ?s fr ?t" using inv by (simp add: avl_inv_def bst_def)
    moreover have "amap ?t = (amap t)(k \<mapsto> v)"
      using bst_plug_mid(1) [of c a k v' b l r] b za(2) Nd k map_of_middle [of k "lefts c @ inord l" a _ "inord r @ rights c"]
      by (auto simp: amap_def inord_plug simp del: map_append)
    ultimately show ?thesis using cs(1,2) Nd a za(3) by (auto simp: avl_replace_g_def)
  qed
qed

lemma avl_accValue_inv:
  assumes inv: "avl_inv s fr t"
  shows "avl_accValue k s = (Inr (amap t k), s)"
proof -
  obtain c t' where z: "zlocate k t [] = (c, t')" by (cases "zlocate k t []") auto
  have b: "bst t" "zrep s fr [] t" using inv by (auto simp: avl_inv_def)
  note za = zlocate_amap [OF b(1) z] and cs = create_sim [OF inv z]
  have "avl_find_g k s = (Inr (rt t'), s)" using find_g_sim [OF b(2)] z by simp
  then show ?thesis using za(3) zrepD(4) [OF cs(3)] by (cases t') (auto simp: avl_accValue_def)
qed

section \<open>Removal on valid states\<close>

lemma low_remove:
  assumes z: "zrep s fr c (Nd a k v b l r)" and av: "avl (Nd a k v b l r)"
    and i: "inord t' = lefts c @ inord l @ inord r @ rights c"
  shows "low t' = (if a = low (plug c (Nd a k v b l r)) then if rt r \<noteq> 0 then rt r else upaddr c
    else low (plug c (Nd a k v b l r)))"
proof (cases "lefts c @ inord l")
  case Nil
  then have l: "l = Lf" "lefts c = []" by (cases l; auto)+
  have r: "r = Lf \<or> (\<exists>a' k' v' b'. r = Nd a' k' v' b' Lf Lf)"
  proof (cases r)
    case (Nd a' k' v' b' l' r')
    then have "ht l' = 0" "ht r' = 0" using av l by auto
    then show ?thesis using Nd by (cases l'; cases r') auto
  qed simp
  have "low t' = upaddr c" if "r = Lf"
    using that i l by (cases c rule: upaddr.cases) (auto simp: low_def split: if_splits)
  moreover have "0 \<notin> tadrs r" using zrepD(9) [OF z] by simp
  ultimately show ?thesis using r i l by (auto simp: low_def inord_plug)
next
  case (Cons e es)
  obtain a0 k0 v0 where e: "e = (a0, k0, v0)" by (cases e)
  have "distinct (adrs ((lefts c @ inord l) @ (a, k, v) # inord r @ rights c))"
    using z by (simp add: zrep_def inord_plug)
  then have "a0 \<noteq> a" using Cons e by auto
  moreover have "inord t' = (lefts c @ inord l) @ inord r @ rights c"
    "inord (plug c (Nd a k v b l r)) = (lefts c @ inord l) @ (a, k, v) # inord r @ rights c"
    using i by (simp_all add: inord_plug)
  ultimately show ?thesis using Cons e by (simp add: low_def)
qed

lemma zrep_dealloc:
  assumes z: "zrep s (fr(a := Some n)) [] t" and a: "a \<notin> tadrs t" "fr a = None"
  shows "dealloc a s = (Inr (), s\<lparr>cells := (cells s)(a := None)\<rparr>)"
    "zrep (s\<lparr>cells := (cells s)(a := None)\<rparr>) fr [] t"
proof -
  have "cells s a = Some n" using zrepD(11) [OF z] a by simp
  then show "dealloc a s = (Inr (), s\<lparr>cells := (cells s)(a := None)\<rparr>)" by simp
  have "rep ((cells s)(a := None)) 0 0 t = rep (cells s) 0 0 t" using a by (intro rep_cong) auto
  then show "zrep (s\<lparr>cells := (cells s)(a := None)\<rparr>) fr [] t"
    using z a by (auto simp: zrep_def heap_ok_def)
qed


lemma zrep_obj: "zrep (s\<lparr>lowest := x\<rparr>) fr c t = zrep s fr c t" "zrep (s\<lparr>avl_count := n\<rparr>) fr c t = zrep s fr c t"
  by (auto simp: zrep_def heap_ok_def)

text \<open>A leaf below another node is cut off.\<close>

lemma remove_leaf_sim:
  assumes z: "zrep s fr c (Nd a k v 0 Lf Lf)" and c: "c \<noteq> []" "avl_ctx c 1"
  obtains s1 s' where "modify (upaddr c) (set_refs (1 + dir c) 0) s = (Inr (), s1)"
    "rebalanceRemoved_g (upaddr c) (dir c) s1 = (Inr (), s')" "same_obj s s'"
    "zrep s' (fr(a := cells s a)) [] (shrunk c Lf)"
proof -
  note zd = zrepD [OF z]
  obtain m where m: "cells s (upaddr c) = Some m" using crep_upaddr_live [OF zd(3)] upaddr_zero [OF zd(3)] c by auto
  have n: "a \<noteq> upaddr c" using zd(7) upaddr_in [OF c(1)] by auto
  let ?s = "s\<lparr>cells := (cells s)(upaddr c := Some (set_refs (1 + dir c) 0 m))\<rparr>"
  have z1: "zrep ?s (fr(a := cells s a)) c Lf"
  proof (rule zrep_replace [OF zrep_frame_set [OF z, of "fr(a := cells s a)"]])
    show "heap_ok ?s" using heap_ok_modify [OF zd(1), of "upaddr c"] m by simp
  qed (use m n c in \<open>auto simp: tadrs_plug\<close>)
  have sh: "shrinks c Lf" using c by (simp add: shrinks_def)
  obtain s' where "rebalanceRemoved_loop (brk ?s) (upaddr c) (dir c) ?s = (Inr (), s')" "same_obj ?s s'"
    "zrep s' (fr(a := cells s a)) [] (shrunk c Lf)"
    by (rule rebalanceRemoved_loop_sim [OF sh c(1) z1, of "brk ?s"]) (use zrep_bound [OF z1] in auto)
  then show thesis using that [of ?s s'] m by (auto simp: rebalanceRemoved_g_def same_obj_def)
qed

lemma remove_node_sim:
  assumes inv: "avl_inv s fr t" and z: "zlocate k t [] = (c, Nd a k' v b l r)"
  shows "\<exists>s'. avl_remove_g k s = (Inr True, s') \<and> avl_inv s' fr (zremove c (Nd a k' v b l r))"
proof -
  let ?n = "Nd a k' v b l r" and ?t = "zremove c (Nd a k' v b l r)"
  have b: "bst t" "avl t" "zrep s fr [] t" and low: "lowest s = low t" and cnt: "avl_count s = length (inord t)"
    and fr: "\<And>u. u \<in> tadrs t \<Longrightarrow> fr u = None"
    using inv by (auto simp: avl_inv_def)
  note za = zlocate_amap [OF b(1) z] and zs = create_sim(3) [OF inv z]
  note zd = zrepD [OF zs]
  have k: "k' = k" using za(4) by simp
  have av: "avl ?n" "avl_ctx c (ht ?n)" using zlocate_avl [OF z b(2)] by auto
  note zc = zremove_correct [OF av]
  have n: "a \<noteq> 0" "cells s a = Some (mk (-1) k' v b (rt l) (rt r) (upaddr c) (dir c))" using zd(4) by auto
  have find: "avl_find_g k s = (Inr a, s)" using find_g_sim [OF b(3), of k] z by simp
  have it: "inord t = lefts c @ inord l @ (a, k', v) # inord r @ rights c" using za(2) by (auto simp: inord_plug)
  have ad: "a \<notin> tadrs ?t" "tadrs ?t \<subseteq> tadrs t" "fr a = None"
    using zc it zrepD(5) [OF b(3)] fr by (auto simp: tadrs_def)
  have bst: "bst ?t" using bst_plug_mid(3) [of c a k' v b l r] b(1) za(2) zc by (simp add: bst_def)
  have len: "length (inord t) - 1 = length (inord ?t)" using it zc by simp
  have lowt: "low ?t = (if a = low t then if rt r \<noteq> 0 then rt r else upaddr c else low t)"
    using low_remove [OF zs av(1)] zc za(2) by simp
  define s0 where "s0 = s\<lparr>lowest := low ?t, avl_count := length (inord ?t)\<rparr>"
  have z0: "zrep s0 fr c ?n" using zs by (simp add: s0_def zrep_obj)
  have finish: "\<exists>s'. X = (Inr True, s') \<and> avl_inv s' fr ?t"
    if "zrep s2 (fr(a := cells s0 a)) [] ?t" "lowest s2 = low ?t" "avl_count s2 = length (inord ?t)"
      "X = sbind (dealloc a) (\<lambda>_. sreturn True) s2" for s2 X
    using zrep_dealloc [of s2 fr a "mk (-1) k' v b (rt l) (rt r) (upaddr c) (dir c)" ?t] that n ad bst zc fr
    by (auto simp: avl_inv_def s0_def zrep_obj low_def)
  have start: "avl_remove_g k s =
      (if a = low t \<and> rt r = 0 \<and> upaddr c = 0 then sbind (putf (\<lambda>s. s\<lparr>root := 0\<rparr>)) (\<lambda>_. sbind (dealloc a) (\<lambda>_. sreturn True))
       else if b = 0 \<and> rt l = 0 then
         sbind (modify (upaddr c) (set_refs (1 + dir c) 0)) (\<lambda>_.
         sbind (rebalanceRemoved_g (upaddr c) (dir c)) (\<lambda>_. sbind (dealloc a) (\<lambda>_. sreturn True)))
       else sbind (remove_swap a (if b = 0 then 1 else b)) (\<lambda>_. sbind (dealloc a) (\<lambda>_. sreturn True))) s0"
  proof (cases "a = low t")
    case True
    have e: "s\<lparr>avl_count := length (inord t) - 1, lowest := if rt r \<noteq> 0 then rt r else upaddr c\<rparr> = s0"
      using True lowt len by (simp add: s0_def)
    show ?thesis
      using find n low cnt True e by (simp add: avl_remove_g_def mk_children cong: if_cong)
  next
    case False
    have e: "s\<lparr>avl_count := length (inord t) - 1\<rparr> = s0"
      using False lowt len low by (simp add: s0_def)
    have "cells s0 a = cells s a" "lowest s0 = low t" using False lowt by (simp_all add: s0_def)
    then show ?thesis
      using find n low cnt False e by (simp add: avl_remove_g_def mk_children cong: if_cong)
  qed
  show ?thesis
  proof (cases "a = low t \<and> rt r = 0 \<and> upaddr c = 0")
    case True
    have c: "c = []" and r: "r = Lf" using True upaddr_zero [OF zd(3)] zd(4) rt_zero [of "cells s" a 1 r] by auto
    have l: "l = Lf"
    proof (cases "inord l")
      case Nil
      then show ?thesis by (cases l) auto
    next
      case (Cons e es)
      then show ?thesis using True it c zrepD(5) [OF b(3)] by (cases e) (auto simp: low_def)
    qed
    have t: "?t = Lf" using l r c av by (simp add: zremove_def)
    have "zrep (s0\<lparr>root := 0\<rparr>) (fr(a := cells s0 a)) [] ?t"
      using z0 n c l r t by (auto simp: zrep_def s0_def heap_ok_def)
    then show ?thesis using finish [of "s0\<lparr>root := 0\<rparr>" "avl_remove_g k s"] start True by (simp add: s0_def)
  next
    case nr: False
    show ?thesis
    proof (cases "b = 0 \<and> l = Lf")
      case True
      have r: "r = Lf" using True av(1) by (cases r) auto
      have c: "c \<noteq> []" using nr True r it by (auto simp: low_def)
      obtain s1 s2 where s2: "modify (upaddr c) (set_refs (1 + dir c) 0) s0 = (Inr (), s1)"
        "rebalanceRemoved_g (upaddr c) (dir c) s1 = (Inr (), s2)" "same_obj s0 s2"
        "zrep s2 (fr(a := cells s0 a)) [] (shrunk c Lf)"
        by (rule remove_leaf_sim [of s0 fr c a k' v]) (use z0 True r c av in auto)
      have t: "?t = shrunk c Lf" using True by (simp add: zremove_def)
      show ?thesis using finish [of s2 "avl_remove_g k s"] start nr True s2 t by (simp add: s0_def same_obj_def)
    next
      case False
      obtain s2 where s2: "remove_swap a (if b = 0 then 1 else b) s0 = (Inr (), s2)" "same_obj s0 s2"
        "zrep s2 (fr(a := cells s0 a)) [] ?t"
        by (rule remove_swap_sim [OF z0 av False])
      have x: "\<not> (b = 0 \<and> rt l = 0)" using False zd(4) rt_zero [of "cells s" a "-1" l] by auto
      have e: "avl_remove_g k s = sbind (dealloc a) (\<lambda>_. sreturn True) s2"
        using s2(1) by (simp only: start nr x if_False) simp
      then show ?thesis using finish [OF s2(3)] s2(2) by (simp add: s0_def same_obj_def)
    qed
  qed
qed


lemma avl_remove_inv:
  assumes inv: "avl_inv s fr t"
  shows "\<exists>s' t'. avl_remove_g k s = (Inr (amap t k \<noteq> None), s') \<and> avl_inv s' fr t' \<and> amap t' = (amap t)(k := None)"
proof -
  obtain c t' where z: "zlocate k t [] = (c, t')" by (cases "zlocate k t []") auto
  have b: "bst t" "avl t" "zrep s fr [] t" using inv by (auto simp: avl_inv_def)
  note za = zlocate_amap [OF b(1) z]
  show ?thesis
  proof (cases t')
    case Lf
    have "avl_find_g k s = (Inr 0, s)" using find_g_sim [OF b(3), of k] z Lf by simp
    then have "avl_remove_g k s = (Inr False, s)" by (simp add: avl_remove_g_def)
    then show ?thesis using inv za(3) Lf by (auto simp: fun_upd_idem)
  next
    case (Nd a k' v b' l r)
    have k: "k' = k" using za(4) Nd by simp
    have i: "inord (zremove c (Nd a k' v b' l r)) = (lefts c @ inord l) @ inord r @ rights c"
      using zremove_correct [of a k' v b' l r c] zlocate_avl [OF z b(2)] by (simp only: Nd append_assoc simp_thms)
    have "amap (zremove c (Nd a k' v b' l r)) = (amap t)(k := None)"
    proof
      fix x
      note m = bst_plug_mid [of c a k v b' l r]
      have "k \<notin> set (keys ((lefts c @ inord l) @ inord r @ rights c))" using m b(1) za(2) Nd k by auto
      from map_of_absent [OF this] show "amap (zremove c (Nd a k' v b' l r)) x = ((amap t)(k := None)) x"
        using map_of_middle [of k "lefts c @ inord l" a v "inord r @ rights c"] m b(1) za(2) Nd k i
        by (auto simp: amap_def inord_plug simp del: map_append)
    qed
    then show ?thesis using remove_node_sim [OF inv z [unfolded Nd]] za(3) Nd by auto
  qed
qed

section \<open>Iteration\<close>

definition first :: "(addr \<times> 'k \<times> 'v) list \<Rightarrow> addr" where
  "first xs = (case adrs xs of [] \<Rightarrow> 0 | a # _ \<Rightarrow> a)"

lemma first_simps [simp]: "first [] = 0" "first ((a, k, v) # xs) = a"
  by (simp_all add: first_def)

lemma first_append: "first (xs @ ys) = (if xs = [] then first ys else first xs)"
  by (cases xs) (auto simp: first_def)

lemma inord_Nil [simp]: "inord t = [] \<longleftrightarrow> t = Lf"
  by (cases t) auto

lemma zdown_first: "t \<noteq> Lf \<Longrightarrow> rt (snd (zdown (-1) t c)) = first (inord t)"
proof (induction t arbitrary: c)
  case (Nd a k v b l r)
  then show ?case by (cases "l = Lf") (auto simp: first_append)
qed simp

lemma iterUp_sim:
  "crep (cells s) c hole \<Longrightarrow> dirs c \<Longrightarrow> \<not> dir c < 0 \<Longrightarrow> length c < f \<Longrightarrow>
   iterUp_loop f (upaddr c) s = (Inr (first (rights c)), s)"
proof (induction c arbitrary: hole f)
  case Nil
  then show ?case by (cases f) auto
next
  case (Cons fr c)
  obtain d a k v b x where fr: "fr = Fr d a k v b x" by (cases fr)
  obtain f' where f': "f = Suc f'" using Cons.prems(4) by (cases f) auto
  have a: "a \<noteq> 0" "cells s a = Some (mk d k v b hole (rt x) (upaddr c) (dir c))" "crep (cells s) c a" "dirs c" "\<not> d < 0"
    using Cons.prems fr by auto
  show ?case
  proof (cases "dir c < 0")
    case True
    then show ?thesis using a fr f' by (cases c rule: upaddr.cases) auto
  next
    case False
    then show ?thesis using a fr f' Cons.IH [OF a(3,4) False, of f'] Cons.prems(4) by auto
  qed
qed

lemma iterNext_sim:
  assumes z: "zrep s fr c (Nd a k v b l r)"
  shows "avl_iterNext_g a s = (Inr (first (inord r @ rights c)), s)"
proof -
  note zd = zrepD [OF z] and zb = zrep_bound [OF z]
  have n: "cells s a = Some (mk (-1) k v b (rt l) (rt r) (upaddr c) (dir c))" "rep (cells s) a 1 r" using zd(4) by auto
  show ?thesis
  proof (cases "r = Lf")
    case False
    then have "rt r \<noteq> 0" using rt_zero [OF n(2)] by simp
    moreover have "extreme_loop (brk s) (rt r) 0 s = (Inr (first (inord r)), s)"
      using extreme_loop_sim [OF n(2) False, of "brk s" "-1" "[]"] zb zdown_first [OF False] by (simp add: dirn_def)
    ultimately show ?thesis using n False by (simp add: avl_iterNext_g_def mk_children first_append)
  next
    case r: True
    show ?thesis
    proof (cases "dir c < 0")
      case True
      then show ?thesis using n r by (cases c rule: upaddr.cases) (auto simp: avl_iterNext_g_def mk_children)
    next
      case False
      then show ?thesis using n r iterUp_sim [OF zd(3,2) False, of "brk s"] zb
        by (simp add: avl_iterNext_g_def mk_children)
    qed
  qed
qed

lemma focus_exists:
  "a \<in> tadrs t \<Longrightarrow> \<exists>c k v b l r. plug c (Nd a k v b l r) = t \<and> dirs c"
proof (induction t)
  case (Nd a' k' v' b' l' r')
  consider "a = a'" | "a \<in> tadrs l'" | "a \<in> tadrs r'" using Nd.prems by auto
  then show ?case
  proof cases
    case 1
    then show ?thesis by (intro exI [of _ "[]"]) auto
  next
    case 2
    then obtain c k v b l r where "plug c (Nd a k v b l r) = l'" "dirs c" using Nd.IH(1) by blast
    then show ?thesis
      by (intro exI [of _ "c @ [Fr (-1) a' k' v' b' r']"] exI) (auto simp: plug_append nd_def dirn_def)
  next
    case 3
    then obtain c k v b l r where "plug c (Nd a k v b l r) = r'" "dirs c" using Nd.IH(2) by blast
    then show ?thesis
      by (intro exI [of _ "c @ [Fr 1 a' k' v' b' l']"] exI) (auto simp: plug_append nd_def dirn_def)
  qed
qed simp

lemma split_unique:
  assumes "distinct (adrs (xs @ (a, k, v) # ys))" "xs @ (a, k, v) # ys = xs' @ (a, k', v') # ys'"
  shows "ys = ys'"
proof -
  have "a \<notin> set (map fst xs) \<and> a \<notin> set (map fst ys)" using assms(1) by (auto simp: adrs_def)
  moreover have "a \<notin> set (map fst xs') \<and> a \<notin> set (map fst ys')"
    using assms(1) unfolding assms(2) by (auto simp: adrs_def)
  ultimately show ?thesis using assms(2)
    by (auto simp: append_eq_append_conv2 append_eq_Cons_conv Cons_eq_append_conv)
qed

lemma iterNext_inv:
  assumes inv: "avl_inv s fr t" and i: "inord t = xs @ (a, k, v) # ys"
  shows "avl_iterNext_g a s = (Inr (first ys), s)" "\<exists>n. cells s a = Some n \<and> nkey n = k \<and> nval n = v" "a \<noteq> 0"
proof -
  have z: "zrep s fr [] t" using inv by (simp add: avl_inv_def)
  have "a \<in> tadrs t" using i by (simp add: tadrs_def)
  then obtain c k' v' b l r where c: "plug c (Nd a k' v' b l r) = t" "dirs c" using focus_exists by blast
  have zc: "zrep s fr c (Nd a k' v' b l r)" by (rule zrep_open [OF c(2)]) (simp add: c(1) z)
  have i': "inord t = (lefts c @ inord l) @ (a, k', v') # inord r @ rights c" using c(1) by (auto simp: inord_plug)
  have d: "distinct (adrs (xs @ (a, k, v) # ys))" using zrepD(5) [OF z] i by simp
  have "ys = inord r @ rights c" using split_unique [OF d, of "lefts c @ inord l" k' v'] i i' by metis
  then show "avl_iterNext_g a s = (Inr (first ys), s)" using iterNext_sim [OF zc] by simp
  have "(k, v) = (k', v')"
  proof -
    have "(a, k, v) \<in> set (inord t)" by (simp add: i)
    moreover have "(a, k', v') \<in> set (inord t)" by (simp add: i')
    moreover have "distinct (map fst (inord t))" using zrepD(5) [OF z] by (simp add: adrs_def)
    ultimately show ?thesis using eq_key_imp_eq_value by fast
  qed
  then show "\<exists>n. cells s a = Some n \<and> nkey n = k \<and> nval n = v" "a \<noteq> 0" using zrepD(4) [OF zc] by auto
qed

text \<open>The loop \<^verbatim>\<open>for (n = iterFirst(); n; n = iterNext(n))\<close>, with the entries it sees.\<close>

fun iterate :: "nat \<Rightarrow> addr \<Rightarrow> (('k::linorder, 'v) avl, ('k \<times> 'v) list) smethod" where
  "iterate 0 c = sthrow Diverges"
| "iterate (Suc f) c =
     (if c = 0 then sreturn [] else sbind (load c) (\<lambda>n. sbind (avl_iterNext_g c) (\<lambda>c'.
        sbind (iterate f c') (\<lambda>es. sreturn ((nkey n, nval n) # es)))))"

lemma iterate_sim:
  assumes inv: "avl_inv s fr t" and "inord t = xs @ ys" "length ys < f"
  shows "iterate f (first ys) s = (Inr (map snd ys), s)"
  using assms(2,3)
proof (induction ys arbitrary: xs f)
  case Nil
  then show ?case by (cases f) auto
next
  case (Cons e ys)
  obtain a k v where e: "e = (a, k, v)" by (cases e)
  obtain f' where f': "f = Suc f'" using Cons.prems(2) by (cases f) auto
  note it = iterNext_inv [OF inv, of xs a k v ys]
  have "iterate f' (first ys) s = (Inr (map snd ys), s)"
    using Cons.IH [of "xs @ [e]" f'] Cons.prems f' by simp
  then show ?case using it Cons.prems e f' by auto
qed

lemma tenv_loop_sim:
  assumes inv: "avl_inv s fr t" and "inord t = xs @ (a, k, v) # ys" "length ys < f"
  shows "tenv_loop f a (first ys) s = (Inr (), s)"
  using assms(2,3)
proof (induction ys arbitrary: xs a k v f)
  case Nil
  then show ?case by (cases f) auto
next
  case (Cons e ys)
  obtain a' k' v' where e: "e = (a', k', v')" by (cases e)
  obtain f' where f': "f = Suc f'" using Cons.prems(2) by (cases f) auto
  have i1: "inord t = xs @ (a, k, v) # (e # ys)" using Cons.prems by simp
  have i2: "inord t = (xs @ [(a, k, v)]) @ (a', k', v') # ys" using Cons.prems e by simp
  note it1 = iterNext_inv [OF inv i1] and it2 = iterNext_inv [OF inv i2]
  have b: "bst t" "zrep s fr [] t" using inv by (auto simp: avl_inv_def)
  have "k < k'" using b(1) i2 by (simp add: bst_def sorted_wrt_append)
  moreover have "avl_find_g k' s = (Inr (rt (snd (zlocate k' t []))), s)" by (rule find_g_sim [OF b(2)])
  moreover have "rt (snd (zlocate k' t [])) \<noteq> 0"
  proof -
    obtain c t' where z: "zlocate k' t [] = (c, t')" by (cases "zlocate k' t []") auto
    have "amap t k' \<noteq> None" using i2 domIff [of k' "amap t"] by (simp add: dom_amap)
    then have "t' \<noteq> Lf" using zlocate_amap(3) [OF b(1) z] by auto
    then show ?thesis using z rt_zero [OF zrepD(4) [OF create_sim(3) [OF inv z]]] by simp
  qed
  moreover have "tenv_loop f' a' (first ys) s = (Inr (), s)" using Cons.IH [OF i2] Cons.prems f' by simp
  ultimately show ?case using it1 it2 e f' by (auto simp: tcmp_def)
qed

section \<open>Clearing\<close>

definition wipe :: "addr set \<Rightarrow> ('k, 'v) avl \<Rightarrow> ('k, 'v) avl" where
  "wipe A s = s\<lparr>cells := (\<lambda>u. if u \<in> A then None else cells s u)\<rparr>"

lemma wipe_simps [simp]:
  "cells (wipe A s) u = (if u \<in> A then None else cells s u)" "wipe {} s = s"
  "wipe B (wipe A s) = wipe (A \<union> B) s" "root (wipe A s) = root s" "brk (wipe A s) = brk s"
  by (auto simp: wipe_def fun_eq_iff)

lemma destroyRecursive_sim:
  "rep (cells s) par dr t \<Longrightarrow> t \<noteq> Lf \<Longrightarrow> distinct (adrs (inord t)) \<Longrightarrow> ht t \<le> f \<Longrightarrow>
   destroyRecursive f (rt t) s = (Inr (), wipe (tadrs t) s)"
proof (induction t arbitrary: f par dr s)
  case (Nd a k v b l r)
  obtain f' where f': "f = Suc f'" using Nd.prems(4) by (cases f) auto
  have n: "cells s a = Some (mk (-1) k v b (rt l) (rt r) par dr)" "rep (cells s) a (-1) l" "rep (cells s) a 1 r"
    using Nd.prems by auto
  have d: "a \<notin> tadrs l" "a \<notin> tadrs r" "tadrs l \<inter> tadrs r = {}" using Nd.prems(3) by (auto simp: tadrs_def)
  let ?s1 = "wipe (tadrs l) s" and ?s2 = "wipe (tadrs r) (wipe (tadrs l) s)"
  have L: "(if rt l \<noteq> 0 then destroyRecursive f' (rt l) else sreturn ()) s = (Inr (), ?s1)"
    using Nd.IH(1) [OF n(2), of f'] Nd.prems f' rt_zero [OF n(2)] by (cases "l = Lf") auto
  have r1: "rep (cells ?s1) a 1 r" using rep_cong [of r "cells ?s1" "cells s"] n(3) d(3) by fastforce
  have R: "(if rt r \<noteq> 0 then destroyRecursive f' (rt r) else sreturn ()) ?s1 = (Inr (), ?s2)"
    using Nd.IH(2) [OF r1, of f'] Nd.prems f' rt_zero [OF r1] by (cases "r = Lf") auto
  have "dealloc a ?s2 = (Inr (), wipe (tadrs (Nd a k v b l r)) s)"
    using n(1) d by (auto simp: dealloc_def wipe_def fun_eq_iff intro!: arg_cong [of _ _ "\<lambda>h. s\<lparr>cells := h\<rparr>"])
  then show ?case using f' n(1) d L R by (simp add: mk_children split del: if_split cong: if_cong)
qed simp

lemma zrep_wiped:
  assumes "zrep s fr [] t" "\<forall>a\<in>tadrs t. fr a = None"
  shows "zrep (wipe (tadrs t) s\<lparr>root := 0, lowest := x, avl_count := n\<rparr>) fr [] Lf"
  using assms by (auto simp: zrep_def heap_ok_def wipe_def)

lemma avl_destroy_sim:
  assumes inv: "avl_inv s fr t"
  shows "avl_destroy_g s = (Inr (), wipe (tadrs t) s\<lparr>root := 0, lowest := 0, avl_count := 0\<rparr>)"
    "avl_clean_g s = (Inr (), wipe (tadrs t) s\<lparr>root := 0, lowest := 0, avl_count := 0\<rparr>)"
    "avl_inv (wipe (tadrs t) s\<lparr>root := 0, lowest := 0, avl_count := 0\<rparr>) fr Lf"
proof -
  have z: "zrep s fr [] t" and fr: "\<forall>a\<in>tadrs t. fr a = None" using inv by (auto simp: avl_inv_def)
  note zd = zrepD [OF z]
  have D: "t \<noteq> Lf \<Longrightarrow> destroyRecursive (brk s) (rt t) s = (Inr (), wipe (tadrs t) s)"
    using destroyRecursive_sim [OF zd(4) _ zd(5), of "brk s"] zrep_bound [OF z] by simp
  have r: "root s = rt t" "rt t = 0 \<longleftrightarrow> t = Lf" using zd(8) rt_zero [OF zd(4)] by auto
  show "avl_destroy_g s = (Inr (), wipe (tadrs t) s\<lparr>root := 0, lowest := 0, avl_count := 0\<rparr>)"
    using r D by (cases "t = Lf") (auto simp: avl_destroy_g_def)
  show "avl_clean_g s = (Inr (), wipe (tadrs t) s\<lparr>root := 0, lowest := 0, avl_count := 0\<rparr>)"
  proof (cases "t = Lf")
    case True
    have "s\<lparr>root := 0, lowest := 0, avl_count := 0\<rparr> = s" using inv True r by (auto simp: avl_inv_def low_def)
    then show ?thesis using r True by (simp add: avl_clean_g_def)
  qed (use r D in \<open>auto simp: avl_clean_g_def\<close>)
  show "avl_inv (wipe (tadrs t) s\<lparr>root := 0, lowest := 0, avl_count := 0\<rparr>) fr Lf"
    using zrep_wiped [OF z fr] by (simp add: avl_inv_def bst_def low_def)
qed

section \<open>The callback traversal\<close>

text \<open>Below the root the traversal always ends in an access through \<^verbatim>\<open>NULL\<close>.\<close>

lemma runOne_below:
  "rep (cells s) par dr t \<Longrightarrow> t \<noteq> Lf \<Longrightarrow> par \<noteq> 0 \<Longrightarrow> cells s 0 = None \<Longrightarrow> ht t < f \<Longrightarrow>
   runOne f cb (rt t) x s = (Inl NullAccess, s)"
proof (induction t arbitrary: f par dr x)
  case (Nd a k v b l r)
  obtain f' where f': "f = Suc f'" using Nd.prems(5) by (cases f) auto
  have n: "a \<noteq> 0" "cells s a = Some (mk (-1) k v b (rt l) (rt r) par dr)" "rep (cells s) a (-1) l" "rep (cells s) a 1 r"
    using Nd.prems by auto
  have R: "runOne f' cb (rt r) y s = (Inl NullAccess, s)" for y
  proof (cases "r = Lf")
    case True
    obtain f'' where "f' = Suc f''" using Nd.prems(5) f' by (cases f') auto
    then show ?thesis using True Nd.prems(4) by simp
  next
    case False
    then show ?thesis using Nd.IH(2) [OF n(4) _ n(1) Nd.prems(4), of f'] Nd.prems(5) f' by simp
  qed
  show ?case
  proof (cases "l = Lf")
    case True
    then show ?thesis using f' n Nd.prems(3) R by simp
  next
    case False
    then have "runOne f' cb (rt l) x s = (Inl NullAccess, s)"
      using Nd.IH(1) [OF n(3) _ n(1) Nd.prems(4), of f'] Nd.prems(5) f' by simp
    then show ?thesis using f' n False rt_zero [OF n(3)] by simp
  qed
qed simp

section \<open>The dictionary interface\<close>

fun cells_walk :: "nat \<Rightarrow> (addr \<Rightarrow> ('k, 'v) avl_node option) \<Rightarrow> addr \<Rightarrow> ('k \<times> 'v) list" where
  "cells_walk 0 h p = []"
| "cells_walk (Suc f) h p = (case h p of None \<Rightarrow> []
     | Some n \<Rightarrow> cells_walk f h (lchild n) @ (nkey n, nval n) # cells_walk f h (rchild n))"

definition avl_map :: "('k, 'v) avl \<Rightarrow> 'k \<rightharpoonup> 'v" where
  "avl_map s = map_of (cells_walk (brk s) (cells s) (root s))"

definition avl_valid :: "('k::linorder, 'v) avl \<Rightarrow> bool" where
  "avl_valid s \<longleftrightarrow> (\<exists>fr t. avl_inv s fr t)"

lemma cells_walk_rep:
  "rep h par dr t \<Longrightarrow> h 0 = None \<Longrightarrow> ht t \<le> f \<Longrightarrow> cells_walk f h (rt t) = map snd (inord t)"
proof (induction t arbitrary: f par dr)
  case Lf
  then show ?case by (cases f) auto
next
  case (Nd a k v b l r)
  then show ?case by (cases f) (auto simp: mk_children)
qed

lemma avl_map_inv: "avl_inv s fr t \<Longrightarrow> avl_map s = amap t"
  using cells_walk_rep [of "cells s" 0 0 t "brk s"] zrepD [of s fr "[]" t] zrep_bound [of s fr "[]" t]
  by (simp add: avl_inv_def avl_map_def amap_def)

lemma avl_valid_empty: "avl_inv avl_empty (\<lambda>_. None) Lf"
  by (simp add: avl_inv_def zrep_def heap_ok_def avl_empty_def bst_def low_def)

text \<open>A sample tree with two nodes, for the instances of the properties.\<close>

definition sample_tree :: "(int, int) tree" where
  "sample_tree = Nd 1 2 20 (-1) (Nd 2 1 10 0 Lf Lf) Lf"

definition sample_avl :: "(int, int) avl" where
  "sample_avl = \<lparr>cells = [1 \<mapsto> mk (-1) 2 20 (-1) 2 0 0 0, 2 \<mapsto> mk (-1) 1 10 0 0 0 1 (-1)], brk = 3,
     root = 1, lowest = 2, avl_count = 2\<rparr>"

lemma sample_avl_inv: "avl_inv sample_avl (\<lambda>_. None) sample_tree"
  by (simp add: avl_inv_def zrep_def heap_ok_def sample_avl_def sample_tree_def bst_def low_def)

interpretation avl_dict: dict avl_valid avl_map avl_count avl_accValue avl_create_g avl_replace_g avl_remove_g
proof
  fix s :: "('a, 'b) avl" and k :: 'a and v :: 'b
  assume "avl_valid s"
  then obtain fr t where i: "avl_inv s fr t" by (auto simp: avl_valid_def)
  note m = avl_map_inv [OF i]
  show "avl_accValue k s = (Inr (avl_map s k), s)" using avl_accValue_inv [OF i] m by simp
  show "\<exists>s'. avl_create_g k v s = (Inr (avl_map s k = None), s') \<and> avl_valid s' \<and>
      avl_map s' = (if avl_map s k = None then (avl_map s)(k \<mapsto> v) else avl_map s)"
    using avl_create_inv [OF i, of k v] m avl_map_inv by (fastforce simp: avl_valid_def)
  show "\<exists>s'. avl_replace_g k v s = (Inr (avl_map s k = None), s') \<and> avl_valid s' \<and>
      avl_map s' = (avl_map s)(k \<mapsto> v)"
    using avl_replace_inv [OF i, of k v] m avl_map_inv by (fastforce simp: avl_valid_def)
  show "\<exists>s'. avl_remove_g k s = (Inr (avl_map s k \<noteq> None), s') \<and> avl_valid s' \<and>
      avl_map s' = (avl_map s)(k := None)"
    using avl_remove_inv [OF i, of k] m avl_map_inv by (fastforce simp: avl_valid_def)
  show "finite (dom (avl_map s)) \<and> avl_count s = card (dom (avl_map s))"
    using i m avl_size_card [of t] by (auto simp: avl_inv_def dom_amap)
qed

section \<open>Properties\<close>

text \<open>
  C1: Any sequence of lookups, insertions, replacements and removals on an AVL tree that starts empty
  ends without an error, gives the answers a finite map gives, and leaves a valid balanced search
  tree whose entries and whose element count are those of the map.
\<close>

theorem avl_refines_map:
  fixes ps :: "('k::linorder, 'v) dict_op list"
  shows "\<exists>s'. dict_run (dict_step avl_accValue avl_create_g avl_replace_g avl_remove_g) ps avl_empty =
     (Inr (fst (spec_run ps Map.empty)), s') \<and> avl_valid s' \<and>
     avl_map s' = snd (spec_run ps Map.empty) \<and> avl_count s' = card (dom (snd (spec_run ps Map.empty)))"
proof -
  have v: "avl_valid (avl_empty :: ('k, 'v) avl)" using avl_valid_empty by (auto simp: avl_valid_def)
  have "avl_map (avl_empty :: ('k, 'v) avl) = Map.empty" using avl_map_inv [OF avl_valid_empty] by (simp add: amap_def)
  then show ?thesis using avl_dict.run_refines [OF v, of ps] by (metis prod.collapse)
qed

text \<open>
  C22: Removing a key from a tree in a heap that also holds other objects unlinks and frees the node
  of the key and nothing else: the rest of the heap is unchanged, every remaining cell of the tree
  belongs to the new, again balanced, tree, and the result says whether the key was there.
\<close>

theorem avl_remove_frees:
  assumes "avl_inv s fr t"
  shows "\<exists>s' t'. avl_remove_g k s = (Inr (amap t k \<noteq> None), s') \<and> avl_inv s' fr t' \<and>
    amap t' = (amap t)(k := None) \<and>
    length (inord t') = (if amap t k = None then length (inord t) else length (inord t) - 1)"
proof -
  obtain s' t' where r: "avl_remove_g k s = (Inr (amap t k \<noteq> None), s')" "avl_inv s' fr t'"
    "amap t' = (amap t)(k := None)"
    using avl_remove_inv [OF assms] by blast
  have f: "finite (dom (amap t))" by (simp add: dom_amap)
  have "length (inord t') = card (dom (amap t) - {k})"
    using avl_size_card [of t'] r(2,3) by (simp add: avl_inv_def)
  also have "\<dots> = (if amap t k = None then length (inord t) else length (inord t) - 1)"
    using avl_size_card [of t] assms f by (auto simp: avl_inv_def domIff)
  finally show ?thesis using r by blast
qed

theorem avl_remove_frees_witness:
  "\<exists>s' t'. avl_remove_g 1 sample_avl = (Inr True, s') \<and> avl_inv s' (\<lambda>_. None) t' \<and>
     amap t' = [2 \<mapsto> 20] \<and> length (inord t') = 1"
  using avl_remove_frees [OF sample_avl_inv, of 1] by (simp add: sample_tree_def amap_def)

text \<open>
  C19: Iterating with iterFirst and iterNext over a valid tree ends, visits every entry exactly once
  and in increasing order of the keys; the consistency check of the test environment passes.
\<close>

theorem avl_iteration_sorted:
  assumes "avl_inv s fr t"
  shows "\<exists>es. sbind avl_iterFirst_g (iterate (brk s)) s = (Inr es, s) \<and>
    sorted_wrt (<) (map fst es) \<and> map_of es = avl_map s \<and> length es = avl_count s \<and>
    tenv_checkConsistency s = (Inr (), s)"
proof -
  have z: "zrep s fr [] t" and b: "bst t" and l: "lowest s = first (inord t)" and c: "avl_count s = length (inord t)"
    using assms by (auto simp: avl_inv_def low_def first_def)
  have bd: "length (inord t) < brk s"
    using distinct_cells_bound [OF zrepD(1) [OF z] zrepD(5) [OF z]] rep_live [OF zrepD(4) [OF z]]
    by (fastforce simp: tadrs_def adrs_def)
  have "iterate (brk s) (first (inord t)) s = (Inr (map snd (inord t)), s)"
    using iterate_sim [OF assms, of "[]"] bd by simp
  moreover have "tenv_checkConsistency s = (Inr (), s)"
  proof (cases "inord t")
    case Nil
    then show ?thesis using l by (simp add: tenv_checkConsistency_def avl_iterFirst_g_def)
  next
    case (Cons e ys)
    obtain a k v where e: "e = (a, k, v)" by (cases e)
    have i: "inord t = [] @ (a, k, v) # ys" using Cons e by simp
    note it = iterNext_inv [OF assms i]
    obtain c t' where zl: "zlocate k t [] = (c, t')" by (cases "zlocate k t []") auto
    have "amap t k \<noteq> None" using i domIff [of k "amap t"] by (simp add: dom_amap)
    then have "t' \<noteq> Lf" using zlocate_amap(3) [OF b zl] by auto
    then have "avl_find_g k s = (Inr (rt t'), s)" "rt t' \<noteq> 0"
      using find_g_sim [OF z, of k] zl rt_zero [OF zrepD(4) [OF create_sim(3) [OF assms zl]]] by auto
    moreover have "tenv_loop (brk s) a (first ys) s = (Inr (), s)"
      using tenv_loop_sim [OF assms i] bd Cons by simp
    ultimately show ?thesis using it l Cons e by (auto simp: tenv_checkConsistency_def avl_iterFirst_g_def)
  qed
  moreover have "sorted_wrt (<) (map fst (map snd (inord t)))" using b by (simp add: bst_def keys_def comp_def)
  ultimately show ?thesis using avl_map_inv [OF assms] l c
    by (auto simp: amap_def avl_iterFirst_g_def)
qed

theorem avl_iteration_sorted_witness:
  "\<exists>es. sbind avl_iterFirst_g (iterate (brk sample_avl)) sample_avl = (Inr es, sample_avl) \<and>
    sorted_wrt (<) (map fst es) \<and> map_of es = avl_map sample_avl \<and> length es = 2 \<and>
    tenv_checkConsistency sample_avl = (Inr (), sample_avl)"
  using avl_iteration_sorted [OF sample_avl_inv] by (simp add: sample_avl_def)



text \<open>
  Clearing a tree frees all of its nodes and nothing else.  Moving a tree frees the nodes of the
  destination, takes over all members of the source without touching its nodes, and leaves the
  source empty.
\<close>

theorem avl_clean_and_move:
  assumes "avl_inv s fr t" and "avl_inv (s\<lparr>root := r, lowest := l, avl_count := n\<rparr>) fr2 t2"
    and "tadrs t \<inter> tadrs t2 = {}"
  shows "(\<exists>s'. avl_clean_g s = (Inr (), s') \<and> avl_inv s' fr Lf \<and>
      (\<forall>a. cells s' a = (if a \<in> tadrs t then None else cells s a))) \<and>
    (\<exists>s'. avl_moveFrom_g \<lparr>o_root = r, o_lowest = l, o_count = n\<rparr> s =
        (Inr \<lparr>o_root = 0, o_lowest = 0, o_count = 0\<rparr>, s') \<and>
      avl_inv s' (\<lambda>a. if a \<in> tadrs t then None else fr2 a) t2 \<and>
      (\<forall>a\<in>tadrs t2. cells s' a = cells s a))"
proof
  note d = avl_destroy_sim [OF assms(1)]
  show "\<exists>s'. avl_clean_g s = (Inr (), s') \<and> avl_inv s' fr Lf \<and>
      (\<forall>a. cells s' a = (if a \<in> tadrs t then None else cells s a))"
    using d(2,3) by (intro exI conjI) (auto simp: wipe_def)
  let ?s = "wipe (tadrs t) s\<lparr>root := r, lowest := l, avl_count := n\<rparr>"
  have m: "avl_moveFrom_g \<lparr>o_root = r, o_lowest = l, o_count = n\<rparr> s =
      (Inr \<lparr>o_root = 0, o_lowest = 0, o_count = 0\<rparr>, ?s)"
    using d(1) by (simp add: avl_moveFrom_g_def)
  have c: "\<And>a. a \<in> tadrs t2 \<Longrightarrow> cells ?s a = cells s a" using assms(3) by (auto simp: wipe_def)
  have "rep (cells ?s) 0 0 t2 = rep (cells s) 0 0 t2" using c by (rule rep_cong)
  then have "avl_inv ?s (\<lambda>a. if a \<in> tadrs t then None else fr2 a) t2"
    using assms(2) by (auto simp: avl_inv_def zrep_def heap_ok_def wipe_def)
  then show "\<exists>s'. avl_moveFrom_g \<lparr>o_root = r, o_lowest = l, o_count = n\<rparr> s =
        (Inr \<lparr>o_root = 0, o_lowest = 0, o_count = 0\<rparr>, s') \<and>
      avl_inv s' (\<lambda>a. if a \<in> tadrs t then None else fr2 a) t2 \<and>
      (\<forall>a\<in>tadrs t2. cells s' a = cells s a)"
    using m c by blast
qed

theorem avl_clean_and_move_witness:
  "(\<exists>s'. avl_clean_g sample_avl = (Inr (), s') \<and> avl_inv s' (\<lambda>_. None) Lf) \<and>
   (\<exists>s'. avl_moveFrom_g \<lparr>o_root = 0, o_lowest = 0, o_count = 0\<rparr> sample_avl =
      (Inr \<lparr>o_root = 0, o_lowest = 0, o_count = 0\<rparr>, s') \<and> avl_map s' = Map.empty)"
proof -
  have e: "avl_inv (sample_avl\<lparr>root := 0, lowest := 0, avl_count := 0\<rparr>) (cells sample_avl) Lf"
    by (simp add: avl_inv_def zrep_def heap_ok_def sample_avl_def bst_def low_def)
  have d: "tadrs sample_tree \<inter> tadrs (Lf :: (int, int) tree) = {}" by simp
  show ?thesis using avl_clean_and_move [OF sample_avl_inv e d] avl_map_inv by (fastforce simp: amap_def)
qed

text \<open>
  The callback traversal is broken: on a tree whose root has no left child only the root is
  visited, and on every tree whose root has a left child it ends in an access through NULL.
\<close>

theorem avl_run_incomplete:
  assumes "avl_inv s fr t"
  shows "avl_run_g cb x s = (case t of Lf \<Rightarrow> (Inr x, s)
    | Nd a k v b l r \<Rightarrow> if l = Lf then (Inr (cb k v x), s) else (Inl NullAccess, s))"
proof (cases t)
  case Lf
  then show ?thesis using assms by (simp add: avl_inv_def zrep_def avl_run_g_def)
next
  case (Nd a k v b l r)
  have z: "zrep s fr [] t" using assms by (simp add: avl_inv_def)
  note zd = zrepD [OF z]
  obtain f where f: "brk s = Suc f" "ht t \<le> f" using zrep_bound [OF z] by (cases "brk s") auto
  have n: "a \<noteq> 0" "cells s a = Some (mk (-1) k v b (rt l) (rt r) 0 0)" "rep (cells s) a (-1) l" "root s = a"
    using zd(4,8) Nd by auto
  show ?thesis
  proof (cases "l = Lf")
    case True
    then show ?thesis using Nd n f by (simp add: avl_run_g_def)
  next
    case False
    moreover have "ht l < f" using f(2) Nd by simp
    ultimately have "runOne f cb (rt l) x s = (Inl NullAccess, s)"
      using runOne_below [OF n(3) _ n(1), of f] zd(1) by simp
    then show ?thesis using Nd n f False rt_zero [OF n(3)] by (simp add: avl_run_g_def)
  qed
qed

theorem avl_run_incomplete_witness:
  "avl_run_g (\<lambda>k v es. es @ [k]) [] sample_avl = (Inl NullAccess, sample_avl)"
  using avl_run_incomplete [OF sample_avl_inv] by (simp add: sample_tree_def)

text \<open>
  When a key is new, the creating access returns the content of the link it followed, read after
  the rebalancing: after 1 and 3, the access to 2 returns NULL, and after 5, 3, 8, 7 and 9 the
  access to 6 returns the node of key 5; the entry itself is in the tree.
\<close>

theorem avl_accCreating_wrong_node:
  "fst (sbind (avl_create_g 1 0) (\<lambda>_. sbind (avl_create_g 3 0) (\<lambda>_. avl_accCreating 0 2))
     (avl_empty :: (int, int) avl)) = Inr 0 \<and>
   fst (sbind (avl_create_g 5 0) (\<lambda>_. sbind (avl_create_g 3 0) (\<lambda>_. sbind (avl_create_g 8 0) (\<lambda>_.
     sbind (avl_create_g 7 0) (\<lambda>_. sbind (avl_create_g 9 0) (\<lambda>_. sbind (avl_accCreating 0 6) (\<lambda>a.
     sbind (load a) (\<lambda>n. sbind (avl_accValue 6) (\<lambda>v. sreturn (nkey n, v)))))))))
     (avl_empty :: (int, int) avl)) = Inr (5, Some 0)"
  by code_simp

end
