(* ===== verification/Drt_Bstring.thy ===== *)
theory Drt_Bstring
  imports Drt_Prelude
begin

text \<open>
  The byte string \<^verbatim>\<open>String_c<BStringSubtype>\<close> of \<^verbatim>\<open>src/src/core/types/String_c.hxx\<close> and
  \<^verbatim>\<open>String_c.t.hxx\<close>.  \<open>sdata\<close> is the reference-counted block (\<^verbatim>\<open>StrData_c\<close>) with its bytes up to the
  allocated capacity; a string object is the block it points to, together with what the allocator's
  memory holds before it is written.  A block that other strings share has a positive reference
  count; \<open>refDg\<close> is the block as its new holder sees it.  Releasing the block a string lets go is
  not modelled.  \<^verbatim>\<open>sizeof(long)\<close> is 8.
\<close>

section \<open>Data\<close>

record sdata =
  s_refcnt :: nat
  s_size :: nat
  s_al :: int
  s_hash :: int
  s_str :: "byte list"

record bstr =
  sd :: sdata
  fresh :: "nat \<Rightarrow> byte"

definition null_data :: sdata where
  "null_data = \<lparr>s_refcnt = 1, s_size = 0, s_al = -1, s_hash = -1, s_str = replicate 8 0\<rparr>"

definition zero_data :: sdata where
  "zero_data = \<lparr>s_refcnt = 1, s_size = 0, s_al = 0, s_hash = -1, s_str = replicate 8 0\<rparr>"

definition refDg :: "sdata \<Rightarrow> sdata" where
  "refDg d = d\<lparr>s_refcnt := s_refcnt d + 1\<rparr>"

definition roundsize :: "nat \<Rightarrow> nat" where
  "roundsize n = (n + 7) div 8 * 8"

definition lift_res :: "'a result \<Rightarrow> ('s, 'a) smethod" where
  "lift_res r s = (r, s)"

definition allocDg :: "(nat \<Rightarrow> byte) \<Rightarrow> nat \<Rightarrow> sdata result" where
  "allocDg g n = (if n = 0 then Inl AssertFailed
     else Inr \<lparr>s_refcnt = 0, s_size = 0, s_al = int n, s_hash = -1,
       s_str = map (\<lambda>i. if i < (n - 1) div 8 * 8 then g i else 0) [0..<roundsize n]\<rparr>)"

definition changed :: "sdata \<Rightarrow> sdata" where
  "changed d = d\<lparr>s_hash := -1\<rparr>"

definition padzeroes :: "sdata \<Rightarrow> sdata result" where
  "padzeroes d = ebind (mem_write (s_str d) (s_size d) (replicate ((s_size d div 8 + 1) * 8 - s_size d) 0))
     (\<lambda>m. Inr (d\<lparr>s_str := m\<rparr>))"

definition hash_step :: "u64 \<Rightarrow> byte \<Rightarrow> u64" where
  "hash_step h c = (h * 19) XOR ucast c"

definition hash_value :: "byte list \<Rightarrow> int" where
  "hash_value bs = (let h = foldl hash_step 0 bs in
     uint ((h XOR drop_bit 10 h XOR drop_bit 20 h) AND mask 63))"

definition updateHash :: "sdata \<Rightarrow> sdata result" where
  "updateHash d = ebind (mem_read (s_str d) 0 (s_size d)) (\<lambda>bs. Inr (d\<lparr>s_hash := hash_value bs\<rparr>))"

definition createDgLen :: "(nat \<Rightarrow> byte) \<Rightarrow> byte list \<Rightarrow> nat \<Rightarrow> nat \<Rightarrow> sdata result" where
  "createDgLen g s off n = (if n = 0 then Inr (refDg zero_data)
     else ebind (allocDg g (n + 1)) (\<lambda>sh. ebind (mem_read s off n) (\<lambda>bs.
       ebind (mem_write (s_str sh) 0 bs) (\<lambda>m. Inr (sh\<lparr>s_size := n, s_str := m\<rparr>)))))"

fun zlen :: "byte list \<Rightarrow> nat result" where
  "zlen [] = Inl OutOfBounds"
| "zlen (b # bs) = (if b = 0 then Inr 0 else ebind (zlen bs) (\<lambda>n. Inr (Suc n)))"

fun memcmp :: "byte list \<Rightarrow> byte list \<Rightarrow> int" where
  "memcmp (a # as) (b # bs) = (if a = b then memcmp as bs else if a < b then -1 else 1)"
| "memcmp _ _ = 0"

definition setd :: "sdata result \<Rightarrow> (bstr, unit) smethod" where
  "setd r s = (case r of Inl e \<Rightarrow> (Inl e, s) | Inr d \<Rightarrow> (Inr (), s\<lparr>sd := d\<rparr>))"

section \<open>Construction and assignment\<close>

definition setNull :: "(bstr, unit) smethod" where
  "setNull = setd (Inr (refDg null_data))"

definition setEmpty :: "(bstr, unit) smethod" where
  "setEmpty = setd (Inr (refDg zero_data))"

definition copyS :: "sdata \<Rightarrow> (bstr, unit) smethod" where
  "copyS x = setd (Inr (refDg x))"

definition copyLen :: "byte list \<Rightarrow> nat \<Rightarrow> (bstr, unit) smethod" where
  "copyLen m n s = setd (createDgLen (fresh s) m 0 n) s"

definition copyZ :: "byte list \<Rightarrow> (bstr, unit) smethod" where
  "copyZ m s = (case zlen m of Inl e \<Rightarrow> (Inl e, s) | Inr n \<Rightarrow> copyLen m n s)"

section \<open>Comparison\<close>

definition getHash :: "sdata \<Rightarrow> (int \<times> sdata) result" where
  "getHash d = (if s_hash d \<ge> 0 then Inr (s_hash d, d) else ebind (updateHash d) (\<lambda>d. Inr (s_hash d, d)))"

text \<open>Equality fills in the missing hash values of both blocks and compares those first.\<close>

definition bs_beq :: "sdata \<Rightarrow> sdata \<Rightarrow> (bool \<times> sdata \<times> sdata) result" where
  "bs_beq fd od =
     ebind (if s_hash fd < 0 then updateHash fd else Inr fd) (\<lambda>fd.
     ebind (if s_hash od < 0 then updateHash od else Inr od) (\<lambda>od.
     if s_hash fd \<noteq> s_hash od then Inr (False, fd, od)
     else if s_size fd \<noteq> s_size od then Inr (False, fd, od)
     else ebind (mem_read (s_str fd) 0 (s_size fd)) (\<lambda>a. ebind (mem_read (s_str od) 0 (s_size fd)) (\<lambda>b.
       Inr (memcmp a b = 0, fd, od)))))"

definition beqZ :: "sdata \<Rightarrow> byte list \<Rightarrow> bool result" where
  "beqZ fd s = ebind (zlen s) (\<lambda>n. if s_size fd \<noteq> n then Inr False
     else ebind (mem_read (s_str fd) 0 n) (\<lambda>a. ebind (mem_read s 0 n) (\<lambda>b. Inr (memcmp a b = 0))))"

definition bs_bcmp :: "sdata \<Rightarrow> sdata \<Rightarrow> int result" where
  "bs_bcmp fd od =
     (if s_al fd < 0 then Inr (if s_al od < 0 then 0 else -1 - (if s_al od \<noteq> 0 then 1 else 0))
      else if s_al od < 0 then Inr (1 + (if s_al fd \<noteq> 0 then 1 else 0))
      else let n = (if s_size fd < s_size od then s_size fd else s_size od) in
        ebind (mem_read (s_str fd) 0 n) (\<lambda>a. ebind (mem_read (s_str od) 0 n) (\<lambda>b.
        let r = memcmp a b in
        if r = 0 then (if s_size fd \<noteq> s_size od then Inr (if s_size fd < s_size od then -2 else 2) else Inr 0)
        else Inr (4 * (if r > 0 then 1 else 0) - 2))))"

section \<open>Direct access\<close>

definition bs_lock :: "nat \<Rightarrow> (bstr, unit) smethod" where
  "bs_lock n s = (let d = sd s in
     if s_refcnt d > 0 \<or> int n \<ge> s_al d then
       setd (ebind (allocDg (fresh s) (n + 1)) (\<lambda>x.
         ebind (mem_read (s_str d) 0 (roundsize (s_size d + 1))) (\<lambda>bs.
         ebind (mem_write (s_str x) 0 bs) (\<lambda>m. Inr (x\<lparr>s_size := n, s_str := m\<rparr>))))) s
     else if s_size d \<noteq> n then setd (ebind (padzeroes d) (\<lambda>d. Inr (d\<lparr>s_size := n\<rparr>))) s
     else (Inr (), s))"

definition lockKeep :: "nat \<Rightarrow> (bstr, unit) smethod" where
  "lockKeep n s = (let d = sd s in
     if s_refcnt d > 0 \<or> int n \<ge> s_al d then
       setd (ebind (allocDg (fresh s) (n + 1)) (\<lambda>x.
         ebind (mem_read (s_str d) 0 (roundsize (s_size d + 1))) (\<lambda>bs.
         ebind (mem_write (s_str x) 0 bs) (\<lambda>m. Inr (x\<lparr>s_size := s_size d, s_str := m\<rparr>))))) s
     else (Inr (), s))"

text \<open>The caller writes into the memory \<open>lock\<close> returned.\<close>

definition poke :: "nat \<Rightarrow> byte list \<Rightarrow> (bstr, unit) smethod" where
  "poke off bs s = setd (ebind (mem_write (s_str (sd s)) off bs) (\<lambda>m. Inr (sd s\<lparr>s_str := m\<rparr>))) s"

definition bs_unlock :: "nat \<Rightarrow> (bstr, unit) smethod" where
  "bs_unlock n s = (let d = sd s in
     if s_refcnt d \<noteq> 0 then (Inl AssertFailed, s)
     else if \<not> int n < s_al d then (Inl AssertFailed, s)
     else if s_size d = n then (Inr (), s)
     else if n = 0 then setd (Inr (refDg zero_data)) s
     else setd (ebind (padzeroes (d\<lparr>s_size := n\<rparr>)) (\<lambda>d. Inr (changed d))) s)"

definition unlockAppend :: "nat \<Rightarrow> (bstr, unit) smethod" where
  "unlockAppend n s = (let d = sd s in
     if s_refcnt d \<noteq> 0 then (Inl AssertFailed, s)
     else if \<not> int (s_size d + n) < s_al d then (Inl AssertFailed, s)
     else if n = 0 then (Inr (), s)
     else setd (ebind (padzeroes (d\<lparr>s_size := s_size d + n\<rparr>)) (\<lambda>d. Inr (changed d))) s)"

definition unlockZ :: "(bstr, unit) smethod" where
  "unlockZ s = (let d = sd s in
     if s_refcnt d \<noteq> 0 then (Inl AssertFailed, s)
     else (case zlen (s_str d) of Inl e \<Rightarrow> (Inl e, s) | Inr n \<Rightarrow>
       if n = s_size d then (Inr (), s)
       else if n = 0 then setd (Inr (refDg zero_data)) s
       else setd (ebind (padzeroes (d\<lparr>s_size := n\<rparr>)) (\<lambda>d. Inr (changed d))) s))"

section \<open>Concatenation\<close>

definition plus_str :: "(nat \<Rightarrow> byte) \<Rightarrow> sdata \<Rightarrow> sdata \<Rightarrow> sdata result" where
  "plus_str g fd od =
     (if s_size fd = 0 then Inr (refDg od)
      else if s_size od = 0 then Inr (refDg fd)
      else ebind (allocDg g (s_size fd + s_size od + 1)) (\<lambda>x.
        ebind (mem_read (s_str fd) 0 (s_size fd)) (\<lambda>a. ebind (mem_read (s_str od) 0 (s_size od)) (\<lambda>b.
        ebind (mem_write (s_str x) 0 a) (\<lambda>m. ebind (mem_write m (s_size fd) b) (\<lambda>m.
        ebind (mem_write m (s_size fd + s_size od) [0]) (\<lambda>m.
        Inr (x\<lparr>s_size := s_size fd + s_size od, s_str := m\<rparr>))))))))"

definition reallocSelfDo :: "nat \<Rightarrow> (bstr, unit) smethod" where
  "reallocSelfDo newcsize s = (let d = sd s in
     setd (ebind (allocDg (fresh s) (newcsize + 1)) (\<lambda>cr.
       ebind (mem_read (s_str d) 0 (s_size d)) (\<lambda>bs. ebind (mem_write (s_str cr) 0 bs) (\<lambda>m.
       Inr (cr\<lparr>s_size := s_size d, s_str := m\<rparr>))))) s)"

text \<open>The null string's capacity \<open>-1\<close> is the largest \<^verbatim>\<open>size_t\<close> here.\<close>

definition reallocSelf :: "nat \<Rightarrow> (bstr, unit) smethod" where
  "reallocSelf newcsize s =
     (if s_refcnt (sd s) \<noteq> 0 \<or> 0 \<le> s_al (sd s) \<and> int newcsize \<ge> s_al (sd s)
      then reallocSelfDo newcsize s else (Inr (), s))"

text \<open>The last three statements of the appending operations: copy, add to the size, terminate.\<close>

definition fill_tail :: "byte list \<Rightarrow> sdata \<Rightarrow> sdata result" where
  "fill_tail bs d = ebind (mem_write (s_str d) (s_size d) bs) (\<lambda>m.
     ebind (mem_write m (s_size d + length bs) [0]) (\<lambda>m.
     Inr (d\<lparr>s_size := s_size d + length bs, s_str := m\<rparr>)))"

definition append_tail :: "byte list \<Rightarrow> (bstr, unit) smethod" where
  "append_tail bs s = setd (fill_tail bs (sd s)) s"

definition bs_append :: "sdata \<Rightarrow> (bstr, unit) smethod" where
  "bs_append x s = (if s_size x = 0 then (Inr (), s)
     else if s_size (sd s) = 0 then setd (Inr (refDg x)) s
     else sbind (reallocSelf (s_size (sd s) + s_size x)) (\<lambda>_.
       sbind (lift_res (mem_read (s_str x) 0 (s_size x))) append_tail) s)"

definition appendLen :: "byte list \<Rightarrow> nat \<Rightarrow> (bstr, unit) smethod" where
  "appendLen m slen s = (if slen = 0 then (Inr (), s)
     else sbind (reallocSelf (s_size (sd s) + slen)) (\<lambda>_.
       sbind (lift_res (mem_read m 0 slen)) append_tail) s)"

definition appendZ :: "byte list \<Rightarrow> (bstr, unit) smethod" where
  "appendZ m = sbind (lift_res (zlen m)) (\<lambda>n. appendLen m n)"

definition appendChar :: "byte \<Rightarrow> (bstr, unit) smethod" where
  "appendChar c = appendLen [c] 1"

definition appendAscii :: "byte list \<Rightarrow> nat \<Rightarrow> (bstr, unit) smethod" where
  "appendAscii m slen = appendLen m slen"

definition appendReverse :: "byte list \<Rightarrow> nat \<Rightarrow> (bstr, unit) smethod" where
  "appendReverse m slen s = (let d = sd s in
     if slen = 0 then (Inr (), s)
     else setd (ebind (allocDg (fresh s) (s_size d + slen + 1)) (\<lambda>x.
       ebind (mem_read (s_str d) 0 (s_size d)) (\<lambda>a. ebind (mem_write (s_str x) 0 a) (\<lambda>w.
       ebind (mem_read m 0 slen) (\<lambda>b. ebind (mem_write w (s_size d) (rev b)) (\<lambda>w.
       ebind (mem_write w (s_size d + slen) [0]) (\<lambda>w.
       Inr (x\<lparr>s_size := s_size d + slen, s_str := w\<rparr>)))))))) s)"

section \<open>Numbers\<close>

definition digit_chars :: "byte list" where
  "digit_chars = map of_nat ([48..<58] @ [97..<123]) @ [0]"

text \<open>\<open>num_loop base cap n acc\<close>: the digits of \<open>n\<close>, lowest first, into a buffer of \<open>cap\<close> bytes.\<close>

function num_loop :: "nat \<Rightarrow> nat \<Rightarrow> nat \<Rightarrow> byte list \<Rightarrow> byte list result" where
  "num_loop base cap n acc =
     (if base = 0 then Inl DivByZero
      else if length acc \<ge> cap then Inl OutOfBounds
      else ebind (mem_get digit_chars (n mod base)) (\<lambda>c.
        let acc = acc @ [c]; n = n div base in
        if n = 0 then Inr acc else num_loop base cap n acc))"
  by pat_completeness auto
termination by (relation "measure (\<lambda>(base, cap, n, acc). cap - length acc)") auto

definition push_sign :: "nat \<Rightarrow> bool \<Rightarrow> byte list \<Rightarrow> byte list result" where
  "push_sign cap neg buf = (if neg then if length buf \<ge> cap then Inl OutOfBounds else Inr (buf @ [45]) else Inr buf)"

definition appendNumberS :: "nat \<Rightarrow> 'a::len word \<Rightarrow> nat \<Rightarrow> (bstr, unit) smethod" where
  "appendNumberS cap number base = (let neg = sint number < 0; number = (if neg then - number else number) in
     sbind (lift_res (num_loop base cap (unat number) [])) (\<lambda>buf.
     sbind (lift_res (push_sign cap neg buf)) (\<lambda>buf. appendReverse buf (length buf))))"

definition appendNumberU :: "nat \<Rightarrow> 'a::len word \<Rightarrow> nat \<Rightarrow> (bstr, unit) smethod" where
  "appendNumberU cap number base =
     sbind (lift_res (num_loop base cap (unat number) [])) (\<lambda>buf. appendReverse buf (length buf))"

definition appendNumberS32 :: "u32 \<Rightarrow> nat \<Rightarrow> (bstr, unit) smethod" where
  "appendNumberS32 = appendNumberS 33"

definition appendNumberU32 :: "u32 \<Rightarrow> nat \<Rightarrow> (bstr, unit) smethod" where
  "appendNumberU32 = appendNumberU 33"

definition appendNumberS64 :: "u64 \<Rightarrow> nat \<Rightarrow> (bstr, unit) smethod" where
  "appendNumberS64 = appendNumberS 65"

definition appendNumberU64 :: "u64 \<Rightarrow> nat \<Rightarrow> (bstr, unit) smethod" where
  "appendNumberU64 = appendNumberU 65"

section \<open>Parts\<close>

text \<open>\<open>share\<close> hands out the string's own block.\<close>

definition share :: "(bstr, sdata) smethod" where
  "share s = (Inr (refDg (sd s)), s\<lparr>sd := refDg (sd s)\<rparr>)"

definition bs_left :: "nat \<Rightarrow> (bstr, sdata) smethod" where
  "bs_left n s = (let d = sd s in if n > s_size d then share s
     else lift_res (createDgLen (fresh s) (s_str d) 0 n) s)"

definition bs_mid :: "nat \<Rightarrow> (bstr, sdata) smethod" where
  "bs_mid pos s = (let d = sd s in lift_res (if pos \<ge> s_size d then Inr (refDg zero_data)
     else createDgLen (fresh s) (s_str d) pos (s_size d - pos)) s)"

definition midLen :: "nat \<Rightarrow> nat \<Rightarrow> (bstr, sdata) smethod" where
  "midLen pos n s = (let d = sd s in
     lift_res (if pos \<ge> s_size d then Inr (refDg zero_data)
       else createDgLen (fresh s) (s_str d) pos (if n > s_size d - pos then s_size d - pos else n)) s)"

definition bs_right :: "nat \<Rightarrow> (bstr, sdata) smethod" where
  "bs_right n s = (let d = sd s in if n \<ge> s_size d then share s
     else lift_res (createDgLen (fresh s) (s_str d) (s_size d - n) n) s)"

definition cleanGet :: "(bstr, sdata) smethod" where
  "cleanGet s = (Inr (sd s), s\<lparr>sd := refDg zero_data\<rparr>)"

definition removeLeft :: "nat \<Rightarrow> (bstr, unit) smethod" where
  "removeLeft n s = (let d = sd s in if n = 0 then (Inr (), s)
     else let n = (if n > s_size d then s_size d else n) in
       setd (createDgLen (fresh s) (s_str d) n (s_size d - n)) s)"

definition removeMid :: "nat \<Rightarrow> (bstr, unit) smethod" where
  "removeMid pos s = (let d = sd s in
     setd (createDgLen (fresh s) (s_str d) 0 (if pos \<ge> s_size d then s_size d else pos)) s)"

definition removeMidLen :: "nat \<Rightarrow> nat \<Rightarrow> (bstr, unit) smethod" where
  "removeMidLen pos n s = (let d = sd s;
     pos = (if pos \<ge> s_size d then s_size d else pos);
     n = (if n > s_size d - pos then s_size d - pos else n) in
     setd (ebind (allocDg (fresh s) (s_size d - n + 1)) (\<lambda>x.
       ebind (mem_read (s_str d) 0 pos) (\<lambda>a. ebind (mem_write (s_str x) 0 a) (\<lambda>w.
       ebind (mem_read (s_str d) (pos + n) (s_size d - (pos + n))) (\<lambda>b. ebind (mem_write w pos b) (\<lambda>w.
       padzeroes (x\<lparr>s_size := s_size d - n, s_str := w\<rparr>))))))) s)"

definition removeRight :: "nat \<Rightarrow> (bstr, unit) smethod" where
  "removeRight n s = (let d = sd s in
     setd (createDgLen (fresh s) (s_str d) 0 (if n \<ge> s_size d then 0 else s_size d - n)) s)"

definition removeLeftGet :: "nat \<Rightarrow> (bstr, sdata) smethod" where
  "removeLeftGet n = sbind (bs_left n) (\<lambda>r. sbind (removeLeft n) (\<lambda>_. sreturn r))"

definition removeMidGet :: "nat \<Rightarrow> (bstr, sdata) smethod" where
  "removeMidGet pos = sbind (bs_mid pos) (\<lambda>r. sbind (removeMid pos) (\<lambda>_. sreturn r))"

definition removeMidLenGet :: "nat \<Rightarrow> nat \<Rightarrow> (bstr, sdata) smethod" where
  "removeMidLenGet pos n = sbind (midLen pos n) (\<lambda>r. sbind (removeMidLen pos n) (\<lambda>_. sreturn r))"

definition removeRightGet :: "nat \<Rightarrow> (bstr, sdata) smethod" where
  "removeRightGet n = sbind (bs_right n) (\<lambda>r. sbind (removeRight n) (\<lambda>_. sreturn r))"

section \<open>Spaces and searching\<close>

definition isspace :: "byte \<Rightarrow> bool" where
  "isspace c \<longleftrightarrow> c = 32 \<or> 9 \<le> c \<and> c \<le> 13"

function skip_loop :: "byte list \<Rightarrow> nat \<Rightarrow> nat \<Rightarrow> nat result" where
  "skip_loop m sz pos = (if pos < sz then ebind (mem_get m pos) (\<lambda>c.
     if isspace c then skip_loop m sz (Suc pos) else Inr pos) else Inr pos)"
  by pat_completeness auto
termination by (relation "measure (\<lambda>(m, sz, pos). sz - pos)") auto

fun trim_end :: "byte list \<Rightarrow> nat \<Rightarrow> nat result" where
  "trim_end m 0 = Inl OutOfBounds"
| "trim_end m (Suc e) = ebind (mem_get m e) (\<lambda>c. if isspace c then trim_end m e else Inr (Suc e))"

definition trimSpaces :: "(bstr, unit) smethod" where
  "trimSpaces = sbind (\<lambda>s. lift_res (skip_loop (s_str (sd s)) (s_size (sd s)) 0) s) (\<lambda>start.
     sbind (\<lambda>s. lift_res (if start = s_size (sd s) then Inr start else trim_end (s_str (sd s)) (s_size (sd s))) s) (\<lambda>end_pos.
     sbind (midLen start (end_pos - start)) copyS))"

definition skipSpaces :: "sdata \<Rightarrow> nat \<Rightarrow> nat result" where
  "skipSpaces d pos = skip_loop (s_str d) (s_size d) pos"

text \<open>The position, or \<open>-1\<close>.\<close>

function findChar_loop :: "byte list \<Rightarrow> nat \<Rightarrow> byte \<Rightarrow> nat \<Rightarrow> int result" where
  "findChar_loop m sz chr pos = (if pos = sz then Inr (-1)
     else if pos < length m then (if m ! pos = chr then Inr (int pos) else findChar_loop m sz chr (Suc pos))
     else Inl OutOfBounds)"
  by pat_completeness auto
termination by (relation "measure (\<lambda>(m, sz, chr, pos). length m - pos)") auto

definition findChar :: "sdata \<Rightarrow> byte \<Rightarrow> nat \<Rightarrow> int result" where
  "findChar d chr pos = findChar_loop (s_str d) (s_size d) chr pos"

fun rfindChar_loop :: "byte list \<Rightarrow> byte \<Rightarrow> nat \<Rightarrow> int result" where
  "rfindChar_loop m chr 0 = Inr (-1)"
| "rfindChar_loop m chr (Suc p) = ebind (mem_get m p) (\<lambda>c. if c = chr then Inr (int p) else rfindChar_loop m chr p)"

definition rfindChar :: "sdata \<Rightarrow> byte \<Rightarrow> nat \<Rightarrow> int result" where
  "rfindChar d chr before = rfindChar_loop (s_str d) chr (if before > s_size d then s_size d else before)"

function find_loop :: "byte list \<Rightarrow> nat \<Rightarrow> byte list \<Rightarrow> nat \<Rightarrow> int result" where
  "find_loop m sz s pos = (if pos + length s > sz then Inr (-1)
     else ebind (mem_read m pos (length s)) (\<lambda>x. if memcmp x s = 0 then Inr (int pos) else find_loop m sz s (Suc pos)))"
  by pat_completeness auto
termination by (relation "measure (\<lambda>(m, sz, s, pos). Suc sz - pos)") auto

definition bs_find :: "sdata \<Rightarrow> sdata \<Rightarrow> nat \<Rightarrow> int result" where
  "bs_find d search pos = ebind (mem_read (s_str search) 0 (s_size search)) (\<lambda>s. find_loop (s_str d) (s_size d) s pos)"

fun rfind_loop :: "byte list \<Rightarrow> byte list \<Rightarrow> nat \<Rightarrow> int result" where
  "rfind_loop m s 0 = Inr (-1)"
| "rfind_loop m s (Suc p) = ebind (mem_read m p (length s)) (\<lambda>x. if memcmp x s = 0 then Inr (int p) else rfind_loop m s p)"

text \<open>\<^verbatim>\<open>d->size-ss\<close> is a difference of two \<^verbatim>\<open>size_t\<close> values and wraps around.\<close>

definition bs_rfind :: "sdata \<Rightarrow> sdata \<Rightarrow> nat \<Rightarrow> int result" where
  "bs_rfind d search before = ebind (mem_read (s_str search) 0 (s_size search)) (\<lambda>s.
     let room = nat ((int (s_size d) - int (s_size search)) mod 2 ^ 64) in
     if before > room then (if room \<ge> 2 ^ 63 then Inr (-1) else rfind_loop (s_str d) s room)
     else rfind_loop (s_str d) s before)"

section \<open>Well-formed blocks\<close>

text \<open>
  The bytes lie inside the memory with room for a terminator; a static block is shared, an allocated one
  has the rounded capacity.  A well-formed block is terminated.
\<close>

definition fits :: "sdata \<Rightarrow> bool" where
  "fits d \<longleftrightarrow> s_size d < length (s_str d) \<and>
     (if s_al d \<le> 0 then s_size d = 0 \<and> s_refcnt d > 0 \<and> length (s_str d) = 8
      else int (s_size d) < s_al d \<and> length (s_str d) = roundsize (nat (s_al d)))"

definition swf :: "sdata \<Rightarrow> bool" where
  "swf d \<longleftrightarrow> fits d \<and> s_str d ! s_size d = 0"

lemma swf_fits [simp]: "swf d \<Longrightarrow> fits d"
  by (simp add: swf_def)

definition content :: "sdata \<Rightarrow> byte list" where
  "content d = take (s_size d) (s_str d)"

lemma content_mk [simp]: "content \<lparr>s_refcnt = r, s_size = n, s_al = a, s_hash = h, s_str = m\<rparr> = take n m"
  by (simp add: content_def)

lemma content_nil [simp]: "s_size d = 0 \<Longrightarrow> content d = []"
  by (simp add: content_def)

lemma mem_read_0 [simp]: "n \<le> length m \<Longrightarrow> mem_read m 0 n = Inr (take n m)"
  by (simp add: mem_read_def)

lemma fits_len [simp]: "fits d \<Longrightarrow> length (content d) = s_size d"
  by (auto simp: fits_def content_def)

lemma roundsize_ge: "n \<le> roundsize n"
  unfolding roundsize_def by presburger

lemma roundsize_Suc: "n < roundsize (Suc n)"
  using roundsize_ge [of "Suc n"] by simp

lemma roundsize_pad: "(n div 8 + 1) * 8 = roundsize (Suc n)"
  unfolding roundsize_def by presburger

lemma roundsize_mono: "m \<le> n \<Longrightarrow> roundsize m \<le> roundsize n"
  by (simp add: roundsize_def div_le_mono)

lemma swf_refDg [simp]: "swf d \<Longrightarrow> swf (refDg d)" and content_refDg [simp]: "content (refDg d) = content d"
  by (auto simp: swf_def fits_def refDg_def content_def)

lemma swf_static [simp]: "swf zero_data" "swf null_data" "content zero_data = []" "content null_data = []"
  by (auto simp: swf_def fits_def zero_data_def null_data_def content_def)

lemma allocDg_Suc:
  "allocDg g (Suc n) = Inr \<lparr>s_refcnt = 0, s_size = 0, s_al = int (Suc n), s_hash = -1,
     s_str = map (\<lambda>i. if i < n div 8 * 8 then g i else 0) [0..<roundsize (Suc n)]\<rparr>"
  by (simp add: allocDg_def)

lemma mem_read_content [simp]: "fits d \<Longrightarrow> mem_read (s_str d) 0 (s_size d) = Inr (content d)"
  by (simp add: fits_def mem_read_def content_def)

lemma fits_block:
  assumes "length m = roundsize (Suc k)" "n \<le> k"
  shows "fits \<lparr>s_refcnt = r, s_size = n, s_al = int (Suc k), s_hash = h, s_str = m\<rparr>"
proof -
  have "nat (int (Suc k)) = Suc k" by (rule nat_int)
  then show ?thesis using assms roundsize_Suc [of k] by (auto simp: fits_def)
qed

lemma mem_write_read:
  assumes "mem_write m off bs = Inr w"
  shows "take (off + length bs) w = take off m @ bs" "off + length bs \<le> i \<Longrightarrow> w ! i = m ! i"
    "length w = length m" "off + length bs \<le> length m"
proof -
  have h: "off + length bs \<le> length m" "w = take off m @ bs @ drop (off + length bs) m"
    using assms by (auto simp: mem_write_def split: if_splits)
  then show "take (off + length bs) w = take off m @ bs" "length w = length m" "off + length bs \<le> length m"
    by (simp_all add: min_absorb2)
  show "off + length bs \<le> i \<Longrightarrow> w ! i = m ! i"
    using h by (auto simp: nth_append min_absorb2)
qed

text \<open>A fresh block of capacity \<open>k + 1\<close> is zero from the word that holds byte \<open>k\<close> on.\<close>

lemma fresh_zero: "map (\<lambda>i. if i < k div 8 * 8 then g i else 0) [0..<roundsize (Suc k)] ! k = (0 :: byte)"
proof -
  have "\<not> k < k div 8 * 8" by presburger
  then show ?thesis using roundsize_Suc [of k] by (simp add: nth_append)
qed

lemma createDgLen_ok:
  assumes "off + n \<le> length s"
  shows "\<exists>x. createDgLen g s off n = Inr x \<and> swf x \<and> content x = take n (drop off s)"
proof (cases "n = 0")
  case True
  then show ?thesis by (simp add: createDgLen_def)
next
  case False
  let ?m0 = "map (\<lambda>i. if i < n div 8 * 8 then g i else 0) [0..<roundsize (Suc n)]"
  let ?bs = "take n (drop off s)"
  have l: "length ?bs = n" using assms by simp
  obtain w where w: "mem_write ?m0 0 ?bs = Inr w"
    using mem_write_ok [of 0 ?bs ?m0] l roundsize_Suc [of n] by auto
  note w' = mem_write_read [OF w]
  have z: "w ! n = 0" using w'(2) [of n] l fresh_zero [of n g] by simp
  have e: "createDgLen g s off n = Inr \<lparr>s_refcnt = 0, s_size = n, s_al = int (Suc n), s_hash = -1, s_str = w\<rparr>"
    using False assms w by (simp add: createDgLen_def allocDg_Suc mem_read_def)
  show ?thesis using e fits_block [of w n n 0 "-1"] w' l z assms by (simp add: content_def swf_def)
qed

section \<open>Appending\<close>

lemma fits_alloc: "fits d \<Longrightarrow> 0 < s_al d \<Longrightarrow> length (s_str d) = roundsize (nat (s_al d))"
  by (auto simp: fits_def split: if_splits)

lemma fits_room: "fits d \<Longrightarrow> roundsize (Suc (s_size d)) \<le> length (s_str d)"
proof (cases "s_al d \<le> 0")
  case True
  then show "fits d \<Longrightarrow> ?thesis" by (simp add: fits_def roundsize_def)
next
  case False
  then show "fits d \<Longrightarrow> ?thesis" using roundsize_mono [of "Suc (s_size d)" "nat (s_al d)"] by (auto simp: fits_def)
qed

lemma fill_tail_ok:
  assumes "int (s_size d + length bs) < s_al d" "fits d"
  shows "\<exists>d'. fill_tail bs d = Inr d' \<and> swf d' \<and> content d' = content d @ bs \<and>
    s_refcnt d' = s_refcnt d \<and> s_hash d' = s_hash d"
proof -
  let ?n = "s_size d + length bs"
  have l: "length (s_str d) = roundsize (nat (s_al d))" using assms by (simp add: fits_alloc)
  have b: "?n < length (s_str d)" using l assms(1) roundsize_ge [of "nat (s_al d)"] by linarith
  obtain w where w: "mem_write (s_str d) (s_size d) bs = Inr w"
    using mem_write_ok [of "s_size d" bs "s_str d"] b by auto
  note w' = mem_write_read [OF w]
  obtain v where v: "mem_write w ?n [0] = Inr v"
    using mem_write_ok [of ?n "[0]" w] w'(3) b by auto
  note v' = mem_write_read [OF v]
  have z: "take ?n v @ [v ! ?n] = take ?n w @ [0]"
    using v'(1,3) w'(3) b take_Suc_conv_app_nth [of ?n v] by simp
  then have "v ! ?n = 0" "take ?n v = content d @ bs" using w'(1) by (simp_all add: content_def)
  then show ?thesis using w v w'(3) v'(3) l assms b
    by (intro exI [of _ "d\<lparr>s_size := ?n, s_str := v\<rparr>"]) (simp add: fill_tail_def swf_def fits_def content_def)
qed

text \<open>\<open>grows m s bs\<close>: the run of \<open>m\<close> appends \<open>bs\<close> to the string and keeps the block well formed.\<close>

definition grows :: "(bstr, unit) smethod \<Rightarrow> bstr \<Rightarrow> byte list \<Rightarrow> bool" where
  "grows m s bs \<longleftrightarrow> (\<exists>d. m s = (Inr (), s\<lparr>sd := d\<rparr>) \<and> swf d \<and> content d = content (sd s) @ bs)"

lemma reallocSelfDo_ok:
  assumes "fits (sd s)" "s_size (sd s) \<le> k"
  shows "\<exists>d. reallocSelfDo k s = (Inr (), s\<lparr>sd := d\<rparr>) \<and> fits d \<and> content d = content (sd s) \<and>
    s_size d = s_size (sd s) \<and> s_al d = int (Suc k) \<and> s_refcnt d = 0"
proof -
  let ?m0 = "map (\<lambda>i. if i < k div 8 * 8 then fresh s i else 0) [0..<roundsize (Suc k)]"
  obtain w where w: "mem_write ?m0 0 (content (sd s)) = Inr w"
    using mem_write_ok [of 0 "content (sd s)" ?m0] assms roundsize_Suc [of k] by auto
  note w' = mem_write_read [OF w]
  let ?d = "\<lparr>s_refcnt = 0, s_size = s_size (sd s), s_al = int (Suc k), s_hash = -1, s_str = w\<rparr>"
  have "reallocSelfDo k s = (Inr (), s\<lparr>sd := ?d\<rparr>)"
    using assms w by (simp add: reallocSelfDo_def allocDg_Suc setd_def)
  moreover have "fits ?d" by (rule fits_block) (use w'(3) assms in simp_all)
  moreover have "content ?d = content (sd s)" using w'(1) assms by simp
  ultimately show ?thesis by (intro exI [of _ ?d]) simp
qed

lemma reallocSelf_ok:
  assumes "fits (sd s)" "s_size (sd s) \<le> k"
  shows "\<exists>d. reallocSelf k s = (Inr (), s\<lparr>sd := d\<rparr>) \<and> fits d \<and> content d = content (sd s) \<and>
    s_size d = s_size (sd s) \<and> int k < s_al d \<and> s_refcnt d = 0"
proof (cases "s_refcnt (sd s) \<noteq> 0 \<or> 0 \<le> s_al (sd s) \<and> int k \<ge> s_al (sd s)")
  case True
  then show ?thesis using reallocSelfDo_ok [OF assms] by (auto simp: reallocSelf_def)
next
  case False
  moreover have "s_al (sd s) \<le> 0 \<Longrightarrow> s_refcnt (sd s) > 0" using assms(1) by (auto simp: fits_def)
  ultimately show ?thesis using assms by (intro exI [of _ "sd s"]) (auto simp: reallocSelf_def)
qed

lemma realloc_append:
  assumes "fits (sd s)" "bs \<noteq> []"
  shows "grows (sbind (reallocSelf (s_size (sd s) + length bs)) (\<lambda>_. append_tail bs)) s bs"
proof -
  obtain d where d: "reallocSelf (s_size (sd s) + length bs) s = (Inr (), s\<lparr>sd := d\<rparr>)" "fits d"
    "content d = content (sd s)" "s_size d = s_size (sd s)" "int (s_size (sd s) + length bs) < s_al d"
    using reallocSelf_ok [of s "s_size (sd s) + length bs"] assms(1) by auto
  show ?thesis using fill_tail_ok [of d bs] d by (auto simp: grows_def sbind_def append_tail_def setd_def)
qed

lemma appendLen_ok:
  assumes "fits (sd s)" "swf (sd s)" "n \<le> length m"
  shows "grows (appendLen m n) s (take n m)"
proof (cases "n = 0")
  case True
  then show ?thesis using assms by (auto simp: appendLen_def grows_def intro!: exI [of _ "sd s"])
next
  case False
  have "appendLen m n s = sbind (reallocSelf (s_size (sd s) + length (take n m))) (\<lambda>_. append_tail (take n m)) s"
    using False assms by (simp add: appendLen_def mem_read_def lift_res_def sbind_def split: prod.splits sum.splits)
  moreover have "take n m \<noteq> []" using False assms by auto
  ultimately show ?thesis using realloc_append [of s "take n m"] assms by (simp add: grows_def)
qed

lemma bs_append_ok:
  assumes "swf (sd s)" "swf x"
  shows "grows (bs_append x) s (content x)"
proof -
  consider "s_size x = 0" | "s_size x \<noteq> 0" "s_size (sd s) = 0" | "s_size x \<noteq> 0" "s_size (sd s) \<noteq> 0" by blast
  then show ?thesis
  proof cases
    case 1
    then show ?thesis using assms by (auto simp: bs_append_def grows_def content_def intro!: exI [of _ "sd s"])
  next
    case 2
    then show ?thesis using assms
      by (auto simp: bs_append_def grows_def setd_def content_def intro!: exI [of _ "refDg x"])
        (simp_all add: refDg_def)
  next
    case 3
    have "bs_append x s = sbind (reallocSelf (s_size (sd s) + length (content x))) (\<lambda>_. append_tail (content x)) s"
      using 3 assms by (simp add: bs_append_def lift_res_def sbind_def split: prod.splits sum.splits)
    moreover have "content x \<noteq> []" using 3 assms(2) by (metis list.size(3) fits_len swf_fits)
    ultimately show ?thesis using realloc_append [of s "content x"] assms by (simp add: grows_def)
  qed
qed

lemma block_write:
  assumes "length m = roundsize (Suc k)" "length bs \<le> k"
  obtains w where "mem_write m 0 bs = Inr w" "take (length bs) w = bs" "length w = roundsize (Suc k)"
proof -
  obtain w where w: "mem_write m 0 bs = Inr w"
    using mem_write_ok [of 0 bs m] assms roundsize_Suc [of k] by auto
  show ?thesis using that [OF w] mem_write_read [OF w] assms by simp
qed

text \<open>A fresh block that starts with \<open>a\<close> and is filled up with \<open>b\<close>.\<close>

lemma alloc_fill_ok:
  obtains w d where "mem_write (map (\<lambda>i. if i < (length a + length b) div 8 * 8 then g i else 0)
      [0..<roundsize (Suc (length a + length b))]) 0 a = Inr w"
    "fill_tail b \<lparr>s_refcnt = 0, s_size = length a, s_al = int (Suc (length a + length b)), s_hash = -1, s_str = w\<rparr> = Inr d"
    "swf d" "content d = a @ b"
proof -
  let ?k = "length a + length b"
  let ?m0 = "map (\<lambda>i. if i < ?k div 8 * 8 then g i else 0) [0..<roundsize (Suc ?k)]"
  obtain w where w: "mem_write ?m0 0 a = Inr w" "take (length a) w = a" "length w = roundsize (Suc ?k)"
    using block_write [of ?m0 ?k a] by auto
  let ?d = "\<lparr>s_refcnt = 0, s_size = length a, s_al = int (Suc ?k), s_hash = -1, s_str = w\<rparr>"
  have "fits ?d" by (rule fits_block) (use w(3) in simp_all)
  then show ?thesis using fill_tail_ok [of ?d b] that [OF w(1)] w(2) by auto
qed

lemma appendReverse_ok:
  assumes "swf (sd s)" "n \<le> length m"
  shows "grows (appendReverse m n) s (rev (take n m))"
proof (cases "n = 0")
  case True
  then show ?thesis using assms by (auto simp: appendReverse_def grows_def intro!: exI [of _ "sd s"])
next
  case False
  show ?thesis using False assms
    by (rule_tac a = "content (sd s)" and b = "rev (take n m)" and g = "fresh s" in alloc_fill_ok)
      (auto simp: appendReverse_def grows_def allocDg_Suc setd_def fill_tail_def Let_def)
qed

lemma plus_str_ok:
  assumes "swf x" "swf y"
  shows "\<exists>d. plus_str g x y = Inr d \<and> swf d \<and> content d = content x @ content y"
  using assms
  by (rule_tac a = "content x" and b = "content y" and g = g in alloc_fill_ok)
    (auto simp: plus_str_def allocDg_Suc fill_tail_def)

section \<open>Parts and removal\<close>

lemma part_ok:
  assumes "fits d" "off + n \<le> s_size d"
  shows "\<exists>x. createDgLen g (s_str d) off n = Inr x \<and> swf x \<and> content x = take n (drop off (content d))"
proof -
  have "take n (drop off (content d)) = take n (drop off (s_str d))"
    using assms by (simp add: content_def drop_take min_absorb1)
  moreover have "off + n \<le> length (s_str d)" using assms by (auto simp: fits_def)
  ultimately show ?thesis using createDgLen_ok [of off n "s_str d" g] by simp
qed

text \<open>\<open>yields m s c c'\<close>: \<open>m\<close> returns a string with content \<open>c\<close> and leaves the receiver with \<open>c'\<close>.\<close>

definition yields :: "(bstr, sdata) smethod \<Rightarrow> bstr \<Rightarrow> byte list \<Rightarrow> byte list \<Rightarrow> bool" where
  "yields m s c c' \<longleftrightarrow> (\<exists>x d. m s = (Inr x, s\<lparr>sd := d\<rparr>) \<and> swf x \<and> content x = c \<and> swf d \<and> content d = c')"

definition becomes :: "(bstr, unit) smethod \<Rightarrow> bstr \<Rightarrow> byte list \<Rightarrow> bool" where
  "becomes m s c \<longleftrightarrow> (\<exists>d. m s = (Inr (), s\<lparr>sd := d\<rparr>) \<and> swf d \<and> content d = c)"

lemma share_ok: "swf (sd s) \<Longrightarrow> yields share s (content (sd s)) (content (sd s))"
  by (auto simp: yields_def share_def intro!: exI [of _ "refDg (sd s)"])

lemma yields_same:
  assumes "swf (sd s)" "m s = (Inr x, s)" "swf x" "content x = c"
  shows "yields m s c (content (sd s))"
  unfolding yields_def by (intro exI [of _ x] exI [of _ "sd s"]) (use assms in simp)

lemma yields_part:
  assumes "m s = lift_res (createDgLen g (s_str (sd s)) off n) s" "off + n \<le> s_size (sd s)" "swf (sd s)"
    "c = take n (drop off (content (sd s)))"
  shows "yields m s c (content (sd s))"
  using part_ok [of "sd s" off n g] assms by (auto simp: lift_res_def intro: yields_same)

lemma yields_share: "m s = share s \<Longrightarrow> swf (sd s) \<Longrightarrow> c = content (sd s) \<Longrightarrow> yields m s c (content (sd s))"
  using share_ok [of s] by (simp add: yields_def)

lemma yields_zero: "m s = lift_res (Inr (refDg zero_data)) s \<Longrightarrow> swf (sd s) \<Longrightarrow> yields m s [] (content (sd s))"
  by (auto simp: lift_res_def intro: yields_same)

lemma becomes_part:
  assumes "m s = setd (createDgLen g (s_str (sd s)) off n) s" "off + n \<le> s_size (sd s)" "swf (sd s)"
    "c = take n (drop off (content (sd s)))"
  shows "becomes m s c"
  using part_ok [of "sd s" off n g] assms by (auto simp: becomes_def setd_def)

lemma yields_then:
  assumes "yields m s c (content (sd s))" "\<And>d. swf d \<Longrightarrow> content d = content (sd s) \<Longrightarrow> becomes k (s\<lparr>sd := d\<rparr>) c'"
  shows "yields (sbind m (\<lambda>r. sbind k (\<lambda>_. sreturn r))) s c c'"
  using assms by (fastforce simp: yields_def becomes_def sbind_def sreturn_def)


lemma bs_left_ok: "swf (sd s) \<Longrightarrow> yields (bs_left n) s (take n (content (sd s))) (content (sd s))"
proof (cases "n > s_size (sd s)")
  case True
  then show "swf (sd s) \<Longrightarrow> ?thesis" by (intro yields_share) (auto simp: bs_left_def Let_def)
next
  case False
  then show "swf (sd s) \<Longrightarrow> ?thesis" by (intro yields_part [where off = "0" and n = "n" and g = "fresh s"]) (auto simp: bs_left_def Let_def)
qed

lemma bs_mid_ok: "swf (sd s) \<Longrightarrow> yields (bs_mid n) s (drop n (content (sd s))) (content (sd s))"
proof (cases "n \<ge> s_size (sd s)")
  case True
  then show "swf (sd s) \<Longrightarrow> ?thesis" using yields_zero [of "bs_mid n" s] by (auto simp: bs_mid_def Let_def)
next
  case False
  then show "swf (sd s) \<Longrightarrow> ?thesis" by (intro yields_part [where off = "n" and n = "s_size (sd s) - n" and g = "fresh s"]) (auto simp: bs_mid_def Let_def)
qed

lemma midLen_ok: "swf (sd s) \<Longrightarrow> yields (midLen pos n) s (take n (drop pos (content (sd s)))) (content (sd s))"
proof (cases "pos \<ge> s_size (sd s)")
  case True
  then show "swf (sd s) \<Longrightarrow> ?thesis" using yields_zero [of "midLen pos n" s] by (auto simp: midLen_def Let_def)
next
  case False
  then show "swf (sd s) \<Longrightarrow> ?thesis"
    by (intro yields_part [where off = "pos" and n = "if n > s_size (sd s) - pos then s_size (sd s) - pos else n" and g = "fresh s"])
      (auto simp: midLen_def Let_def)
qed

lemma bs_right_ok: "swf (sd s) \<Longrightarrow> yields (bs_right n) s (drop (s_size (sd s) - n) (content (sd s))) (content (sd s))"
proof (cases "n \<ge> s_size (sd s)")
  case True
  then show "swf (sd s) \<Longrightarrow> ?thesis" by (intro yields_share) (auto simp: bs_right_def Let_def)
next
  case False
  then show "swf (sd s) \<Longrightarrow> ?thesis" by (intro yields_part [where off = "s_size (sd s) - n" and n = "n" and g = "fresh s"]) (auto simp: bs_right_def Let_def)
qed

lemma removeLeft_ok: "swf (sd s) \<Longrightarrow> becomes (removeLeft n) s (drop n (content (sd s)))"
proof (cases "n = 0")
  case True
  then show "swf (sd s) \<Longrightarrow> ?thesis" by (auto simp: removeLeft_def becomes_def intro!: exI [of _ "sd s"])
next
  case False
  let ?n = "if n > s_size (sd s) then s_size (sd s) else n"
  from False show "swf (sd s) \<Longrightarrow> ?thesis"
    by (intro becomes_part [where off = "?n" and n = "s_size (sd s) - ?n" and g = "fresh s"]) (auto simp: removeLeft_def Let_def)
qed

lemma removeMid_ok: "swf (sd s) \<Longrightarrow> becomes (removeMid n) s (take n (content (sd s)))"
  by (intro becomes_part [where off = "0" and n = "if n \<ge> s_size (sd s) then s_size (sd s) else n" and g = "fresh s"])
    (auto simp: removeMid_def Let_def)

lemma removeRight_ok: "swf (sd s) \<Longrightarrow> becomes (removeRight n) s (take (s_size (sd s) - n) (content (sd s)))"
  by (intro becomes_part [where off = "0" and n = "if n \<ge> s_size (sd s) then 0 else s_size (sd s) - n" and g = "fresh s"])
    (auto simp: removeRight_def Let_def)

text \<open>Padding with zeroes keeps the content and terminates it.\<close>

lemma padzeroes_alt:
  "padzeroes d = ebind (mem_write (s_str d) (s_size d) (replicate (roundsize (Suc (s_size d)) - s_size d) 0))
     (\<lambda>m. Inr (d\<lparr>s_str := m\<rparr>))"
  by (simp only: padzeroes_def roundsize_pad)

lemma padzeroes_ok:
  assumes "fits d"
  shows "\<exists>m. padzeroes d = Inr (d\<lparr>s_str := m\<rparr>) \<and> swf (d\<lparr>s_str := m\<rparr>) \<and> take (s_size d) m = content d"
proof -
  let ?z = "replicate (roundsize (Suc (s_size d)) - s_size d) (0 :: byte)"
  have "roundsize (Suc (s_size d)) \<le> length (s_str d)" using assms by (rule fits_room)
  then obtain w where w: "mem_write (s_str d) (s_size d) ?z = Inr w"
    using mem_write_ok [of "s_size d" ?z "s_str d"] roundsize_Suc [of "s_size d"] by auto
  have t: "take (s_size d) w = content d" using mem_write_take [OF w] by (simp add: content_def)
  have "w ! s_size d = 0" using w roundsize_Suc [of "s_size d"]
    by (auto simp: mem_write_def nth_append min_absorb2 split: if_splits)
  then show ?thesis using w t mem_write_length [OF w] assms
    by (intro exI [of _ w]) (simp add: padzeroes_alt swf_def fits_def)
qed

lemma removeMidLen_ok:
  assumes "swf (sd s)"
  shows "becomes (removeMidLen pos n) s (take pos (content (sd s)) @ drop (pos + n) (content (sd s)))"
proof -
  let ?d = "sd s"
  define p where "p = min pos (s_size ?d)"
  define k where "k = min n (s_size ?d - p)"
  let ?a = "take p (content ?d)" and ?b = "drop (p + k) (content ?d)"
  let ?K = "s_size ?d - k"
  let ?m0 = "map (\<lambda>i. if i < ?K div 8 * 8 then fresh s i else 0) [0..<roundsize (Suc ?K)]"
  have len: "length ?a = p" "length ?b = s_size ?d - (p + k)" "p + k \<le> s_size ?d"
    using assms by (auto simp: p_def k_def)
  have ra: "mem_read (s_str ?d) 0 p = Inr ?a" and rb: "mem_read (s_str ?d) (p + k) (s_size ?d - (p + k)) = Inr ?b"
    using swf_fits [OF assms] len(3) by (auto simp: mem_read_def content_def fits_def drop_take p_def)
  have K: "p + length ?b = ?K" using len by arith
  have "?K < length ?m0" using roundsize_Suc [of ?K] by simp
  then have fa: "0 + length ?a \<le> length ?m0" and fb: "p + length ?b \<le> length ?m0" using len K by linarith+
  obtain w where w: "mem_write ?m0 0 ?a = Inr w" using mem_write_ok [OF fa] by blast
  note w' = mem_write_read [OF w]
  obtain v where v: "mem_write w p ?b = Inr v" using mem_write_ok [of p ?b w] fb w'(3) by metis
  note v' = mem_write_read [OF v]
  let ?x = "\<lparr>s_refcnt = 0, s_size = ?K, s_al = int (Suc ?K), s_hash = -1, s_str = v\<rparr>"
  have "fits ?x" by (rule fits_block) (use w' v' in simp_all)
  moreover have "content ?x = ?a @ ?b" using v'(1) w'(1) len by simp
  moreover have "removeMidLen pos n s = setd (padzeroes ?x) s"
  proof -
    have p': "(if pos \<ge> s_size ?d then s_size ?d else pos) = p" and k': "(if n > s_size ?d - p then s_size ?d - p else n) = k"
      by (auto simp: p_def k_def)
    show ?thesis unfolding removeMidLen_def Let_def p' k'
      using ra rb w v by (simp add: allocDg_Suc del: of_nat_Suc of_nat_diff)
  qed
  moreover have "?a = take pos (content ?d)" "?b = drop (pos + n) (content ?d)"
    using assms by (auto simp: p_def k_def min_def)
  ultimately show ?thesis using padzeroes_ok [of ?x] by (auto simp: becomes_def setd_def content_def)
qed

section \<open>Searching\<close>

lemma memcmp_refl [simp]: "memcmp xs xs = 0"
  by (induction xs) auto

lemma memcmp_0: "length xs = length ys \<Longrightarrow> memcmp xs ys = 0 \<longleftrightarrow> xs = ys"
  by (induction xs ys rule: memcmp.induct) auto

definition occurs :: "byte list \<Rightarrow> byte list \<Rightarrow> nat \<Rightarrow> bool" where
  "occurs c s i \<longleftrightarrow> i + length s \<le> length c \<and> take (length s) (drop i c) = s"

definition find_spec :: "(nat \<Rightarrow> bool) \<Rightarrow> nat \<Rightarrow> int" where
  "find_spec P pos = (if \<exists>i\<ge>pos. P i then int (LEAST i. pos \<le> i \<and> P i) else -1)"

definition rfind_spec :: "(nat \<Rightarrow> bool) \<Rightarrow> nat \<Rightarrow> int" where
  "rfind_spec P k = (if \<exists>i<k. P i then int (GREATEST i. i < k \<and> P i) else -1)"

lemma find_spec_here: "P pos \<Longrightarrow> find_spec P pos = int pos"
  unfolding find_spec_def by (auto intro: Least_equality)

lemma find_spec_step: "\<not> P pos \<Longrightarrow> find_spec P pos = find_spec P (Suc pos)"
proof -
  assume "\<not> P pos"
  then have "(pos \<le> i \<and> P i) = (Suc pos \<le> i \<and> P i)" for i by (metis Suc_leD le_antisym not_less_eq_eq)
  then show ?thesis by (simp add: find_spec_def)
qed

lemma find_spec_none: "(\<And>i. pos \<le> i \<Longrightarrow> \<not> P i) \<Longrightarrow> find_spec P pos = -1"
  by (auto simp: find_spec_def)

lemma rfind_spec_here: "P k \<Longrightarrow> rfind_spec P (Suc k) = int k"
  unfolding rfind_spec_def by (auto intro: Greatest_equality)

lemma rfind_spec_step: "\<not> P k \<Longrightarrow> rfind_spec P (Suc k) = rfind_spec P k"
proof -
  assume "\<not> P k"
  then have "(i < Suc k \<and> P i) = (i < k \<and> P i)" for i by (metis less_Suc_eq)
  then show ?thesis by (simp add: rfind_spec_def)
qed

lemma rfind_spec_0: "rfind_spec P 0 = -1"
  by (simp add: rfind_spec_def)

text \<open>What one comparison at \<open>pos\<close> tells.\<close>

lemma occurs_here:
  assumes "pos + length s \<le> sz" "sz \<le> length m"
  shows "mem_read m pos (length s) = Inr (take (length s) (drop pos m))"
    "memcmp (take (length s) (drop pos m)) s = 0 \<longleftrightarrow> occurs (take sz m) s pos"
proof -
  have "length (take (length s) (drop pos m)) = length s" using assms by simp
  from memcmp_0 [OF this] show "memcmp (take (length s) (drop pos m)) s = 0 \<longleftrightarrow> occurs (take sz m) s pos"
    using assms by (auto simp: occurs_def drop_take min_absorb1)
qed (use assms in \<open>simp add: mem_read_def\<close>)

lemma find_loop_ok: "sz \<le> length m \<Longrightarrow> find_loop m sz s pos = Inr (find_spec (occurs (take sz m) s) pos)"
proof (induction m sz s pos rule: find_loop.induct)
  case (1 m sz s pos)
  show ?case
  proof (cases "pos + length s > sz")
    case True
    then have "find_spec (occurs (take sz m) s) pos = -1" by (intro find_spec_none) (auto simp: occurs_def)
    then show ?thesis using True by (subst find_loop.simps) simp
  next
    case False
    note h = occurs_here [of pos s sz m]
    show ?thesis using False h 1 find_spec_here [of "occurs (take sz m) s"] find_spec_step [of "occurs (take sz m) s"]
      by (subst find_loop.simps) simp
  qed
qed

lemma bs_find_ok:
  "fits d \<Longrightarrow> fits search \<Longrightarrow> bs_find d search pos = Inr (find_spec (occurs (content d) (content search)) pos)"
  using find_loop_ok [of "s_size d" "s_str d" "content search" pos]
  by (simp add: bs_find_def content_def [of d] fits_def [of d])

lemma rfind_loop_ok:
  "k + length s \<le> Suc sz \<Longrightarrow> sz \<le> length m \<Longrightarrow> rfind_loop m s k = Inr (rfind_spec (occurs (take sz m) s) k)"
proof (induction k)
  case (Suc p)
  then show ?case using occurs_here [of p s sz m] rfind_spec_here [of "occurs (take sz m) s" p]
      rfind_spec_step [of "occurs (take sz m) s" p] by auto
qed (simp add: rfind_spec_0)

text \<open>\<open>rfind\<close> looks below \<open>size - ss\<close>: it never reports the occurrence at the very end.\<close>

lemma bs_rfind_ok:
  assumes "fits d" "fits search" "s_size search \<le> s_size d" "s_size d < 2 ^ 63"
  shows "bs_rfind d search before =
    Inr (rfind_spec (occurs (content d) (content search)) (min before (s_size d - s_size search)))"
proof -
  let ?room = "s_size d - s_size search"
  have r: "nat ((int (s_size d) - int (s_size search)) mod 2 ^ 64) = ?room"
    using assms(3,4) by (simp flip: of_nat_diff)
  have "bs_rfind d search before = rfind_loop (s_str d) (content search) (min before ?room)"
    using assms r by (simp add: bs_rfind_def Let_def min_def)
  then show ?thesis using rfind_loop_ok [of "min before ?room" "content search" "s_size d" "s_str d"] assms
    by (simp add: content_def [of d] fits_def [of d])
qed

section \<open>Reading numbers back\<close>

definition digit_val :: "byte \<Rightarrow> nat" where
  "digit_val c = (if c \<le> 57 then unat c - 48 else unat c - 87)"

definition parse_digits :: "nat \<Rightarrow> byte list \<Rightarrow> nat" where
  "parse_digits base cs = foldl (\<lambda>v c. v * base + digit_val c) 0 cs"

fun parse_number :: "nat \<Rightarrow> byte list \<Rightarrow> int" where
  "parse_number base [] = 0"
| "parse_number base (c # cs) = (if c = 45 then - int (parse_digits base cs) else int (parse_digits base (c # cs)))"

lemma digit_char:
  assumes "i < 36"
  shows "\<exists>c. mem_get digit_chars i = Inr c \<and> digit_val c = i \<and> c \<noteq> 45"
proof -
  have "list_all (\<lambda>i. case mem_get digit_chars i of Inr c \<Rightarrow> digit_val c = i \<and> c \<noteq> 45 | Inl e \<Rightarrow> False) [0..<36]"
    by code_simp
  then show ?thesis using assms by (cases "mem_get digit_chars i") (auto simp: list_all_iff dest: bspec [of _ _ i])
qed

lemma parse_digits_snoc: "parse_digits base (cs @ [c]) = parse_digits base cs * base + digit_val c"
  by (simp add: parse_digits_def)

declare num_loop.simps [simp del]

lemma num_loop_ok:
  assumes "2 \<le> base" "base \<le> 36" "n < base ^ Suc k" "length acc + Suc k \<le> cap"
  shows "\<exists>ds. num_loop base cap n acc = Inr (acc @ ds) \<and> ds \<noteq> [] \<and> length ds \<le> Suc k \<and>
    parse_digits base (rev ds) = n \<and> 45 \<notin> set ds"
  using assms(3,4)
proof (induction k arbitrary: n acc)
  case 0
  then obtain c where c: "mem_get digit_chars (n mod base) = Inr c" "digit_val c = n mod base" "c \<noteq> 45"
    using digit_char [of "n mod base"] assms(1,2) by auto
  show ?case using 0 c assms(1,2) by (subst num_loop.simps) (auto simp: parse_digits_def intro!: exI [of _ "[c]"])
next
  case (Suc k)
  obtain c where c: "mem_get digit_chars (n mod base) = Inr c" "digit_val c = n mod base" "c \<noteq> 45"
    using digit_char [of "n mod base"] assms(1,2) mod_less_divisor [of base n] by (metis less_le_trans not_numeral_le_zero not_gr_zero)
  show ?case
  proof (cases "n div base = 0")
    case True
    then have "n mod base = n" using assms(1) by (metis div_eq_0_iff mod_less not_numeral_le_zero)
    then show ?thesis using Suc.prems c assms(1,2) True
      by (subst num_loop.simps) (auto simp: parse_digits_def Let_def intro!: exI [of _ "[c]"])
  next
    case False
    have "n div base < base ^ Suc k" using Suc.prems(1) assms(1) by (simp add: less_mult_imp_div_less mult.commute)
    from Suc.IH [OF this, of "acc @ [c]"] Suc.prems(2)
    obtain ds where ds: "num_loop base cap (n div base) (acc @ [c]) = Inr ((acc @ [c]) @ ds)" "ds \<noteq> []"
      "length ds \<le> Suc k" "parse_digits base (rev ds) = n div base" "45 \<notin> set ds" by auto
    then show ?thesis using c False Suc.prems(2) assms(1)
      by (subst num_loop.simps) (auto simp: Let_def parse_digits_snoc intro!: exI [of _ "c # ds"])
  qed
qed

lemma parse_number_pos: "45 \<notin> set cs \<Longrightarrow> parse_number base cs = int (parse_digits base cs)"
  by (cases cs) (auto simp: parse_digits_def)

lemma append_digits:
  assumes "swf (sd s)" "num_loop base cap n [] = Inr ds"
  shows "grows (\<lambda>s. appendReverse ds (length ds) s) s (rev ds)"
  using appendReverse_ok [of s "length ds" ds] assms by simp

lemma appendNumberU_ok:
  fixes n :: "'a::len word"
  assumes "swf (sd s)" "2 \<le> base" "base \<le> 36"
  shows "\<exists>t. grows (appendNumberU (Suc LENGTH('a)) n base) s t \<and> parse_number base t = uint n"
proof -
  have "unat n < base ^ Suc LENGTH('a)"
  proof -
    have "unat n < 2 ^ LENGTH('a)" by simp
    also have "\<dots> \<le> base ^ LENGTH('a)" using assms(2) by (simp add: power_mono)
    also have "\<dots> \<le> base ^ Suc LENGTH('a)" using assms(2) by simp
    finally show ?thesis .
  qed
  from num_loop_ok [OF assms(2,3) this, of "[]" "Suc LENGTH('a)"]
  obtain ds where ds: "num_loop base (Suc LENGTH('a)) (unat n) [] = Inr ds" "parse_digits base (rev ds) = unat n" "45 \<notin> set ds"
    by auto
  then show ?thesis using appendReverse_ok [OF assms(1), of "length ds" ds] parse_number_pos [of "rev ds" base]
    by (intro exI [of _ "rev ds"]) (auto simp: appendNumberU_def grows_def sbind_def lift_res_def)
qed

lemma uint_of_sint:
  fixes n :: "'a::len word"
  shows "0 \<le> sint n \<Longrightarrow> int (unat n) = sint n" "sint n < 0 \<Longrightarrow> int (unat (- n)) = - sint n"
proof -
  have r: "- (2 ^ (LENGTH('a) - 1)) \<le> sint n" "sint n < 2 ^ (LENGTH('a) - 1)"
    using sint_greater_eq [of n] sint_less [of n] by simp_all
  have p: "(2 :: int) ^ (LENGTH('a) - 1) < 2 ^ LENGTH('a)" by simp
  have u: "int (unat (word_of_int i :: 'a word)) = i" if "0 \<le> i" "i < 2 ^ LENGTH('a)" for i
    using that by (simp add: unsigned_of_int take_bit_int_eq_self)
  show "0 \<le> sint n \<Longrightarrow> int (unat n) = sint n" using u [of "sint n"] r p by simp
  show "sint n < 0 \<Longrightarrow> int (unat (- n)) = - sint n" using u [of "- sint n"] r p by simp
qed

lemma appendNumberS_ok:
  fixes n :: "'a::len word"
  assumes "swf (sd s)" "2 \<le> base" "base \<le> 36"
  shows "\<exists>t. grows (appendNumberS (Suc LENGTH('a)) n base) s t \<and> parse_number base t = sint n"
proof -
  let ?neg = "sint n < 0"
  let ?a = "if ?neg then - n else n"
  have "unat ?a < base ^ Suc (LENGTH('a) - 1)"
  proof -
    have "unat ?a < 2 ^ LENGTH('a)" by simp
    also have "\<dots> \<le> base ^ LENGTH('a)" using assms(2) by (simp add: power_mono)
    finally show ?thesis by simp
  qed
  from num_loop_ok [OF assms(2,3) this, of "[]" "Suc LENGTH('a)"]
  obtain ds where ds: "num_loop base (Suc LENGTH('a)) (unat ?a) [] = Inr ds" "length ds \<le> LENGTH('a)"
    "parse_digits base (rev ds) = unat ?a" "45 \<notin> set ds"
    by auto
  show ?thesis
  proof (cases ?neg)
    case True
    then show ?thesis using ds appendReverse_ok [OF assms(1), of "Suc (length ds)" "ds @ [45]"] uint_of_sint(2) [of n]
      by (intro exI [of _ "45 # rev ds"])
        (auto simp: appendNumberS_def grows_def sbind_def lift_res_def push_sign_def Let_def)
  next
    case False
    then show ?thesis using uint_of_sint(1) [of n] ds appendReverse_ok [OF assms(1), of "length ds" ds] parse_number_pos [of "rev ds" base]
      by (intro exI [of _ "rev ds"])
        (auto simp: appendNumberS_def grows_def sbind_def lift_res_def push_sign_def Let_def)
  qed
qed

section \<open>Order and hash\<close>

lemma memcmp_lex:
  "ord_class.lexordp xs ys \<longleftrightarrow>
     memcmp (take (min (length xs) (length ys)) xs) (take (min (length xs) (length ys)) ys) < 0 \<or>
     memcmp (take (min (length xs) (length ys)) xs) (take (min (length xs) (length ys)) ys) = 0 \<and> length xs < length ys"
  by (induction xs ys rule: memcmp.induct) (auto simp: not_less)

lemma memcmp_neg: "length xs = length ys \<Longrightarrow> memcmp ys xs = - memcmp xs ys"
  by (induction xs ys rule: memcmp.induct) auto

text \<open>The key \<open>bcmp\<close> orders by: nothing for the null string, the bytes otherwise.\<close>

definition skey :: "sdata \<Rightarrow> byte list option" where
  "skey d = (if s_al d < 0 then None else Some (content d))"

fun key_less :: "byte list option \<Rightarrow> byte list option \<Rightarrow> bool" where
  "key_less None k \<longleftrightarrow> k \<noteq> None"
| "key_less (Some a) None \<longleftrightarrow> False"
| "key_less (Some a) (Some b) \<longleftrightarrow> ord_class.lexordp a b"

lemma bs_bcmp_ok:
  assumes "fits x" "fits y"
  shows "\<exists>r. bs_bcmp x y = Inr r \<and> (r < 0 \<longleftrightarrow> key_less (skey x) (skey y)) \<and> (r > 0 \<longleftrightarrow> key_less (skey y) (skey x))"
proof (cases "s_al x < 0 \<or> s_al y < 0")
  case True
  then show ?thesis by (auto simp: bs_bcmp_def skey_def)
next
  case False
  let ?n = "min (s_size x) (s_size y)"
  let ?c = "memcmp (take ?n (content x)) (take ?n (content y))"
  have r: "mem_read (s_str x) 0 ?n = Inr (take ?n (content x))" "mem_read (s_str y) 0 ?n = Inr (take ?n (content y))"
    using assms by (auto simp: mem_read_def content_def fits_def min_def)
  have m: "(if s_size x < s_size y then s_size x else s_size y) = ?n" by auto
  have neg: "memcmp (take ?n (content y)) (take ?n (content x)) = - ?c"
    using assms by (intro memcmp_neg) simp
  show ?thesis using False r m neg memcmp_lex [of "content x" "content y"] memcmp_lex [of "content y" "content x"] assms
    by (auto simp: bs_bcmp_def skey_def Let_def min.commute)
qed

definition hash_ok :: "sdata \<Rightarrow> bool" where
  "hash_ok d \<longleftrightarrow> s_hash d < 0 \<or> s_hash d = hash_value (content d)"

lemma hash_value_nonneg: "0 \<le> hash_value bs"
  by (simp add: hash_value_def Let_def)

lemma bs_beq_ok:
  assumes "fits x" "fits y" "hash_ok x" "hash_ok y"
  shows "\<exists>x' y'. bs_beq x y = Inr (content x = content y, x', y') \<and> content x' = content x \<and> content y' = content y \<and>
    fits x' \<and> fits y' \<and> hash_ok x' \<and> hash_ok y'"
proof -
  define x' where "x' = x\<lparr>s_hash := hash_value (content x)\<rparr>"
  define y' where "y' = y\<lparr>s_hash := hash_value (content y)\<rparr>"
  have x: "(if s_hash x < 0 then updateHash x else Inr x) = Inr x'" "fits x'" "content x' = content x" "hash_ok x'"
    using assms(1,3) by (auto simp: updateHash_def x'_def hash_ok_def fits_def content_def)
  have y: "(if s_hash y < 0 then updateHash y else Inr y) = Inr y'" "fits y'" "content y' = content y" "hash_ok y'"
    using assms(2,4) by (auto simp: updateHash_def y'_def hash_ok_def fits_def content_def)
  have h: "s_hash x' = hash_value (content x)" "s_hash y' = hash_value (content y)" "s_size x' = s_size x" "s_size y' = s_size y"
    by (simp_all add: x'_def y'_def)
  have "bs_beq x y = Inr (content x = content y, x', y')"
  proof (cases "s_size x = s_size y")
    case True
    have "mem_read (s_str x') 0 (s_size x) = Inr (content x)" "mem_read (s_str y') 0 (s_size x) = Inr (content y)"
      using x(2,3) y(2,3) h True mem_read_content [of x'] mem_read_content [of y'] by simp_all
    then show ?thesis unfolding bs_beq_def x(1) y(1) using h True assms memcmp_0 [of "content x" "content y"] by auto
  next
    case False
    then have "content x \<noteq> content y" using assms by (metis fits_len)
    then show ?thesis unfolding bs_beq_def x(1) y(1) using h False by simp
  qed
  then show ?thesis using x y by blast
qed

section \<open>In-place changes and the cached hash\<close>

lemma appendLen_in_place:
  assumes "swf (sd s)" "s_refcnt (sd s) = 0" "int (s_size (sd s) + n) < s_al (sd s)" "0 < n" "n \<le> length m"
  shows "\<exists>d. appendLen m n s = (Inr (), s\<lparr>sd := d\<rparr>) \<and> swf d \<and> content d = content (sd s) @ take n m \<and>
    s_hash d = s_hash (sd s)"
  using fill_tail_ok [of "sd s" "take n m"] assms
  by (auto simp: appendLen_def reallocSelf_def sbind_def lift_res_def append_tail_def setd_def)

lemma lock_shared_overrun:
  assumes "swf (sd s)" "0 < s_refcnt (sd s)" "roundsize (Suc n) < roundsize (Suc (s_size (sd s)))"
  shows "bs_lock n s = (Inl OutOfBounds, s)"
  using fits_room [of "sd s"] assms by (simp add: bs_lock_def allocDg_Suc setd_def mem_write_def Let_def)

lemma lock_empty_ok:
  assumes "sd s = zero_data" "length bs = n" "k \<le> n"
  shows "becomes (sbind (bs_lock n) (\<lambda>_. sbind (poke 0 bs) (\<lambda>_. bs_unlock k))) s (take k bs)"
proof -
  let ?m0 = "map (\<lambda>i. if i < n div 8 * 8 then fresh s i else 0) [0..<roundsize (Suc n)]"
  have r: "(8 :: nat) \<le> length ?m0" by (simp add: roundsize_def)
  then obtain w where w: "mem_write ?m0 0 (replicate 8 0) = Inr w" using mem_write_ok [of 0 "replicate 8 0" ?m0] by auto
  note w' = mem_write_read [OF w]
  have wn: "w ! n = 0"
  proof (cases "n < 8")
    case True
    then have "w ! n = take 8 w ! n" by simp
    also have "\<dots> = 0" using w'(1) True by simp
    finally show ?thesis .
  next
    case False
    then show ?thesis using w'(2) [of n] fresh_zero [of n "fresh s"] by simp
  qed
  have "0 + length bs \<le> length w" using w'(3) assms(2) roundsize_Suc [of n] by simp
  then obtain v where v: "mem_write w 0 bs = Inr v" using mem_write_ok [of 0 bs w] by blast
  note v' = mem_write_read [OF v]
  have vn: "v ! n = 0" using v'(2) [of n] assms(2) wn by simp
  let ?d = "\<lambda>k. \<lparr>s_refcnt = 0, s_size = k, s_al = int (Suc n), s_hash = -1, s_str = v\<rparr>"
  have f: "fits (?d k)" if "k \<le> n" for k by (rule fits_block) (use w'(3) v'(3) that in simp_all)
  have run: "sbind (bs_lock n) (\<lambda>_. sbind (poke 0 bs) (\<lambda>_. bs_unlock k)) s = bs_unlock k (s\<lparr>sd := ?d n\<rparr>)"
    using assms w v by (simp add: sbind_def bs_lock_def allocDg_Suc setd_def Let_def zero_data_def roundsize_def poke_def)
  have c: "take k v = take k bs" using v'(1) assms(2,3) by (metis add_0 append_self_conv2 min_absorb1 take0 take_take)
  consider "k = n" | "k \<noteq> n" "k = 0" | "k \<noteq> n" "k \<noteq> 0" by blast
  then show ?thesis
  proof cases
    case 1
    then show ?thesis unfolding becomes_def run using f [of n] vn c
      by (intro exI [of _ "?d n"]) (simp add: bs_unlock_def swf_def)
  next
    case 2
    then show ?thesis unfolding becomes_def run by (simp add: bs_unlock_def setd_def) (metis content_refDg swf_refDg swf_static(1,3))
  next
    case 3
    then show ?thesis unfolding becomes_def run using padzeroes_ok [OF f [OF assms(3)]] assms(3) c
      by (auto simp: bs_unlock_def setd_def changed_def swf_def fits_def content_def)
  qed
qed

section \<open>Trimming\<close>

lemma skip_loop_ok:
  "pos \<le> sz \<Longrightarrow> sz \<le> length m \<Longrightarrow>
   skip_loop m sz pos = Inr (pos + length (takeWhile isspace (drop pos (take sz m))))"
proof (induction m sz pos rule: skip_loop.induct)
  case (1 m sz pos)
  show ?case
  proof (cases "pos < sz")
    case True
    then have "drop pos (take sz m) = m ! pos # drop (Suc pos) (take sz m)"
      using 1(3) by (metis Cons_nth_drop_Suc length_take min_absorb2 nth_take)
    then show ?thesis using 1 True by (subst skip_loop.simps) simp
  next
    case False
    then show ?thesis using 1 by (subst skip_loop.simps) simp
  qed
qed

declare skip_loop.simps [simp del]

definition trim :: "byte list \<Rightarrow> byte list" where
  "trim c = rev (dropWhile isspace (rev (dropWhile isspace c)))"

lemma trim_end_ok:
  "e \<le> length m \<Longrightarrow> \<exists>i<e. \<not> isspace (m ! i) \<Longrightarrow>
   trim_end m e = Inr (length (dropWhile isspace (rev (take e m))))"
proof (induction e)
  case (Suc e)
  have "rev (take (Suc e) m) = m ! e # rev (take e m)" using Suc.prems by (simp add: take_Suc_conv_app_nth)
  moreover have "isspace (m ! e) \<Longrightarrow> \<exists>i<e. \<not> isspace (m ! i)" using Suc.prems(2) less_Suc_eq by auto
  ultimately show ?case using Suc by (auto simp: Suc_le_eq)
qed simp

lemma take_trim: "take (length (dropWhile P (rev d))) d = rev (dropWhile P (rev d))"
proof -
  have "d = rev (dropWhile P (rev d)) @ rev (takeWhile P (rev d))"
    by (metis rev_append rev_rev_ident takeWhile_dropWhile_id)
  then show ?thesis by (metis append_eq_conv_conj length_rev)
qed

lemma trim_cut:
  assumes "\<exists>x\<in>set c. \<not> isspace x"
  shows "take (length (dropWhile isspace (rev c)) - length (takeWhile isspace c)) (drop (length (takeWhile isspace c)) c) = trim c"
proof -
  let ?a = "takeWhile isspace c" and ?d = "dropWhile isspace c"
  have c: "rev c = rev ?d @ rev ?a" by (metis rev_append takeWhile_dropWhile_id)
  have "\<exists>x\<in>set (rev ?d). \<not> isspace x" using assms by (metis set_rev set_takeWhileD takeWhile_dropWhile_id Un_iff set_append)
  then have "dropWhile isspace (rev c) = dropWhile isspace (rev ?d) @ rev ?a" by (subst c) (auto simp: dropWhile_append1)
  then show ?thesis using take_trim [of isspace ?d] by (simp add: trim_def dropWhile_eq_drop [symmetric])
qed

lemma trimSpaces_ok:
  assumes "swf (sd s)"
  shows "becomes trimSpaces s (trim (content (sd s)))"
proof -
  let ?d = "sd s" and ?c = "content (sd s)"
  let ?st = "length (takeWhile isspace ?c)"
  have sz: "s_size ?d \<le> length (s_str ?d)" "length ?c = s_size ?d" using assms by (auto simp: swf_def fits_def content_def)
  have sk: "skip_loop (s_str ?d) (s_size ?d) 0 = Inr ?st" using skip_loop_ok [of 0 "s_size ?d" "s_str ?d"] sz by (simp add: content_def)
  define en where "en = (if ?st = s_size ?d then ?st else length (dropWhile isspace (rev ?c)))"
  have all: "?st = s_size ?d \<longleftrightarrow> (\<forall>x\<in>set ?c. isspace x)"
    using sz(2) by (metis takeWhile_eq_all_conv takeWhile_eq_take take_all_iff order_refl length_takeWhile_le le_antisym)
  have te: "(if ?st = s_size ?d then Inr ?st else trim_end (s_str ?d) (s_size ?d)) = Inr en"
  proof (cases "?st = s_size ?d")
    case False
    then obtain i where "i < s_size ?d" "\<not> isspace (s_str ?d ! i)"
      using all sz by (auto simp: in_set_conv_nth content_def)
    then show ?thesis using trim_end_ok [of "s_size ?d" "s_str ?d"] sz False by (auto simp: en_def content_def)
  qed (simp add: en_def)
  have cut: "take (en - ?st) (drop ?st ?c) = trim ?c"
  proof (cases "?st = s_size ?d")
    case True
    then show ?thesis using all by (auto simp: en_def trim_def dest: set_dropWhileD)
  next
    case False
    then show ?thesis using trim_cut [of ?c] all by (auto simp: en_def)
  qed
  have "yields (midLen ?st (en - ?st)) s (trim ?c) ?c" using midLen_ok [OF assms, of ?st "en - ?st"] cut by simp
  then show ?thesis using sk te
    by (auto simp: yields_def becomes_def trimSpaces_def sbind_def lift_res_def copyS_def setd_def
        simp del: dropWhile_eq_drop cong: if_cong)
qed

section \<open>Properties\<close>

text \<open>
  C23: Appending to a well-formed byte string, by any of the append operations, returns normally,
  leaves a well-formed string and makes its content the old content followed by what was appended;
  \<open>operator+\<close> does the same in a new string.
\<close>

theorem bstring_append_family:
  assumes "swf (sd s)" and "swf x" and "n \<le> length m"
  shows "grows (bs_append x) s (content x) \<and> grows (appendLen m n) s (take n m) \<and>
    grows (appendAscii m n) s (take n m) \<and> grows (appendReverse m n) s (rev (take n m)) \<and>
    grows (appendChar c) s [c] \<and>
    (\<exists>d. plus_str g (sd s) x = Inr d \<and> swf d \<and> content d = content (sd s) @ content x)"
  using bs_append_ok [OF assms(1,2)] appendLen_ok [of s n m] appendReverse_ok [of s n m] appendLen_ok [of s 1 "[c]"]
    plus_str_ok [OF assms(1,2)] assms by (simp add: appendAscii_def appendChar_def)

text \<open>\<open>sample bs\<close> is a string object that was assigned \<open>bs\<close>.\<close>

definition sample :: "byte list \<Rightarrow> bstr" where
  "sample bs = snd (copyLen bs (length bs) \<lparr>sd = zero_data, fresh = (\<lambda>i. 165)\<rparr>)"

lemma sample_ok [simp]: "swf (sd (sample bs))" "content (sd (sample bs)) = bs"
  using createDgLen_ok [of 0 "length bs" bs "\<lambda>i. 165"] by (auto simp: sample_def copyLen_def setd_def)

theorem bstring_append_family_witness:
  "grows (bs_append (sd (sample [99]))) (sample [97, 98]) [99] \<and>
   grows (appendReverse [1, 2, 3] 2) (sample [97, 98]) [2, 1]"
  using bstring_append_family [of "sample [97, 98]" "sd (sample [99])" 2 "[1, 2, 3]"] by simp

text \<open>
  C26: The parts of a well-formed byte string: \<open>removeLeftGet\<close>, \<open>removeMidGet\<close> and \<open>removeRightGet\<close>
  return the part that \<open>left\<close>, \<open>mid\<close> and \<open>right\<close> return and leave exactly the rest, for every position
  and length, also beyond the end.
\<close>

theorem bstring_parts:
  assumes "swf (sd s)"
  shows "yields (removeLeftGet n) s (take n (content (sd s))) (drop n (content (sd s))) \<and>
    yields (removeMidGet n) s (drop n (content (sd s))) (take n (content (sd s))) \<and>
    yields (removeMidLenGet pos n) s (take n (drop pos (content (sd s))))
      (take pos (content (sd s)) @ drop (pos + n) (content (sd s))) \<and>
    yields (removeRightGet n) s (drop (s_size (sd s) - n) (content (sd s))) (take (s_size (sd s) - n) (content (sd s)))"
proof (intro conjI)
  have sz: "swf d \<Longrightarrow> content d = content (sd s) \<Longrightarrow> s_size d = s_size (sd s)" for d
    using assms by (metis fits_len swf_fits)
  show "yields (removeLeftGet n) s (take n (content (sd s))) (drop n (content (sd s)))"
    unfolding removeLeftGet_def using bs_left_ok [OF assms]
    by (rule yields_then) (metis bstr.select_convs(1) bstr.surjective bstr.update_convs(1) removeLeft_ok)
  show "yields (removeMidGet n) s (drop n (content (sd s))) (take n (content (sd s)))"
    unfolding removeMidGet_def using bs_mid_ok [OF assms]
    by (rule yields_then) (metis bstr.select_convs(1) bstr.surjective bstr.update_convs(1) removeMid_ok)
  show "yields (removeMidLenGet pos n) s (take n (drop pos (content (sd s))))
      (take pos (content (sd s)) @ drop (pos + n) (content (sd s)))"
    unfolding removeMidLenGet_def using midLen_ok [OF assms]
    by (rule yields_then) (metis bstr.select_convs(1) bstr.surjective bstr.update_convs(1) removeMidLen_ok)
  show "yields (removeRightGet n) s (drop (s_size (sd s) - n) (content (sd s))) (take (s_size (sd s) - n) (content (sd s)))"
    unfolding removeRightGet_def using bs_right_ok [OF assms]
    by (rule yields_then) (metis sz bstr.select_convs(1) bstr.surjective bstr.update_convs(1) removeRight_ok)
qed

theorem bstring_parts_witness:
  "yields (removeMidLenGet 1 2) (sample [97, 98, 99, 100]) [98, 99] [97, 100]"
  using bstring_parts [of "sample [97, 98, 99, 100]" 2 1] by simp



text \<open>
  C28: The digits \<open>appendNumber\<close> appends, in any base from 2 to 36, read back as the number, for every
  signed and unsigned 32- and 64-bit value, the most negative ones included; the local buffer is
  never overrun.
\<close>

theorem bstring_number_roundtrip:
  assumes "swf (sd s)" and "2 \<le> base" and "base \<le> 36"
  shows "(\<exists>t. grows (appendNumberS32 n32 base) s t \<and> parse_number base t = sint n32) \<and>
    (\<exists>t. grows (appendNumberU32 n32 base) s t \<and> parse_number base t = uint n32) \<and>
    (\<exists>t. grows (appendNumberS64 n64 base) s t \<and> parse_number base t = sint n64) \<and>
    (\<exists>t. grows (appendNumberU64 n64 base) s t \<and> parse_number base t = uint n64)"
  using appendNumberS_ok [OF assms, of n32] appendNumberU_ok [OF assms, of n32]
    appendNumberS_ok [OF assms, of n64] appendNumberU_ok [OF assms, of n64]
  by (simp add: appendNumberS32_def appendNumberU32_def appendNumberS64_def appendNumberU64_def)

theorem bstring_number_roundtrip_witness:
  "\<exists>t. grows (appendNumberS32 0x80000000 2) (sample [120]) t \<and> parse_number 2 t = - 2147483648"
  using bstring_number_roundtrip [of "sample [120]" 2 "0x80000000"] by simp

text \<open>
  C29: \<open>bcmp\<close> orders well-formed strings lexicographically by their bytes with the null string first, and
  equality, on blocks whose cached hash is right or absent, is equality of contents and keeps the cached hashes right.
\<close>

theorem bstring_compare:
  assumes "swf x" and "swf y" and "hash_ok x" and "hash_ok y"
  shows "(\<exists>r. bs_bcmp x y = Inr r \<and> (r < 0 \<longleftrightarrow> key_less (skey x) (skey y)) \<and> (r > 0 \<longleftrightarrow> key_less (skey y) (skey x))) \<and>
    (\<exists>x' y'. bs_beq x y = Inr (content x = content y, x', y') \<and> content x' = content x \<and> content y' = content y \<and>
      hash_ok x' \<and> hash_ok y')"
  using bs_bcmp_ok [of x y] bs_beq_ok [of x y] assms by (meson swf_fits)

theorem bstring_compare_witness:
  "\<exists>r. bs_bcmp (sd (sample [97])) (sd (sample [97, 98])) = Inr r \<and> r < 0"
proof -
  have "hash_ok (sd (sample [97]))" "hash_ok (sd (sample [97, 98]))"
    "key_less (skey (sd (sample [97]))) (skey (sd (sample [97, 98])))" by code_simp+
  then show ?thesis using bstring_compare [of "sd (sample [97])" "sd (sample [97, 98])"] by auto
qed

text \<open>
  Appending in place changes the content but not the cached hash: \<open>getHash\<close> goes on to return the
  hash of the old content.
\<close>

theorem bstring_stale_hash:
  assumes "swf (sd s)" and "s_refcnt (sd s) = 0" and "0 \<le> s_hash (sd s)"
    and "int (s_size (sd s) + n) < s_al (sd s)" and "0 < n" and "n \<le> length m"
  shows "\<exists>d. appendLen m n s = (Inr (), s\<lparr>sd := d\<rparr>) \<and> content d = content (sd s) @ take n m \<and>
    getHash d = Inr (s_hash (sd s), d)"
  using appendLen_in_place [of s n m] assms by (auto simp: getHash_def)

definition hashed_buffer :: bstr where
  "hashed_buffer = (let s = snd (sbind (bs_lock 20) (\<lambda>_. sbind (poke 0 [97, 98]) (\<lambda>_. bs_unlock 2)) (sample [])) in
     case getHash (sd s) of Inr (h, d) \<Rightarrow> s\<lparr>sd := d\<rparr> | Inl e \<Rightarrow> s)"

theorem bstring_stale_hash_witness:
  "\<exists>d. appendLen [99] 1 hashed_buffer = (Inr (), hashed_buffer\<lparr>sd := d\<rparr>) \<and> content d = [97, 98, 99] \<and>
    getHash d = Inr (hash_value [97, 98], d) \<and> hash_value [97, 98, 99] \<noteq> hash_value [97, 98]"
proof -
  have h: "s_refcnt (sd hashed_buffer) = 0" "s_hash (sd hashed_buffer) = hash_value [97, 98]"
    "s_size (sd hashed_buffer) = 2" "s_al (sd hashed_buffer) = 21" "content (sd hashed_buffer) = [97, 98]"
    "hash_value [97, 98, 99] \<noteq> hash_value [97, 98]" "swf (sd hashed_buffer)"
    by code_simp+
  then show ?thesis using bstring_stale_hash [of hashed_buffer 1 "[99]"] hash_value_nonneg [of "[97, 98]"] by simp
qed

text \<open>
  Locking a shared string for a size in fewer words than it has copies the whole old content into the
  smaller new block and writes past its end.
\<close>

theorem bstring_lock_overrun:
  assumes "swf (sd s)" and "0 < s_refcnt (sd s)" and "roundsize (Suc n) < roundsize (Suc (s_size (sd s)))"
  shows "bs_lock n s = (Inl OutOfBounds, s)"
  using lock_shared_overrun assms by blast

theorem bstring_lock_overrun_witness:
  "fst (bs_lock 3 (snd (share (sample [1, 2, 3, 4, 5, 6, 7, 8])))) = Inl OutOfBounds"
proof -
  let ?s = "snd (share (sample [1, 2, 3, 4, 5, 6, 7, 8]))"
  have "swf (sd ?s)" by (simp add: share_def)
  moreover have "0 < s_refcnt (sd ?s)" "roundsize (Suc 3) < roundsize (Suc (s_size (sd ?s)))" by code_simp+
  ultimately show ?thesis using bstring_lock_overrun [of ?s 3] by simp
qed

text \<open>
  C30: Trimming leaves the content without its leading and trailing spaces, and filling an empty string
  through \<open>lock\<close> and \<open>unlock\<close> gives the bytes written up to the final size.
\<close>

theorem bstring_trim_and_fill:
  assumes "swf (sd s)" and "sd z = zero_data" and "length bs = n" and "k \<le> n"
  shows "becomes trimSpaces s (trim (content (sd s))) \<and>
    becomes (sbind (bs_lock n) (\<lambda>_. sbind (poke 0 bs) (\<lambda>_. bs_unlock k))) z (take k bs)"
  using trimSpaces_ok lock_empty_ok assms by blast

theorem bstring_trim_and_fill_witness:
  "becomes trimSpaces (sample [32, 97, 9, 98, 10]) [97, 9, 98]"
proof -
  have "trim [32, 97, 9, 98, 10] = [97, 9, 98]" by code_simp
  then show ?thesis
    using bstring_trim_and_fill [of "sample [32, 97, 9, 98, 10]" "\<lparr>sd = zero_data, fresh = (\<lambda>i. 165)\<rparr>" "[1]" 1 1] by simp
qed

end
