(* ===== verification/Drt_Hash.thy ===== *)
theory Drt_Hash
  imports Drt_Heap Drt_Dict "HOL-Library.Multiset"
begin

text \<open>
  The chained hash table \<^verbatim>\<open>Hash_c\<close> / \<^verbatim>\<open>THash\<close> of \<^verbatim>\<open>src/src/core/struct/Hash.cxx\<close> and \<^verbatim>\<open>Hash.hxx\<close>.
  A chain of nodes linked by \<^verbatim>\<open>next\<close> is the list of its nodes, a node pointer is the bucket and the
  position in its chain, and an element of the bucket array is \<open>Uninit\<close> until the code writes it.
  \<open>khash\<close> is the hash function of the comparator, \<open>v0\<close> the value a node has before it is assigned and
  \<open>junk\<close> what the hash member of a node holds before it is assigned.  The entry count stays below the
  range of its type.
\<close>

section \<open>Data\<close>

record ('k, 'v) hnode =
  h_key :: 'k
  h_val :: 'v
  h_hash :: int

datatype 'n bucket = Uninit | Chain "'n list"

record ('k, 'v) hash_c =
  hashmask :: int
  hlist :: "('k, 'v) hnode bucket list option"
  item_count :: nat

type_synonym node_ref = "nat \<times> nat"

definition hash_empty :: "('k, 'v) hash_c" where
  "hash_empty = \<lparr>hashmask = -1, hlist = None, item_count = 0\<rparr>"

definition mask_index :: "int \<Rightarrow> int \<Rightarrow> nat" where
  "mask_index msk h = nat (h AND msk)"

text \<open>\<^verbatim>\<open>list[i]\<close>.\<close>

definition get_bucket :: "('k, 'v) hash_c \<Rightarrow> nat \<Rightarrow> ('k, 'v) hnode list result" where
  "get_bucket s i = (case hlist s of None \<Rightarrow> Inl NullAccess
     | Some ls \<Rightarrow> ebind (mem_get ls i) (\<lambda>b. case b of Uninit \<Rightarrow> Inl OutOfBounds | Chain c \<Rightarrow> Inr c))"

definition put_bucket :: "nat \<Rightarrow> ('k, 'v) hnode list \<Rightarrow> ('k, 'v) hash_c \<Rightarrow> ('k, 'v) hash_c result" where
  "put_bucket i c s = (case hlist s of None \<Rightarrow> Inl NullAccess
     | Some ls \<Rightarrow> if i < length ls then Inr (s\<lparr>hlist := Some (ls[i := Chain c])\<rparr>) else Inl OutOfBounds)"

definition pure_res :: "('s \<Rightarrow> 'a result) \<Rightarrow> ('s, 'a) smethod" where
  "pure_res f s = (f s, s)"

definition update_res :: "('s \<Rightarrow> 's result) \<Rightarrow> ('s, unit) smethod" where
  "update_res f s = (case f s of Inl e \<Rightarrow> (Inl e, s) | Inr s' \<Rightarrow> (Inr (), s'))"

section \<open>Search\<close>

fun find_chain :: "int \<Rightarrow> 'k \<Rightarrow> nat \<Rightarrow> ('k, 'v) hnode list \<Rightarrow> nat option" where
  "find_chain h key i [] = None"
| "find_chain h key i (n # ns) =
     (if h_hash n \<noteq> h then find_chain h key (Suc i) ns
      else if h_key n \<noteq> key then find_chain h key (Suc i) ns
      else Some i)"

definition hash_find_g :: "int \<Rightarrow> 'k \<Rightarrow> (('k, 'v) hash_c, node_ref option) smethod" where
  "hash_find_g h key = pure_res (\<lambda>s. if hlist s = None then Inr None
     else let i = mask_index (hashmask s) h in
       ebind (get_bucket s i) (\<lambda>c. Inr (map_option (Pair i) (find_chain h key 0 c))))"

section \<open>Insertion\<close>

text \<open>\<^verbatim>\<open>hashmask/4\<close> rounds towards zero.\<close>

definition quarter :: "int \<Rightarrow> int" where
  "quarter m = (if m < 0 then - ((- m) div 4) else m div 4)"

text \<open>
  One step of the redistribution at bucket \<open>i\<close>: a node whose index changes is taken out of the chain
  and pushed on its new chain.
\<close>

fun rehash_chain :: "int \<Rightarrow> nat \<Rightarrow> ('k, 'v) hnode list \<Rightarrow> ('k, 'v) hnode bucket list \<Rightarrow>
    (('k, 'v) hnode list \<times> ('k, 'v) hnode bucket list) result" where
  "rehash_chain msk i [] ls = Inr ([], ls)"
| "rehash_chain msk i (n # ns) ls =
     (let j = mask_index msk (h_hash n) in
      if j \<noteq> i then
        ebind (mem_get ls j) (\<lambda>b. case b of Uninit \<Rightarrow> Inl OutOfBounds
          | Chain c \<Rightarrow> rehash_chain msk i ns (ls[j := Chain (n # c)]))
      else ebind (rehash_chain msk i ns ls) (\<lambda>(kept, ls). Inr (n # kept, ls)))"

fun rehash_loop :: "int \<Rightarrow> nat \<Rightarrow> nat \<Rightarrow> ('k, 'v) hnode bucket list \<Rightarrow> ('k, 'v) hnode bucket list result" where
  "rehash_loop msk i 0 ls = Inr ls"
| "rehash_loop msk i (Suc k) ls =
     ebind (mem_get ls i) (\<lambda>b. case b of Uninit \<Rightarrow> Inl OutOfBounds
       | Chain c \<Rightarrow> ebind (rehash_chain msk i c ls) (\<lambda>(kept, ls).
           rehash_loop msk (Suc i) k (ls[i := Chain kept])))"

definition grow :: "(('k, 'v) hash_c, unit) smethod" where
  "grow = update_res (\<lambda>s.
     if int (item_count s) \<ge> hashmask s - quarter (hashmask s) then
       (let olim = nat (hashmask s + 1);
            (ls, msk) = (case hlist s of
                Some ls \<Rightarrow> (take (2 * olim) ls @ replicate (2 * olim - length ls) Uninit, 2 * hashmask s + 1)
              | None \<Rightarrow> (replicate 4 Uninit, 3)) in
        ebind (mem_write ls olim (replicate (nat (msk + 1) - olim) (Chain []))) (\<lambda>ls.
        ebind (rehash_loop msk 0 olim ls) (\<lambda>ls. Inr (s\<lparr>hlist := Some ls, hashmask := msk\<rparr>))))
     else if hlist s = None then Inl AssertFailed else Inr s)"

definition push_node :: "('k, 'v) hnode \<Rightarrow> (('k, 'v) hash_c, node_ref) smethod" where
  "push_node n = sbind (getf (\<lambda>s. mask_index (hashmask s) (h_hash n))) (\<lambda>i.
     sbind (pure_res (\<lambda>s. get_bucket s i)) (\<lambda>c.
     sbind (update_res (\<lambda>s. ebind (put_bucket i (n # c) s) (\<lambda>s. Inr (s\<lparr>item_count := item_count s + 1\<rparr>)))) (\<lambda>_.
     sreturn (i, 0))))"

definition addNewNode_g :: "('k, 'v) hnode \<Rightarrow> (('k, 'v) hash_c, unit) smethod" where
  "addNewNode_g n = sbind grow (\<lambda>_. sbind (push_node n) (\<lambda>_. sreturn ()))"

definition hash_create_g :: "'v \<Rightarrow> int \<Rightarrow> 'k \<Rightarrow> (('k, 'v) hash_c, node_ref \<times> bool) smethod" where
  "hash_create_g v0 h key = sbind (hash_find_g h key) (\<lambda>r. case r of
     Some r \<Rightarrow> sreturn (r, False)
   | None \<Rightarrow> sbind grow (\<lambda>_. sbind (push_node \<lparr>h_key = key, h_val = v0, h_hash = h\<rparr>) (\<lambda>r. sreturn (r, True))))"

section \<open>Removal\<close>

definition hash_remove_g :: "int \<Rightarrow> 'k \<Rightarrow> (('k, 'v) hash_c, bool) smethod" where
  "hash_remove_g h key = sbind (getf hlist) (\<lambda>l. if l = None then sreturn False
     else sbind (getf (\<lambda>s. mask_index (hashmask s) h)) (\<lambda>i.
       sbind (pure_res (\<lambda>s. get_bucket s i)) (\<lambda>c. case find_chain h key 0 c of
         None \<Rightarrow> sreturn False
       | Some p \<Rightarrow> sbind (update_res (\<lambda>s. ebind (put_bucket i (take p c @ drop (Suc p) c) s)
           (\<lambda>s. Inr (s\<lparr>item_count := item_count s - 1\<rparr>)))) (\<lambda>_. sreturn True))))"

fun clean_loop :: "nat \<Rightarrow> nat \<Rightarrow> ('k, 'v) hash_c \<Rightarrow> ('k, 'v) hash_c result" where
  "clean_loop i 0 s = Inr s"
| "clean_loop i (Suc k) s = ebind (get_bucket s i) (\<lambda>c.
     ebind (put_bucket i [] (s\<lparr>item_count := item_count s - length c\<rparr>)) (clean_loop (Suc i) k))"

definition hash_clean_g :: "(('k, 'v) hash_c, unit) smethod" where
  "hash_clean_g = update_res (\<lambda>s. if hlist s = None then Inr s else clean_loop 0 (nat (hashmask s + 1)) s)"

fun destroy_loop :: "nat \<Rightarrow> nat \<Rightarrow> ('k, 'v) hash_c \<Rightarrow> unit result" where
  "destroy_loop i 0 s = Inr ()"
| "destroy_loop i (Suc k) s = ebind (get_bucket s i) (\<lambda>c. destroy_loop (Suc i) k s)"

definition hash_destroy_g :: "(('k, 'v) hash_c, unit) smethod" where
  "hash_destroy_g = update_res (\<lambda>s.
     ebind (if hlist s = None then Inr () else destroy_loop 0 (nat (hashmask s + 1)) s) (\<lambda>_. Inr (s\<lparr>hlist := None\<rparr>)))"

section \<open>Iteration\<close>

fun scan_buckets :: "('k, 'v) hash_c \<Rightarrow> nat \<Rightarrow> nat \<Rightarrow> node_ref option result" where
  "scan_buckets s i 0 = Inr None"
| "scan_buckets s i (Suc k) = ebind (get_bucket s i) (\<lambda>c.
     if c \<noteq> [] then Inr (Some (i, 0)) else scan_buckets s (Suc i) k)"

definition hash_iterFirst_g :: "(('k, 'v) hash_c, node_ref option) smethod" where
  "hash_iterFirst_g = pure_res (\<lambda>s. scan_buckets s 0 (nat (hashmask s + 1)))"

definition node_at :: "node_ref \<Rightarrow> ('k, 'v) hash_c \<Rightarrow> ('k, 'v) hnode result" where
  "node_at r s = ebind (get_bucket s (fst r)) (\<lambda>c. mem_get c (snd r))"

definition hash_iterNext_g :: "node_ref \<Rightarrow> (('k, 'v) hash_c, node_ref option) smethod" where
  "hash_iterNext_g r = pure_res (\<lambda>s. ebind (get_bucket s (fst r)) (\<lambda>c. ebind (node_at r s) (\<lambda>n.
     if Suc (snd r) < length c then Inr (Some (fst r, Suc (snd r)))
     else let i = Suc (mask_index (hashmask s) (h_hash n)) in scan_buckets s i (nat (hashmask s + 1) - i))))"

section \<open>Whole tables\<close>

text \<open>The receiver takes over the members of \<open>source\<close>; the result is the source afterwards.\<close>

definition hash_moveFrom_g :: "('k, 'v) hash_c \<Rightarrow> (('k, 'v) hash_c, ('k, 'v) hash_c) smethod" where
  "hash_moveFrom_g source = sbind hash_destroy_g (\<lambda>_.
     sbind (putf (\<lambda>s. s\<lparr>hashmask := hashmask source, item_count := item_count source, hlist := hlist source\<rparr>)) (\<lambda>_.
     sreturn (source\<lparr>hashmask := 0, hlist := None, item_count := 0\<rparr>)))"

definition set_val :: "node_ref \<Rightarrow> 'v \<Rightarrow> (('k, 'v) hash_c, unit) smethod" where
  "set_val r v = update_res (\<lambda>s. ebind (get_bucket s (fst r)) (\<lambda>c. ebind (node_at r s) (\<lambda>n.
     put_bucket (fst r) (c[snd r := n\<lparr>h_val := v\<rparr>]) s)))"

definition replace_one :: "int \<Rightarrow> ('k, 'v) hnode \<Rightarrow> (('k, 'v) hash_c, unit) smethod" where
  "replace_one junk o_node = sbind (hash_find_g (h_hash o_node) (h_key o_node)) (\<lambda>r. case r of
     Some n \<Rightarrow> set_val n (h_val o_node)
   | None \<Rightarrow> addNewNode_g \<lparr>h_key = h_key o_node, h_val = h_val o_node, h_hash = junk\<rparr>)"

text \<open>The iteration over the source is bounded by the number of its nodes.\<close>

fun chain :: "'n bucket \<Rightarrow> 'n list" where
  "chain Uninit = []"
| "chain (Chain c) = c"

definition nodes :: "('k, 'v) hash_c \<Rightarrow> ('k, 'v) hnode list" where
  "nodes s = (case hlist s of None \<Rightarrow> [] | Some ls \<Rightarrow> concat (map chain ls))"

fun replace_loop :: "nat \<Rightarrow> int \<Rightarrow> ('k, 'v) hash_c \<Rightarrow> node_ref option \<Rightarrow> (('k, 'v) hash_c, unit) smethod" where
  "replace_loop fuel junk source None = sreturn ()"
| "replace_loop 0 junk source (Some r) = sthrow Diverges"
| "replace_loop (Suc fuel) junk source (Some r) =
     sbind (\<lambda>s. (node_at r source, s)) (\<lambda>n. sbind (replace_one junk n) (\<lambda>_.
     sbind (\<lambda>s. (fst (hash_iterNext_g r source), s)) (\<lambda>r. replace_loop fuel junk source r)))"

definition hash_replaceFrom_g :: "int \<Rightarrow> ('k, 'v) hash_c \<Rightarrow> (('k, 'v) hash_c, unit) smethod" where
  "hash_replaceFrom_g junk source = sbind (\<lambda>s. (fst (hash_iterFirst_g source), s))
     (\<lambda>r. replace_loop (length (nodes source)) junk source r)"

section \<open>The typed table\<close>

definition hash_accValue :: "('k \<Rightarrow> int) \<Rightarrow> 'k \<Rightarrow> (('k, 'v) hash_c, 'v option) smethod" where
  "hash_accValue khash k = sbind (hash_find_g (khash k) k) (\<lambda>r. case r of None \<Rightarrow> sreturn None
     | Some r \<Rightarrow> sbind (pure_res (node_at r)) (\<lambda>n. sreturn (Some (h_val n))))"

definition createNode :: "('k \<Rightarrow> int) \<Rightarrow> 'v \<Rightarrow> 'k \<Rightarrow> (('k, 'v) hash_c, node_ref \<times> bool) smethod" where
  "createNode khash v0 k = hash_create_g v0 (khash k) k"

definition hash_create :: "('k \<Rightarrow> int) \<Rightarrow> 'v \<Rightarrow> 'k \<Rightarrow> 'v \<Rightarrow> (('k, 'v) hash_c, bool) smethod" where
  "hash_create khash v0 k v = sbind (createNode khash v0 k) (\<lambda>(n, cr).
     sbind (if cr then set_val n v else sreturn ()) (\<lambda>_. sreturn cr))"

definition hash_replace :: "('k \<Rightarrow> int) \<Rightarrow> 'v \<Rightarrow> 'k \<Rightarrow> 'v \<Rightarrow> (('k, 'v) hash_c, bool) smethod" where
  "hash_replace khash v0 k v = sbind (createNode khash v0 k) (\<lambda>(n, cr). sbind (set_val n v) (\<lambda>_. sreturn cr))"

definition hash_remove :: "('k \<Rightarrow> int) \<Rightarrow> 'k \<Rightarrow> (('k, 'v) hash_c, bool) smethod" where
  "hash_remove khash k = hash_remove_g (khash k) k"

section \<open>The map a table stands for\<close>

definition nmap :: "('k, 'v) hnode list \<Rightarrow> 'k \<rightharpoonup> 'v" where
  "nmap ns = map_of (map (\<lambda>n. (h_key n, h_val n)) ns)"

definition placed :: "('k \<Rightarrow> int) \<Rightarrow> int \<Rightarrow> nat \<Rightarrow> ('k, 'v) hnode list \<Rightarrow> bool" where
  "placed khash msk i c \<longleftrightarrow> (\<forall>n\<in>set c. h_hash n = khash (h_key n) \<and> mask_index msk (h_hash n) = i)"

definition well_placed :: "('k \<Rightarrow> int) \<Rightarrow> int \<Rightarrow> ('k, 'v) hnode bucket list \<Rightarrow> bool" where
  "well_placed khash msk ls \<longleftrightarrow> (\<forall>i<length ls. \<exists>c. ls ! i = Chain c \<and> placed khash msk i c)"

definition table_ok :: "('k \<Rightarrow> int) \<Rightarrow> ('k, 'v) hash_c \<Rightarrow> ('k, 'v) hnode bucket list \<Rightarrow> bool" where
  "table_ok khash s ls \<longleftrightarrow> hlist s = Some ls \<and> (\<exists>k\<ge>2. hashmask s = 2 ^ k - 1 \<and> length ls = 2 ^ k) \<and>
     well_placed khash (hashmask s) ls"

definition hash_valid :: "('k \<Rightarrow> int) \<Rightarrow> ('k, 'v) hash_c \<Rightarrow> bool" where
  "hash_valid khash s \<longleftrightarrow> distinct (map h_key (nodes s)) \<and> item_count s = length (nodes s) \<and>
     (hlist s = None \<and> hashmask s = -1 \<or> (\<exists>ls. table_ok khash s ls))"

definition hash_map :: "('k, 'v) hash_c \<Rightarrow> 'k \<rightharpoonup> 'v" where
  "hash_map s = nmap (nodes s)"

lemma nmap_Nil [simp]: "nmap [] = (\<lambda>_. None)"
  by (simp add: nmap_def)

lemma nmap_Cons [simp]: "nmap (n # ns) = (nmap ns)(h_key n \<mapsto> h_val n)"
  by (simp add: nmap_def)

lemma distinct_keys_mset: "mset xs = mset ys \<Longrightarrow> distinct (map h_key xs) \<longleftrightarrow> distinct (map h_key ys)"
  by (metis mset_map mset_eq_imp_distinct_iff)

lemma nmap_mset:
  assumes "mset xs = mset ys" "distinct (map h_key xs)"
  shows "nmap xs = nmap ys"
proof -
  have "distinct (map h_key ys)" using assms distinct_keys_mset by blast
  then have "distinct (map fst (map (\<lambda>n. (h_key n, h_val n)) xs))" "distinct (map fst (map (\<lambda>n. (h_key n, h_val n)) ys))"
    using assms(2) by (simp_all add: comp_def)
  moreover have "set (map (\<lambda>n. (h_key n, h_val n)) xs) = set (map (\<lambda>n. (h_key n, h_val n)) ys)"
    using assms(1) by (metis set_map set_mset_mset)
  ultimately show ?thesis unfolding nmap_def using map_of_inject_set by blast
qed

lemma nmap_Some: "distinct (map h_key ns) \<Longrightarrow> n \<in> set ns \<Longrightarrow> nmap ns (h_key n) = Some (h_val n)"
  unfolding nmap_def by (rule map_of_is_SomeI) (auto simp: comp_def)

lemma nmap_None: "nmap ns k = None \<longleftrightarrow> k \<notin> h_key ` set ns"
  by (auto simp: nmap_def map_of_eq_None_iff image_image)

lemma dom_nmap: "dom (nmap ns) = h_key ` set ns"
  using nmap_None [of ns] by (auto simp: dom_def)

lemma nmap_remove: "distinct (map h_key (n # ns)) \<Longrightarrow> nmap ns = (nmap (n # ns))(h_key n := None)"
  using nmap_None [of ns "h_key n"] by (auto simp: fun_eq_iff)

section \<open>Buckets\<close>

lemma mask_index_pow: "mask_index (2 ^ k - 1) h = nat (h mod 2 ^ k)"
proof -
  have "h AND (2 ^ k - 1) = h mod 2 ^ k" by (metis mask_eq_exp_minus_1 take_bit_eq_mask take_bit_eq_mod)
  then show ?thesis by (simp add: mask_index_def)
qed

lemma mask_index_less: "mask_index (2 ^ k - 1) h < 2 ^ k"
  by (simp add: mask_index_pow nat_less_iff)

lemma table_index: "table_ok khash s ls \<Longrightarrow> mask_index (hashmask s) h < length ls"
  using mask_index_less by (auto simp: table_ok_def)

lemma table_bucket:
  assumes "table_ok khash s ls" "i < length ls"
  obtains c where "get_bucket s i = Inr c" "ls ! i = Chain c" "placed khash (hashmask s) i c"
  using assms by (auto simp: table_ok_def well_placed_def get_bucket_def)

lemma mset_bucket_update:
  "i < length ls \<Longrightarrow> mset (concat (map chain (ls[i := b]))) + mset (chain (ls ! i)) = mset (concat (map chain ls)) + mset (chain b)"
proof (induction ls arbitrary: i)
  case (Cons l ls)
  then show ?case by (cases i) (auto simp: ac_simps)
qed simp

lemma mset_split: "i < length ls \<Longrightarrow> mset (chain (ls ! i)) \<subseteq># mset (concat (map chain ls))"
proof (induction ls arbitrary: i)
  case (Cons l ls)
  then show ?case by (cases i) (auto intro: subset_mset.add_increasing)
qed simp

lemma well_placed_update:
  "well_placed khash msk ls \<Longrightarrow> placed khash msk i c \<Longrightarrow> well_placed khash msk (ls[i := Chain c])"
  by (cases "i < length ls") (auto simp: well_placed_def nth_list_update)

lemma placed_node:
  assumes "well_placed khash msk ls" "n \<in> set (concat (map chain ls))"
  shows "h_hash n = khash (h_key n)" "mask_index msk (h_hash n) < length ls"
    "n \<in> set (chain (ls ! mask_index msk (h_hash n)))"
proof -
  obtain b where b: "b \<in> set ls" "n \<in> set (chain b)" using assms(2) by auto
  then obtain i where i: "i < length ls" "ls ! i = b" by (auto simp: in_set_conv_nth)
  then obtain c where "ls ! i = Chain c" "placed khash msk i c" using assms(1) by (auto simp: well_placed_def)
  then show "h_hash n = khash (h_key n)" "mask_index msk (h_hash n) < length ls"
    "n \<in> set (chain (ls ! mask_index msk (h_hash n)))" using b i by (auto simp: placed_def)
qed

lemma bucket_nodes: "table_ok khash s ls \<Longrightarrow> i < length ls \<Longrightarrow> ls ! i = Chain c \<Longrightarrow> set c \<subseteq> set (nodes s)"
  by (auto simp: nodes_def table_ok_def intro!: bexI [of _ "ls ! i"] dest: nth_mem)

lemma find_chain_Some:
  "find_chain h key i c = Some p \<Longrightarrow> i \<le> p \<and> p - i < length c \<and> h_hash (c ! (p - i)) = h \<and> h_key (c ! (p - i)) = key"
  by (induction h key i c rule: find_chain.induct) (auto split: if_splits simp: nth_Cons' Suc_diff_le)

lemma find_chain_None: "find_chain h key i c = None \<longleftrightarrow> (\<forall>n\<in>set c. \<not> (h_hash n = h \<and> h_key n = key))"
  by (induction h key i c rule: find_chain.induct) auto

text \<open>A search in a table: the position of the node with the key, or none.\<close>

lemma find_in_table:
  fixes k :: 'k
  assumes "table_ok khash (s :: ('k, 'v) hash_c) ls" "distinct (map h_key (nodes s))"
  defines "i \<equiv> mask_index (hashmask s) (khash k)"
  obtains (found) c p where "hash_find_g (khash k) k s = (Inr (Some (i, p)), s)" "get_bucket s i = Inr c"
      "find_chain (khash k) k 0 c = Some p"
      "ls ! i = Chain c" "p < length c" "h_key (c ! p) = k" "hash_map s k = Some (h_val (c ! p))" "i < length ls"
  | (absent) c where "hash_find_g (khash k) k s = (Inr None, s)" "get_bucket s i = Inr c" "ls ! i = Chain c" "hash_map s k = None"
      "find_chain (khash k) k 0 c = None" "i < length ls"
proof -
  have il: "i < length ls" using assms by (simp add: table_index)
  obtain c where c: "get_bucket s i = Inr c" "ls ! i = Chain c" "placed khash (hashmask s) i c"
    using table_bucket [OF assms(1) il] .
  have hl: "hlist s = Some ls" "well_placed khash (hashmask s) ls" using assms(1) by (auto simp: table_ok_def)
  have run: "hash_find_g (khash k) k s = (Inr (map_option (Pair i) (find_chain (khash k) k 0 c)), s)"
    using hl c by (simp add: hash_find_g_def pure_res_def i_def Let_def)
  have sub: "set c \<subseteq> set (nodes s)" using bucket_nodes [OF assms(1) il c(2)] .
  show ?thesis
  proof (cases "find_chain (khash k) k 0 c")
    case None
    have "k \<notin> h_key ` set (nodes s)"
    proof
      assume "k \<in> h_key ` set (nodes s)"
      then obtain n where n: "n \<in> set (nodes s)" "h_key n = k" by auto
      have "n \<in> set c" using placed_node [OF hl(2), of n] n hl(1) c by (auto simp: nodes_def i_def)
      then show False using None placed_node(1) [OF hl(2), of n] n hl(1) by (auto simp: find_chain_None nodes_def)
    qed
    then have "hash_map s k = None" by (simp add: hash_map_def nmap_None)
    then show ?thesis using absent run None c il by simp
  next
    case (Some p)
    then have "p < length c" "h_key (c ! p) = k" using find_chain_Some [OF Some] by auto
    moreover have "hash_map s k = Some (h_val (c ! p))"
      using nmap_Some [OF assms(2), of "c ! p"] subsetD [OF sub nth_mem [of p c]] calculation by (auto simp: hash_map_def)
    ultimately show ?thesis using found run Some c il by simp
  qed
qed

section \<open>Growing\<close>

lemma index_double:
  "mask_index (2 ^ Suc k - 1) h = mask_index (2 ^ k - 1) h \<or> mask_index (2 ^ Suc k - 1) h = mask_index (2 ^ k - 1) h + 2 ^ k"
proof -
  have "h mod 2 ^ Suc k = 2 ^ k * (h div 2 ^ k mod 2) + h mod 2 ^ k"
    using zmod_zmult2_eq [of 2 h "2 ^ k"] by (simp add: mult.commute)
  moreover have "h div 2 ^ k mod 2 = 0 \<or> h div 2 ^ k mod 2 = 1" by presburger
  ultimately have "h mod 2 ^ Suc k = h mod 2 ^ k \<or> h mod 2 ^ Suc k = h mod 2 ^ k + 2 ^ k" by auto
  then show ?thesis unfolding mask_index_pow by (auto simp: nat_add_distrib nat_power_eq)
qed

definition upper_ok :: "('k \<Rightarrow> int) \<Rightarrow> nat \<Rightarrow> ('k, 'v) hnode bucket list \<Rightarrow> bool" where
  "upper_ok khash k ls \<longleftrightarrow> length ls = 2 ^ Suc k \<and>
     (\<forall>j. 2 ^ k \<le> j \<and> j < 2 ^ Suc k \<longrightarrow> (\<exists>c. ls ! j = Chain c \<and> placed khash (2 ^ Suc k - 1) j c))"

lemma rehash_chain_ok:
  assumes "i < 2 ^ k" "placed khash (2 ^ k - 1) i c" "upper_ok khash k ls"
  shows "\<exists>kept ls'. rehash_chain (2 ^ Suc k - 1) i c ls = Inr (kept, ls') \<and> upper_ok khash k ls' \<and>
    (\<forall>j<2 ^ k. ls' ! j = ls ! j) \<and> placed khash (2 ^ Suc k - 1) i kept \<and>
    mset kept + mset (concat (map chain ls')) = mset c + mset (concat (map chain ls))"
  using assms(2,3)
proof (induction c arbitrary: ls)
  case Nil
  then show ?case by (auto simp: placed_def)
next
  case (Cons n c)
  let ?m = "2 ^ Suc k - 1 :: int"
  let ?j = "mask_index ?m (h_hash n)"
  have pc: "placed khash (2 ^ k - 1) i c" and n: "h_hash n = khash (h_key n)" "mask_index (2 ^ k - 1) (h_hash n) = i"
    using Cons.prems(1) by (auto simp: placed_def)
  show ?case
  proof (cases "?j = i")
    case True
    obtain kept ls' where r: "rehash_chain ?m i c ls = Inr (kept, ls')" "upper_ok khash k ls'"
      "\<forall>j<2 ^ k. ls' ! j = ls ! j" "placed khash ?m i kept"
      "mset kept + mset (concat (map chain ls')) = mset c + mset (concat (map chain ls))"
      using Cons.IH [OF pc Cons.prems(2)] by blast
    have "rehash_chain ?m i (n # c) ls = Inr (n # kept, ls')" using True r(1) by (simp add: Let_def del: power_Suc)
    moreover have "placed khash ?m i (n # kept)" using r(4) n(1) True unfolding placed_def by (metis set_ConsD)
    ultimately show ?thesis using r(2,3,5)
      by (intro exI [of _ "n # kept"] exI [of _ ls']) (simp del: power_Suc)
  next
    case False
    then have j: "?j = i + 2 ^ k" using index_double [of k "h_hash n"] n(2) by metis
    have jl: "2 ^ k \<le> ?j" "?j < 2 ^ Suc k" unfolding j using assms(1) by simp_all
    obtain d where d: "ls ! ?j = Chain d" "placed khash ?m ?j d" using Cons.prems(2) jl unfolding upper_ok_def by blast
    have len: "?j < length ls" using Cons.prems(2) jl by (simp add: upper_ok_def)
    let ?ls = "ls[?j := Chain (n # d)]"
    have "placed khash ?m ?j (n # d)" using d(2) n(1) unfolding placed_def by (metis set_ConsD)
    then have "upper_ok khash k ?ls" using Cons.prems(2) len unfolding upper_ok_def
      by (metis length_list_update nth_list_update_eq nth_list_update_neq)
    then obtain kept ls' where r: "rehash_chain ?m i c ?ls = Inr (kept, ls')" "upper_ok khash k ls'"
      "\<forall>j<2 ^ k. ls' ! j = ?ls ! j" "placed khash ?m i kept"
      "mset kept + mset (concat (map chain ls')) = mset c + mset (concat (map chain ?ls))"
      using Cons.IH [OF pc] by blast
    have "mset (concat (map chain ?ls)) = mset (concat (map chain ls)) + {#n#}"
    proof -
      have "mset (concat (map chain ?ls)) + mset d = mset (concat (map chain ls)) + mset (n # d)"
        using mset_bucket_update [OF len, of "Chain (n # d)"] unfolding d(1) chain.simps .
      then have "mset (concat (map chain ?ls)) + mset d = (mset (concat (map chain ls)) + {#n#}) + mset d" by simp
      then show ?thesis by (rule add_right_imp_eq)
    qed
    moreover have "rehash_chain ?m i (n # c) ls = Inr (kept, ls')"
      using False d(1) len r(1) by (simp add: Let_def del: power_Suc)
    moreover have "\<forall>l<2 ^ k. ls' ! l = ls ! l" using r(3) jl(1) by (metis nth_list_update_neq not_le)
    ultimately show ?thesis using r(2,4,5)
      by (intro exI [of _ kept] exI [of _ ls']) (simp del: power_Suc)
  qed
qed

lemma rehash_loop_ok:
  assumes "i + r = 2 ^ k" "upper_ok khash k ls"
    "\<forall>j<i. \<exists>c. ls ! j = Chain c \<and> placed khash (2 ^ Suc k - 1) j c"
    "\<forall>j. i \<le> j \<and> j < 2 ^ k \<longrightarrow> (\<exists>c. ls ! j = Chain c \<and> placed khash (2 ^ k - 1) j c)"
  shows "\<exists>ls'. rehash_loop (2 ^ Suc k - 1) i r ls = Inr ls' \<and> well_placed khash (2 ^ Suc k - 1) ls' \<and>
    length ls' = 2 ^ Suc k \<and> mset (concat (map chain ls')) = mset (concat (map chain ls))"
  using assms
proof (induction r arbitrary: i ls)
  case 0
  then have "well_placed khash (2 ^ Suc k - 1) ls" unfolding well_placed_def upper_ok_def
    by (metis add.right_neutral not_le)
  then show ?case using 0 by (simp add: upper_ok_def)
next
  case (Suc r)
  let ?m = "2 ^ Suc k - 1 :: int"
  have i: "i < 2 ^ k" using Suc.prems(1) by simp
  then obtain c where c: "ls ! i = Chain c" "placed khash (2 ^ k - 1) i c" using Suc.prems(4) by blast
  obtain kept ls1 where r: "rehash_chain ?m i c ls = Inr (kept, ls1)" "upper_ok khash k ls1"
    "\<forall>j<2 ^ k. ls1 ! j = ls ! j" "placed khash ?m i kept"
    "mset kept + mset (concat (map chain ls1)) = mset c + mset (concat (map chain ls))"
    using rehash_chain_ok [OF i c(2) Suc.prems(2)] by blast
  let ?ls = "ls1[i := Chain kept]"
  have il: "i < length ls1" using r(2) i by (simp add: upper_ok_def)
  have "mset (concat (map chain ?ls)) + mset c = mset (concat (map chain ls)) + mset c"
    using mset_bucket_update [OF il, of "Chain kept"] r(3,5) c(1) i by (simp add: ac_simps)
  then have ms: "mset (concat (map chain ?ls)) = mset (concat (map chain ls))" by simp
  have "\<exists>ls'. rehash_loop ?m (Suc i) r ?ls = Inr ls' \<and> well_placed khash ?m ls' \<and> length ls' = 2 ^ Suc k \<and>
    mset (concat (map chain ls')) = mset (concat (map chain ?ls))"
  proof (rule Suc.IH)
    show "Suc i + r = 2 ^ k" using Suc.prems(1) by simp
    show "upper_ok khash k ?ls" using r(2) i by (auto simp: upper_ok_def)
    show "\<forall>j<Suc i. \<exists>c. ?ls ! j = Chain c \<and> placed khash ?m j c"
      using Suc.prems(3) r(3,4) i il by (auto simp: less_Suc_eq nth_list_update)
    show "\<forall>j. Suc i \<le> j \<and> j < 2 ^ k \<longrightarrow> (\<exists>c. ?ls ! j = Chain c \<and> placed khash (2 ^ k - 1) j c)"
      using Suc.prems(4) r(3) by (auto simp: nth_list_update)
  qed
  moreover have "i < length ls" using Suc.prems(2) i by (simp add: upper_ok_def)
  ultimately show ?case using r(1) c ms by (simp del: power_Suc)
qed

lemma well_placed_fresh: "well_placed khash msk (replicate k (Chain []))"
  by (simp add: well_placed_def placed_def)

lemma upper_ok_fresh: "length ls = 2 ^ k \<Longrightarrow> upper_ok khash k (ls @ replicate (2 ^ k) (Chain []))"
  by (auto simp: upper_ok_def nth_append placed_def)

lemma rehash_double:
  assumes "well_placed khash (2 ^ k - 1) ls" "length ls = 2 ^ k"
  shows "\<exists>ls'. rehash_loop (2 ^ Suc k - 1) 0 (2 ^ k) (ls @ replicate (2 ^ k) (Chain [])) = Inr ls' \<and>
    well_placed khash (2 ^ Suc k - 1) ls' \<and> length ls' = 2 ^ Suc k \<and>
    mset (concat (map chain ls')) = mset (concat (map chain ls))"
proof -
  let ?ls = "ls @ replicate (2 ^ k) (Chain [])"
  have "concat (map chain (replicate m (Chain []))) = []" for m by (induction m) auto
  then have "mset (concat (map chain ?ls)) = mset (concat (map chain ls))" by simp
  moreover have "\<forall>j. 0 \<le> j \<and> j < 2 ^ k \<longrightarrow> (\<exists>c. ?ls ! j = Chain c \<and> placed khash (2 ^ k - 1) j c)"
    using assms by (auto simp: well_placed_def nth_append)
  ultimately show ?thesis using rehash_loop_ok [of 0 "2 ^ k" k khash ?ls] upper_ok_fresh [OF assms(2), of khash] by simp
qed

lemma grow_ok:
  assumes "hash_valid khash s"
  shows "\<exists>s' ls. grow s = (Inr (), s') \<and> table_ok khash s' ls \<and> mset (nodes s') = mset (nodes s) \<and> item_count s' = item_count s"
proof (cases "hlist s")
  case None
  then have m: "hashmask s = -1" "item_count s = 0" using assms by (auto simp: hash_valid_def table_ok_def nodes_def)
  let ?ls = "replicate 4 (Chain []) :: ('a, 'b) hnode bucket list"
  let ?s = "s\<lparr>hlist := Some ?ls, hashmask := 3\<rparr>"
  have "grow s = (Inr (), ?s)" using None m by (simp add: grow_def update_res_def quarter_def mem_write_def)
  moreover have "table_ok khash ?s ?ls" using well_placed_fresh [of khash 3 4]
    by (auto simp: table_ok_def intro!: exI [of _ 2])
  moreover have "nodes ?s = [] \<and> nodes s = []" using None by (simp add: nodes_def numeral_eq_Suc)
  ultimately show ?thesis by (intro exI [of _ ?s] exI [of _ ?ls]) simp
next
  case (Some ls)
  then have t: "table_ok khash s ls" using assms by (auto simp: hash_valid_def table_ok_def)
  then obtain k where k: "2 \<le> k" "hashmask s = 2 ^ k - 1" "length ls = 2 ^ k" "well_placed khash (2 ^ k - 1) ls"
    by (auto simp: table_ok_def)
  show ?thesis
  proof (cases "int (item_count s) \<ge> hashmask s - quarter (hashmask s)")
    case False
    then show ?thesis using t Some by (auto simp: grow_def update_res_def)
  next
    case True
    obtain ls' where ls': "rehash_loop (2 ^ Suc k - 1) 0 (2 ^ k) (ls @ replicate (2 ^ k) (Chain [])) = Inr ls'"
      "well_placed khash (2 ^ Suc k - 1) ls'" "length ls' = 2 ^ Suc k" "mset (concat (map chain ls')) = mset (concat (map chain ls))"
      using rehash_double [OF k(4,3)] by blast
    let ?s = "s\<lparr>hlist := Some ls', hashmask := 2 ^ Suc k - 1\<rparr>"
    have o: "nat (hashmask s + 1) = 2 ^ k" "2 * hashmask s + 1 = 2 ^ Suc k - 1" "nat (2 ^ Suc k - 1 + 1) - 2 ^ k = (2 ^ k :: nat)"
      using k(2) by (simp_all add: nat_power_eq nat_mult_distrib)
    have w: "mem_write (take (2 * 2 ^ k) ls @ replicate (2 * 2 ^ k - length ls) Uninit) (2 ^ k) (replicate (2 ^ k) (Chain [])) =
        Inr (ls @ replicate (2 ^ k) (Chain []))"
      using k(3) by (simp add: mem_write_def)
    have "grow s = (Inr (), ?s)" unfolding grow_def update_res_def Some o Let_def option.case prod.case if_P [OF True] w
      using ls'(1) by (simp del: power_Suc)
    moreover have "table_ok khash ?s ls'" using ls' k(1) unfolding table_ok_def
      by (intro conjI exI [of _ "Suc k"]) (simp_all del: power_Suc)
    ultimately show ?thesis using ls'(4) Some by (intro exI [of _ ?s] exI [of _ ls']) (simp add: nodes_def)
  qed
qed

section \<open>Writing one bucket\<close>

lemma bucket_write:
  assumes "table_ok khash s ls" "i < length ls" "ls ! i = Chain c" "placed khash (hashmask s) i c'"
  shows "\<exists>s'. put_bucket i c' s = Inr s' \<and> table_ok khash s' (ls[i := Chain c']) \<and>
    mset (nodes s') + mset c = mset (nodes s) + mset c' \<and> item_count s' = item_count s \<and> hashmask s' = hashmask s \<and>
    get_bucket s' i = Inr c'"
proof -
  have h: "hlist s = Some ls" "well_placed khash (hashmask s) ls" using assms(1) by (auto simp: table_ok_def)
  let ?s = "s\<lparr>hlist := Some (ls[i := Chain c'])\<rparr>"
  have "table_ok khash ?s (ls[i := Chain c'])"
    using assms(1) well_placed_update [OF h(2) assms(4)] by (auto simp: table_ok_def)
  moreover have "mset (nodes ?s) + mset c = mset (nodes s) + mset c'"
    using mset_bucket_update [OF assms(2), of "Chain c'"] assms(3) h(1) by (simp add: nodes_def)
  ultimately show ?thesis using h assms(2) by (intro exI [of _ ?s]) (simp add: put_bucket_def get_bucket_def)
qed

lemma bucket_placed: "table_ok khash s ls \<Longrightarrow> i < length ls \<Longrightarrow> ls ! i = Chain c \<Longrightarrow> placed khash (hashmask s) i c"
  by (auto simp: table_ok_def well_placed_def)

lemma push_node_ok:
  assumes "table_ok khash s ls" "h_hash n = khash (h_key n)"
  shows "\<exists>i c s' ls'. push_node n s = (Inr (i, 0), s') \<and> table_ok khash s' ls' \<and> i < length ls' \<and> ls' ! i = Chain (n # c) \<and>
    mset (nodes s') = add_mset n (mset (nodes s)) \<and> item_count s' = Suc (item_count s)"
proof -
  let ?i = "mask_index (hashmask s) (h_hash n)"
  have il: "?i < length ls" using table_index [OF assms(1)] .
  obtain c where c: "get_bucket s ?i = Inr c" "ls ! ?i = Chain c" "placed khash (hashmask s) ?i c"
    using table_bucket [OF assms(1) il] .
  have p: "placed khash (hashmask s) ?i (n # c)" using c(3) assms(2) unfolding placed_def by (metis set_ConsD)
  obtain s' where s': "put_bucket ?i (n # c) s = Inr s'" "table_ok khash s' (ls[?i := Chain (n # c)])"
    "mset (nodes s') + mset c = mset (nodes s) + mset (n # c)" "item_count s' = item_count s"
    using bucket_write [OF assms(1) il c(2) p] by blast
  let ?s = "s'\<lparr>item_count := Suc (item_count s')\<rparr>"
  have "push_node n s = (Inr (?i, 0), ?s)" using c(1) s'(1) by (simp add: push_node_def pure_res_def update_res_def)
  moreover have "nodes ?s = nodes s'" "table_ok khash ?s (ls[?i := Chain (n # c)])"
    using s'(2) by (simp_all add: nodes_def table_ok_def)
  ultimately show ?thesis using s'(3,4) il
    by (intro exI [of _ ?i] exI [of _ c] exI [of _ ?s] exI [of _ "ls[?i := Chain (n # c)]"]) simp
qed

lemma set_val_ok:
  assumes "table_ok khash s ls" "i < length ls" "ls ! i = Chain c" "p < length c"
  shows "\<exists>s' ls'. set_val (i, p) v s = (Inr (), s') \<and> table_ok khash s' ls' \<and> item_count s' = item_count s \<and>
    (\<exists>R. mset (nodes s) = add_mset (c ! p) R \<and> mset (nodes s') = add_mset ((c ! p)\<lparr>h_val := v\<rparr>) R)"
proof -
  let ?c = "c[p := (c ! p)\<lparr>h_val := v\<rparr>]"
  have g: "get_bucket s i = Inr c" using assms by (simp add: get_bucket_def table_ok_def)
  have "placed khash (hashmask s) i ?c" using bucket_placed [OF assms(1-3)] assms(4)
    by (auto simp: placed_def dest!: set_update_subset_insert [THEN subsetD])
  then obtain s' where s': "put_bucket i ?c s = Inr s'" "table_ok khash s' (ls[i := Chain ?c])"
    "mset (nodes s') + mset c = mset (nodes s) + mset ?c" "item_count s' = item_count s"
    using bucket_write [OF assms(1-3)] by blast
  have "set_val (i, p) v s = (Inr (), s')" using g s'(1) assms(4) by (simp add: set_val_def update_res_def node_at_def)
  moreover have "mset c \<subseteq># mset (nodes s)" using mset_split [OF assms(2)] assms(1,3) by (simp add: nodes_def table_ok_def)
  then obtain R where R: "mset (nodes s) = mset c + R" by (metis subset_mset.add_diff_inverse)
  moreover have "mset (nodes s') = mset ?c + R" using s'(3) R by (simp add: ac_simps)
  moreover have "mset c = add_mset (c ! p) (mset c - {#c ! p#})" using assms(4) by simp
  moreover have "mset ?c = add_mset ((c ! p)\<lparr>h_val := v\<rparr>) (mset c - {#c ! p#})" using assms(4) by (simp add: mset_update)
  ultimately show ?thesis using s'(2,4)
    by (intro exI [of _ s'] exI [of _ "ls[i := Chain ?c]"] conjI exI [of _ "mset c - {#c ! p#} + R"]) auto
qed

section \<open>The laws of a dictionary\<close>

lemma hash_valid_cases:
  assumes "hash_valid khash s"
  obtains (empty) "hlist s = None" "hashmask s = -1" "hash_map s = (\<lambda>_. None)" "item_count s = 0" "nodes s = []"
    | (table) ls where "table_ok khash s ls"
  using assms by (auto simp: hash_valid_def hash_map_def nodes_def)

lemma hash_valid_table:
  assumes "table_ok khash s ls" "mset (nodes s) = mset ns" "distinct (map h_key ns)" "item_count s = length ns"
  shows "hash_valid khash s \<and> hash_map s = nmap ns"
  using assms distinct_keys_mset [OF assms(2)] nmap_mset [OF assms(2)] mset_eq_length [OF assms(2)]
  by (auto simp: hash_valid_def hash_map_def)

lemma hash_lookup_law:
  assumes "hash_valid khash s"
  shows "hash_accValue khash k s = (Inr (hash_map s k), s)"
  using assms
proof (cases rule: hash_valid_cases)
  case empty
  then show ?thesis by (simp add: hash_accValue_def hash_find_g_def pure_res_def)
next
  case (table ls)
  have d: "distinct (map h_key (nodes s))" using assms by (simp add: hash_valid_def)
  from table d show ?thesis
    by (cases rule: find_in_table [of khash s ls k])
      (simp_all add: hash_accValue_def pure_res_def node_at_def)
qed

text \<open>\<open>createNode\<close>: the existing node, or a new one at the head of its chain.\<close>

lemma createNode_law:
  assumes v: "hash_valid khash s"
  obtains (old) i p c ls where "createNode khash v0 k s = (Inr ((i, p), False), s)" "table_ok khash s ls" "i < length ls"
      "ls ! i = Chain c" "p < length c" "h_key (c ! p) = k" "hash_map s k \<noteq> None"
    | (new) i c s' ls where "createNode khash v0 k s = (Inr ((i, 0), True), s')" "table_ok khash s' ls" "i < length ls"
      "ls ! i = Chain (\<lparr>h_key = k, h_val = v0, h_hash = khash k\<rparr> # c)"
      "mset (nodes s') = add_mset \<lparr>h_key = k, h_val = v0, h_hash = khash k\<rparr> (mset (nodes s))"
      "item_count s' = Suc (item_count s)" "hash_map s k = None"
proof -
  let ?n = "\<lparr>h_key = k, h_val = v0, h_hash = khash k\<rparr>"
  have d: "distinct (map h_key (nodes s))" using v by (simp add: hash_valid_def)
  have fresh: thesis if f: "hash_find_g (khash k) k s = (Inr None, s)" and m: "hash_map s k = None"
  proof -
    obtain s1 ls1 where g: "grow s = (Inr (), s1)" "table_ok khash s1 ls1" "mset (nodes s1) = mset (nodes s)"
      "item_count s1 = item_count s" using grow_ok [OF v] by blast
    obtain i c s2 ls2 where p: "push_node ?n s1 = (Inr (i, 0), s2)" "table_ok khash s2 ls2" "i < length ls2"
      "ls2 ! i = Chain (?n # c)" "mset (nodes s2) = add_mset ?n (mset (nodes s1))" "item_count s2 = Suc (item_count s1)"
      using push_node_ok [OF g(2), of ?n] by auto
    show thesis by (rule new [of i s2 ls2 c]) (use f m g p in \<open>simp_all add: createNode_def hash_create_g_def\<close>)
  qed
  show thesis using v
  proof (cases rule: hash_valid_cases)
    case empty
    then show thesis by (intro fresh) (simp_all add: hash_find_g_def pure_res_def)
  next
    case (table ls)
    from table d show thesis
    proof (cases rule: find_in_table [of khash s ls k])
      case (found c p)
      then show thesis using table
        by (intro old [of "mask_index (hashmask s) (khash k)" p ls c]) (simp_all add: createNode_def hash_create_g_def)
    next
      case (absent c)
      then show thesis by (intro fresh)
    qed
  qed
qed

lemma set_new_val:
  assumes "hash_valid khash s" "hash_map s k = None" "table_ok khash s' ls" "i < length ls"
    "ls ! i = Chain (\<lparr>h_key = k, h_val = v0, h_hash = khash k\<rparr> # c)"
    "mset (nodes s') = add_mset \<lparr>h_key = k, h_val = v0, h_hash = khash k\<rparr> (mset (nodes s))"
    "item_count s' = Suc (item_count s)"
  shows "\<exists>s2. set_val (i, 0) v s' = (Inr (), s2) \<and> hash_valid khash s2 \<and> hash_map s2 = (hash_map s)(k \<mapsto> v)"
proof -
  let ?n = "\<lparr>h_key = k, h_val = v, h_hash = khash k\<rparr>"
  obtain s2 ls2 where s2: "set_val (i, 0) v s' = (Inr (), s2)" "table_ok khash s2 ls2" "item_count s2 = item_count s'"
    "mset (nodes s2) = add_mset ?n (mset (nodes s))"
    using set_val_ok [OF assms(3-5), of 0 v] assms(6) by auto
  have d: "distinct (map h_key (?n # nodes s))" "item_count s = length (nodes s)"
    using assms(1,2) by (auto simp: hash_valid_def hash_map_def nmap_None)
  have "hash_valid khash s2 \<and> hash_map s2 = nmap (?n # nodes s)"
    by (rule hash_valid_table [OF s2(2)]) (use s2 d assms(7) in simp_all)
  then show ?thesis using s2(1) by (simp add: hash_map_def)
qed

lemma hash_create_law:
  assumes "hash_valid khash s"
  shows "\<exists>s'. hash_create khash v0 k v s = (Inr (hash_map s k = None), s') \<and> hash_valid khash s' \<and>
    hash_map s' = (if hash_map s k = None then (hash_map s)(k \<mapsto> v) else hash_map s)"
  using assms
proof (cases rule: createNode_law [where k = k and ?v0.0 = v0])
  case (old i p c ls)
  then show ?thesis using assms by (auto simp: hash_create_def)
next
  case (new i c s' ls)
  then show ?thesis using set_new_val [OF assms new(7,2,3,4,5,6), of v] by (auto simp: hash_create_def)
qed

lemma hash_replace_law:
  assumes "hash_valid khash s"
  shows "\<exists>s'. hash_replace khash v0 k v s = (Inr (hash_map s k = None), s') \<and> hash_valid khash s' \<and>
    hash_map s' = (hash_map s)(k \<mapsto> v)"
  using assms
proof (cases rule: createNode_law [where k = k and ?v0.0 = v0])
  case (old i p c ls)
  let ?n = "(c ! p)\<lparr>h_val := v\<rparr>"
  obtain s2 ls2 R where s2: "set_val (i, p) v s = (Inr (), s2)" "table_ok khash s2 ls2" "item_count s2 = item_count s"
    "mset (nodes s) = add_mset (c ! p) R" "mset (nodes s2) = add_mset ?n R"
    using set_val_ok [OF old(2-5), of v] by blast
  obtain ns where ns: "mset ns = R" using ex_mset by blast
  have v: "distinct (map h_key (nodes s))" "item_count s = length (nodes s)" using assms by (auto simp: hash_valid_def)
  have e: "mset (nodes s) = mset (c ! p # ns)" using s2(4) ns by simp
  have d: "distinct (map h_key (c ! p # ns))" using v(1) distinct_keys_mset [OF e] by simp
  have "hash_valid khash s2 \<and> hash_map s2 = nmap (?n # ns)"
    by (rule hash_valid_table [OF s2(2)]) (use s2(3,5) ns d v(2) mset_eq_length [OF e] in simp_all)
  moreover have "hash_map s = nmap (c ! p # ns)" using nmap_mset [OF e v(1)] by (simp add: hash_map_def)
  ultimately show ?thesis using old(1,6,7) s2(1) by (auto simp: hash_replace_def)
next
  case (new i c s' ls)
  then show ?thesis using set_new_val [OF assms new(7,2,3,4,5,6), of v] by (auto simp: hash_replace_def)
qed

lemma hash_remove_law:
  assumes "hash_valid khash s"
  shows "\<exists>s'. hash_remove khash k s = (Inr (hash_map s k \<noteq> None), s') \<and> hash_valid khash s' \<and>
    hash_map s' = (hash_map s)(k := None)"
  using assms
proof (cases rule: hash_valid_cases)
  case empty
  then show ?thesis using assms by (simp add: hash_remove_def hash_remove_g_def fun_upd_idem)
next
  case (table ls)
  have v: "distinct (map h_key (nodes s))" "item_count s = length (nodes s)" using assms by (auto simp: hash_valid_def)
  have hl: "hlist s = Some ls" using table by (simp add: table_ok_def)
  let ?i = "mask_index (hashmask s) (khash k)"
  from table v(1) show ?thesis
  proof (cases rule: find_in_table [of khash s ls k])
    case (absent c)
    then show ?thesis using assms hl by (simp add: hash_remove_def hash_remove_g_def pure_res_def fun_upd_idem)
  next
    case (found c p)
    let ?c = "take p c @ drop (Suc p) c"
    have sub: "set ?c \<subseteq> set c" using set_take_subset [of p c] set_drop_subset [of "Suc p" c] by auto
    have "placed khash (hashmask s) ?i ?c" using bucket_placed [OF table found(8,4)] sub by (auto simp: placed_def)
    then obtain s' where s': "put_bucket ?i ?c s = Inr s'" "table_ok khash s' (ls[?i := Chain ?c])"
      "mset (nodes s') + mset c = mset (nodes s) + mset ?c" "item_count s' = item_count s"
      using bucket_write [OF table found(8,4)] by blast
    have "mset c = mset (take p c @ c ! p # drop (Suc p) c)" using id_take_nth_drop [OF found(5)] by (rule arg_cong)
    also have "\<dots> = add_mset (c ! p) (mset ?c)" by simp
    finally have e: "mset (nodes s) = mset (c ! p # nodes s')" using s'(3) by (simp del: mset_append)
    let ?s = "s'\<lparr>item_count := item_count s' - 1\<rparr>"
    have t: "table_ok khash ?s (ls[?i := Chain ?c])" "nodes ?s = nodes s'" using s'(2) by (simp_all add: table_ok_def nodes_def)
    have d: "distinct (map h_key (c ! p # nodes s'))" using v(1) distinct_keys_mset [OF e] by simp
    have "hash_valid khash ?s \<and> hash_map ?s = nmap (nodes s')"
      by (rule hash_valid_table [OF t(1)]) (use t d v(2) s'(4) mset_eq_length [OF e] in simp_all)
    moreover have hm: "hash_map s = nmap (c ! p # nodes s')" using nmap_mset [OF e v(1)] by (simp add: hash_map_def)
    have "nmap (nodes s') = (hash_map s)(k := None)" unfolding hm using nmap_remove [OF d] unfolding found(6) .
    moreover have "hash_remove khash k s = (Inr True, ?s)"
      using found s'(1) hl by (simp add: hash_remove_def hash_remove_g_def pure_res_def update_res_def)
    ultimately show ?thesis using found(7) by auto
  qed
qed

lemma hash_count_law: "hash_valid khash s \<Longrightarrow> finite (dom (hash_map s)) \<and> item_count s = card (dom (hash_map s))"
  unfolding hash_valid_def hash_map_def dom_nmap
  by (metis List.finite_set distinct_card finite_imageI length_map list.set_map)

interpretation hash_dict: dict "hash_valid khash" hash_map item_count "hash_accValue khash"
  "hash_create khash v0" "hash_replace khash v0" "hash_remove khash"
  by unfold_locales (fact hash_lookup_law hash_create_law hash_replace_law hash_remove_law hash_count_law)+

section \<open>Iteration, clearing, moving and merging\<close>

text \<open>The loop \<^verbatim>\<open>for (n = iterFirst(); n; n = iterNext(n))\<close>, collecting the nodes.\<close>

fun hash_walk :: "nat \<Rightarrow> node_ref option \<Rightarrow> ('k, 'v) hash_c \<Rightarrow> ('k, 'v) hnode list result" where
  "hash_walk f None s = Inr []"
| "hash_walk 0 (Some r) s = Inl Diverges"
| "hash_walk (Suc f) (Some r) s = ebind (node_at r s) (\<lambda>n. ebind (fst (hash_iterNext_g r s)) (\<lambda>r.
     ebind (hash_walk f r s) (\<lambda>ns. Inr (n # ns))))"

definition tail_nodes :: "('k, 'v) hnode bucket list \<Rightarrow> node_ref option \<Rightarrow> ('k, 'v) hnode list" where
  "tail_nodes ls r = (case r of None \<Rightarrow> []
     | Some (i, p) \<Rightarrow> drop p (chain (ls ! i)) @ concat (map chain (drop (Suc i) ls)))"

definition live_ref :: "('k, 'v) hnode bucket list \<Rightarrow> node_ref option \<Rightarrow> bool" where
  "live_ref ls r = (case r of None \<Rightarrow> True | Some (i, p) \<Rightarrow> i < length ls \<and> p < length (chain (ls ! i)))"

lemma scan_buckets_ok:
  assumes "table_ok khash s ls" "i + k = length ls"
  shows "\<exists>r. scan_buckets s i k = Inr r \<and> live_ref ls r \<and> tail_nodes ls r = concat (map chain (drop i ls))"
  using assms(2)
proof (induction k arbitrary: i)
  case 0
  then show ?case by (auto simp: live_ref_def tail_nodes_def)
next
  case (Suc k)
  then have il: "i < length ls" by simp
  obtain c where c: "get_bucket s i = Inr c" "ls ! i = Chain c" using table_bucket [OF assms(1) il] by metis
  have d: "drop i ls = Chain c # drop (Suc i) ls" using c(2) il by (metis Cons_nth_drop_Suc)
  show ?case
  proof (cases "c = []")
    case True
    then show ?thesis using Suc.IH [of "Suc i"] Suc.prems c d by simp
  next
    case False
    then show ?thesis using c d il by (auto simp: live_ref_def tail_nodes_def)
  qed
qed

lemma iterNext_ok:
  assumes "table_ok khash s ls" "i < length ls" "ls ! i = Chain c" "p < length c"
  shows "node_at (i, p) s = Inr (c ! p) \<and> (\<exists>r. fst (hash_iterNext_g (i, p) s) = Inr r \<and> live_ref ls r \<and>
    tail_nodes ls (Some (i, p)) = c ! p # tail_nodes ls r)"
proof -
  have g: "get_bucket s i = Inr c" using assms by (simp add: get_bucket_def table_ok_def)
  have n: "node_at (i, p) s = Inr (c ! p)" using g assms(4) by (simp add: node_at_def)
  have ix: "mask_index (hashmask s) (h_hash (c ! p)) = i" using bucket_placed [OF assms(1-3)] assms(4) unfolding placed_def by (metis nth_mem)
  have sz: "nat (hashmask s + 1) = length ls" using assms(1) by (auto simp: table_ok_def nat_power_eq)
  have d: "drop p c = c ! p # drop (Suc p) c" using assms(4) by (metis Cons_nth_drop_Suc)
  show ?thesis
  proof (cases "Suc p < length c")
    case True
    then show ?thesis using n g d assms by (auto simp: hash_iterNext_g_def pure_res_def live_ref_def tail_nodes_def)
  next
    case False
    then have "drop (Suc p) c = []" by simp
    moreover obtain r where "scan_buckets s (Suc i) (length ls - Suc i) = Inr r" "live_ref ls r"
      "tail_nodes ls r = concat (map chain (drop (Suc i) ls))"
      using scan_buckets_ok [OF assms(1) le_add_diff_inverse [OF Suc_leI [OF assms(2)]]] by blast
    ultimately show ?thesis using n g d False ix sz assms(3)
      by (intro conjI exI [of _ r]) (simp_all add: hash_iterNext_g_def pure_res_def tail_nodes_def [of ls "Some (i, p)"])
  qed
qed

lemma walk_ok:
  assumes "table_ok khash s ls"
  shows "live_ref ls r \<Longrightarrow> length (tail_nodes ls r) \<le> f \<Longrightarrow> hash_walk f r s = Inr (tail_nodes ls r)"
proof (induction f arbitrary: r)
  case 0
  then show ?case by (cases r) (auto simp: live_ref_def tail_nodes_def)
next
  case (Suc f)
  show ?case
  proof (cases r)
    case None
    then show ?thesis by (simp add: tail_nodes_def)
  next
    case (Some ip)
    then obtain i p where r: "r = Some (i, p)" by (cases ip) auto
    then have il: "i < length ls" using Suc.prems by (simp add: live_ref_def)
    then obtain c where c: "ls ! i = Chain c" using assms by (auto simp: table_ok_def well_placed_def)
    have p: "p < length c" using Suc.prems(1) r c by (simp add: live_ref_def)
    obtain r' where r': "node_at (i, p) s = Inr (c ! p)" "fst (hash_iterNext_g (i, p) s) = Inr r'" "live_ref ls r'"
      "tail_nodes ls (Some (i, p)) = c ! p # tail_nodes ls r'"
      using iterNext_ok [OF assms il c p] by blast
    have "hash_walk f r' s = Inr (tail_nodes ls r')" using Suc.IH [OF r'(3)] Suc.prems(2) r r'(4) by simp
    then show ?thesis using r r' by simp
  qed
qed

lemma hash_walk_valid:
  assumes "hash_valid khash s"
  shows "\<exists>r. fst (hash_iterFirst_g s) = Inr r \<and> hash_walk (length (nodes s)) r s = Inr (nodes s)"
  using assms
proof (cases rule: hash_valid_cases)
  case empty
  then show ?thesis by (simp add: hash_iterFirst_g_def pure_res_def)
next
  case (table ls)
  then have "nat (hashmask s + 1) = length ls" "hlist s = Some ls" by (auto simp: table_ok_def nat_power_eq)
  then show ?thesis using scan_buckets_ok [OF table, of 0 "length ls"] walk_ok [OF table]
    by (auto simp: hash_iterFirst_g_def pure_res_def nodes_def)
qed

lemma clean_loop_ok:
  assumes "table_ok khash s ls" "i + k = length ls" "item_count s = length (concat (map chain (drop i ls)))"
    "\<forall>j<i. ls ! j = Chain []"
  shows "\<exists>s' ls'. clean_loop i k s = Inr s' \<and> table_ok khash s' ls' \<and> nodes s' = [] \<and> item_count s' = 0"
  using assms
proof (induction k arbitrary: i s ls)
  case 0
  then have "\<forall>b\<in>set ls. b = Chain []" by (auto simp: in_set_conv_nth)
  then have "concat (map chain ls) = []" by auto
  then show ?case using 0 by (auto simp: nodes_def table_ok_def)
next
  case (Suc k)
  then have il: "i < length ls" by simp
  obtain c where c: "get_bucket s i = Inr c" "ls ! i = Chain c" using table_bucket [OF Suc.prems(1) il] by metis
  let ?s = "s\<lparr>item_count := item_count s - length c\<rparr>"
  have d: "drop i ls = Chain c # drop (Suc i) ls" using c(2) il by (metis Cons_nth_drop_Suc)
  have t: "table_ok khash ?s ls" using Suc.prems(1) by (simp add: table_ok_def)
  have "placed khash (hashmask ?s) i []" by (simp add: placed_def)
  then obtain s1 where s1: "put_bucket i [] ?s = Inr s1" "table_ok khash s1 (ls[i := Chain []])" "item_count s1 = item_count ?s"
    using bucket_write [OF t il c(2)] by blast
  have "\<exists>s' ls'. clean_loop (Suc i) k s1 = Inr s' \<and> table_ok khash s' ls' \<and> nodes s' = [] \<and> item_count s' = 0"
    by (rule Suc.IH [OF s1(2)]) (use Suc.prems s1(3) d il in \<open>auto simp: less_Suc_eq nth_list_update\<close>)
  then show ?case using c s1 by simp
qed

lemma hash_clean_ok:
  assumes "hash_valid khash s"
  shows "\<exists>s'. hash_clean_g s = (Inr (), s') \<and> hash_valid khash s' \<and> hash_map s' = (\<lambda>_. None)"
  using assms
proof (cases rule: hash_valid_cases)
  case empty
  then show ?thesis using assms by (auto simp: hash_clean_g_def update_res_def)
next
  case (table ls)
  then have sz: "nat (hashmask s + 1) = length ls" "hlist s = Some ls" by (auto simp: table_ok_def nat_power_eq)
  moreover have "item_count s = length (concat (map chain (drop 0 ls)))"
    using assms sz by (simp add: hash_valid_def nodes_def)
  ultimately obtain s' ls' where "clean_loop 0 (length ls) s = Inr s'" "table_ok khash s' ls'" "nodes s' = []" "item_count s' = 0"
    using clean_loop_ok [OF table, of 0 "length ls"] by auto
  then show ?thesis using sz by (auto simp: hash_clean_g_def update_res_def hash_valid_def hash_map_def)
qed

lemma destroy_loop_ok: "table_ok khash s ls \<Longrightarrow> i + k = length ls \<Longrightarrow> destroy_loop i k s = Inr ()"
proof (induction k arbitrary: i)
  case (Suc k)
  then have il: "i < length ls" by simp
  show ?case using table_bucket [OF Suc.prems(1) il] Suc by fastforce
qed simp

lemma hash_destroy_ok: "hash_valid khash s \<Longrightarrow> hash_destroy_g s = (Inr (), s\<lparr>hlist := None\<rparr>)"
proof -
  assume v: "hash_valid khash s"
  then show ?thesis
  proof (cases rule: hash_valid_cases)
    case empty
    then show ?thesis by (simp add: hash_destroy_g_def update_res_def)
  next
    case (table ls)
    then have "nat (hashmask s + 1) = length ls" "hlist s = Some ls" by (auto simp: table_ok_def nat_power_eq)
    then show ?thesis using destroy_loop_ok [OF table, of 0 "length ls"] by (simp add: hash_destroy_g_def update_res_def)
  qed
qed

text \<open>A table a node with a wrong hash member was added to does not find the node's key.\<close>

lemma put_get_bucket:
  "put_bucket i c s = Inr s' \<Longrightarrow> get_bucket s' j = (if j = i then Inr c else get_bucket s j) \<and> hashmask s' = hashmask s \<and>
    (hlist s' = None) = (hlist s = None)"
  by (auto simp: put_bucket_def get_bucket_def mem_get_def split: option.splits if_splits)

lemma add_junk_lost:
  assumes "hash_valid khash s" "hash_map s (h_key n) = None" "h_hash n \<noteq> khash (h_key n)"
  shows "\<exists>s'. addNewNode_g n s = (Inr (), s') \<and> hash_accValue khash (h_key n) s' = (Inr None, s') \<and> item_count s' = Suc (item_count s)"
proof -
  let ?k = "h_key n"
  have d: "distinct (map h_key (nodes s))" "?k \<notin> h_key ` set (nodes s)"
    using assms(1,2) by (auto simp: hash_valid_def hash_map_def nmap_None)
  obtain s1 ls where g: "grow s = (Inr (), s1)" "table_ok khash s1 ls" "mset (nodes s1) = mset (nodes s)" "item_count s1 = item_count s"
    using grow_ok [OF assms(1)] by blast
  let ?j = "mask_index (hashmask s1) (h_hash n)" and ?i = "mask_index (hashmask s1) (khash ?k)"
  have jl: "?j < length ls" "?i < length ls" using table_index [OF g(2)] by auto
  obtain c where c: "get_bucket s1 ?j = Inr c" "ls ! ?j = Chain c" using table_bucket [OF g(2) jl(1)] by metis
  obtain e where e: "get_bucket s1 ?i = Inr e" "ls ! ?i = Chain e" using table_bucket [OF g(2) jl(2)] by metis
  have hl: "hlist s1 = Some ls" using g(2) by (simp add: table_ok_def)
  have "set e \<subseteq> set (nodes s1)" using bucket_nodes [OF g(2) jl(2) e(2)] .
  then have "set e \<subseteq> set (nodes s)" using mset_eq_setD [OF g(3)] by simp
  then have no: "\<forall>m\<in>set e. \<not> (h_hash m = khash ?k \<and> h_key m = ?k)" using d(2) by (metis image_eqI subsetD)
  obtain s2 where s2: "put_bucket ?j (n # c) s1 = Inr s2" using hl jl by (simp add: put_bucket_def)
  let ?s = "s2\<lparr>item_count := Suc (item_count s2)\<rparr>"
  have run: "addNewNode_g n s = (Inr (), ?s)"
    using g(1) c(1) s2 by (simp add: addNewNode_g_def push_node_def pure_res_def update_res_def)
  obtain e' where e': "get_bucket ?s ?i = Inr e'" "\<forall>m\<in>set e'. \<not> (h_hash m = khash ?k \<and> h_key m = ?k)"
  proof (cases "?i = ?j")
    case True
    then have "e = c" using c e by simp
    then show ?thesis using that [of "n # c"] put_get_bucket [OF s2, of ?i] True no assms(3) by (auto simp: get_bucket_def)
  next
    case False
    then show ?thesis using that [of e] put_get_bucket [OF s2, of ?i] no e(1) by (auto simp: get_bucket_def)
  qed
  have "find_chain (khash ?k) ?k 0 e' = None" using e'(2) by (simp add: find_chain_None)
  moreover have "hashmask ?s = hashmask s1" "hlist ?s \<noteq> None" using put_get_bucket [OF s2] hl by simp_all
  ultimately have "hash_accValue khash ?k ?s = (Inr None, ?s)"
    using e'(1) by (auto simp: hash_accValue_def hash_find_g_def pure_res_def sbind_def Let_def)
  moreover have "item_count s2 = item_count s1" using s2 by (auto simp: put_bucket_def hl split: if_splits)
  ultimately show ?thesis using run g(4) by auto
qed

lemma hash_empty_ok: "hash_valid khash hash_empty" "hash_map hash_empty = (\<lambda>_. None)"
  by (simp_all add: hash_valid_def hash_map_def hash_empty_def nodes_def)

lemma run_from_empty:
  "\<exists>s'. dict_run (dict_step (hash_accValue khash) (hash_create khash v0) (hash_replace khash v0) (hash_remove khash)) ps hash_empty =
      (Inr (fst (spec_run ps (\<lambda>_. None))), s') \<and> hash_valid khash s' \<and> hash_map s' = snd (spec_run ps (\<lambda>_. None)) \<and>
      item_count s' = card (dom (snd (spec_run ps (\<lambda>_. None))))"
  using hash_dict.run_refines [OF hash_empty_ok(1), of ps "fst (spec_run ps (\<lambda>_. None))" "snd (spec_run ps (\<lambda>_. None))" khash v0]
  by (simp add: hash_empty_ok(2))

section \<open>Properties\<close>

text \<open>
  C4: Any sequence of lookups, insertions, replacements and removals on a hash table that starts empty ends
  without an error and gives the answers a finite map gives, for every hash function and through every
  growth of the bucket array; the table stays valid and its element count is that of the map.
\<close>

theorem hash_refines_map:
  "\<exists>s'. dict_run (dict_step (hash_accValue khash) (hash_create khash v0) (hash_replace khash v0) (hash_remove khash)) ps hash_empty =
      (Inr (fst (spec_run ps (\<lambda>_. None))), s') \<and> hash_valid khash s' \<and> hash_map s' = snd (spec_run ps (\<lambda>_. None)) \<and>
      item_count s' = card (dom (snd (spec_run ps (\<lambda>_. None))))"
  by (rule run_from_empty)

text \<open>
  C20: Iterating over a valid table with \<open>iterFirst\<close> and \<open>iterNext\<close> ends after visiting every node exactly once,
  and \<open>clean\<close> leaves a valid empty table.
\<close>

theorem hash_iteration_complete:
  assumes "hash_valid khash s"
  shows "(\<exists>r. fst (hash_iterFirst_g s) = Inr r \<and> hash_walk (item_count s) r s = Inr (nodes s)) \<and>
    distinct (map h_key (nodes s)) \<and> nmap (nodes s) = hash_map s \<and>
    (\<exists>s'. hash_clean_g s = (Inr (), s') \<and> hash_valid khash s' \<and> hash_map s' = (\<lambda>_. None))"
  using hash_walk_valid [OF assms] hash_clean_ok [OF assms] assms by (auto simp: hash_valid_def hash_map_def)

definition sample_hash :: "(nat, nat) hash_c" where
  "sample_hash = snd (dict_run (dict_step (hash_accValue int) (hash_create int 0) (hash_replace int 0) (hash_remove int))
     [Create 1 10, Create 5 50, Create 2 20, Create 9 90] hash_empty)"

lemma sample_hash_valid: "hash_valid int sample_hash" "hash_map sample_hash 7 = None"
proof -
  let ?ps = "[Create 1 10, Create 5 50, Create 2 20, Create 9 90] :: (nat, nat) dict_op list"
  obtain s' where s': "dict_run (dict_step (hash_accValue int) (hash_create int 0) (hash_replace int 0) (hash_remove int)) ?ps hash_empty =
      (Inr (fst (spec_run ?ps (\<lambda>_. None))), s')" "hash_valid int s'" "hash_map s' = snd (spec_run ?ps (\<lambda>_. None))"
    using run_from_empty [of int 0 ?ps] by blast
  have "sample_hash = s'" unfolding sample_hash_def s'(1) by simp
  then show "hash_valid int sample_hash" "hash_map sample_hash 7 = None" using s'(2,3) by simp_all
qed

theorem hash_iteration_complete_witness:
  "\<exists>r. fst (hash_iterFirst_g sample_hash) = Inr r \<and> hash_walk (item_count sample_hash) r sample_hash = Inr (nodes sample_hash)"
  using hash_iteration_complete [OF sample_hash_valid(1)] by blast

text \<open>
  \<open>moveFrom\<close> gives the receiver the entries of a valid source, but leaves a source that cannot be used any
  more: iterating over it dereferences \<open>NULL\<close>, and creating a key reads a bucket that was never written.
\<close>

theorem hash_moved_from_unusable:
  assumes "hash_valid khash s" and "hash_valid khash source"
  shows "\<exists>s' source'. hash_moveFrom_g source s = (Inr source', s') \<and> hash_valid khash s' \<and> hash_map s' = hash_map source \<and>
    fst (hash_iterFirst_g source') = Inl NullAccess \<and> fst (hash_create khash v0 k v source') = Inl OutOfBounds"
proof -
  let ?s = "s\<lparr>hlist := hlist source, hashmask := hashmask source, item_count := item_count source\<rparr>"
  let ?src = "source\<lparr>hashmask := 0, hlist := None, item_count := 0\<rparr>"
  have "hash_moveFrom_g source s = (Inr ?src, ?s)"
    using hash_destroy_ok [OF assms(1)] by (simp add: hash_moveFrom_g_def)
  moreover have "?s = source" by (cases s, cases source) simp
  moreover have "fst (hash_iterFirst_g ?src) = Inl NullAccess"
    by (simp add: hash_iterFirst_g_def pure_res_def get_bucket_def)
  moreover have "fst (hash_create khash v0 k v ?src) = Inl OutOfBounds"
    by (simp add: hash_create_def createNode_def hash_create_g_def hash_find_g_def pure_res_def grow_def update_res_def
        quarter_def mem_write_def numeral_eq_Suc)
  ultimately show ?thesis using assms(2) by metis
qed

theorem hash_moved_from_unusable_witness:
  "\<exists>s' source'. hash_moveFrom_g sample_hash hash_empty = (Inr source', s') \<and> fst (hash_create int 0 7 70 source') = Inl OutOfBounds"
  using hash_moved_from_unusable [OF hash_empty_ok(1) sample_hash_valid(1), of 0 7 70] by blast

text \<open>
  C31: \<open>replaceFrom\<close> adds an entry for a key the receiver does not have with an unset hash member: unless that happens to be
  the hash of the key, the entry is counted but not found.
\<close>

theorem hash_replaceFrom_loses:
  assumes "hash_valid khash s" and "hash_map s (h_key n) = None" and "h_hash n = khash (h_key n)" and "junk \<noteq> khash (h_key n)"
  shows "\<exists>s'. replace_one junk n s = (Inr (), s') \<and> hash_accValue khash (h_key n) s' = (Inr None, s') \<and>
    item_count s' = Suc (item_count s)"
proof -
  have "hash_find_g (khash (h_key n)) (h_key n) s = (Inr None, s)"
    using assms(1)
  proof (cases rule: hash_valid_cases)
    case (table ls)
    have d: "distinct (map h_key (nodes s))" using assms(1) by (simp add: hash_valid_def)
    from table d show ?thesis by (cases rule: find_in_table [of khash s ls "h_key n"]) (use assms(2) in auto)
  qed (simp add: hash_find_g_def pure_res_def)
  then show ?thesis using add_junk_lost [of khash s "n\<lparr>h_hash := junk\<rparr>"] assms
    by (cases n) (auto simp: replace_one_def)
qed

theorem hash_replaceFrom_loses_witness:
  "\<exists>s'. replace_one 0 \<lparr>h_key = 7, h_val = 70, h_hash = 7\<rparr> sample_hash = (Inr (), s') \<and> hash_accValue int 7 s' = (Inr None, s')"
  using hash_replaceFrom_loses [of int sample_hash "\<lparr>h_key = 7, h_val = 70, h_hash = 7\<rparr>" 0] sample_hash_valid by auto

end
