(* ===== verification/Drt_Eval.thy ===== *)
theory Drt_Eval
  imports Drt_Prelude "HOL-Library.Signed_Division"
begin

text \<open>
  The integer expression evaluator of \<^verbatim>\<open>src/src/core/eval\<close>: the operator-precedence parser of
  \<^verbatim>\<open>Evaluator.cxx\<close>, which takes the tokenizer as a virtual function, the tokenizer and the expression
  classes of \<^verbatim>\<open>IntEvaluator.cxx\<close>.  The text is the character string up to its terminating zero.  An
  operator object gets its operands when it leaves the stack, so an expression is a tree.  The
  parser loop is bounded by the length of the text, which is shown to be enough.  \<^verbatim>\<open>Sint64\<close> arithmetic
  wraps around.
\<close>

section \<open>Expressions\<close>

datatype operators =
    OP_Unknown | OP_UnPlus | OP_UnMinus | OP_UnNot | OP_UnBitNot | OP_BinPlus | OP_BinMinus | OP_BinMul
  | OP_BinDiv | OP_BinPower | OP_BinEqual | OP_BinNonEq | OP_BinLower | OP_BinGreater | OP_BinLowerEq
  | OP_BinGreaterEq | OP_BinLShift | OP_BinRShift | OP_BinByteSwap | OP_BinBitAnd | OP_BinBitOr
  | OP_BinBitXor | OP_BinAnd | OP_BinOr | OP_BinXor | OP_Parenthesis

fun operation_id :: "operators \<Rightarrow> nat" where
  "operation_id OP_Unknown = 0" | "operation_id OP_UnPlus = 1" | "operation_id OP_UnMinus = 2"
| "operation_id OP_UnNot = 3" | "operation_id OP_UnBitNot = 4" | "operation_id OP_BinPlus = 5"
| "operation_id OP_BinMinus = 6" | "operation_id OP_BinMul = 7" | "operation_id OP_BinDiv = 8"
| "operation_id OP_BinPower = 9" | "operation_id OP_BinEqual = 10" | "operation_id OP_BinNonEq = 11"
| "operation_id OP_BinLower = 12" | "operation_id OP_BinGreater = 13" | "operation_id OP_BinLowerEq = 14"
| "operation_id OP_BinGreaterEq = 15" | "operation_id OP_BinLShift = 16" | "operation_id OP_BinRShift = 17"
| "operation_id OP_BinByteSwap = 18" | "operation_id OP_BinBitAnd = 19" | "operation_id OP_BinBitOr = 20"
| "operation_id OP_BinBitXor = 21" | "operation_id OP_BinAnd = 22" | "operation_id OP_BinOr = 23"
| "operation_id OP_BinXor = 24" | "operation_id OP_Parenthesis = 25"

definition priorities :: "nat list" where
  "priorities = [255, 15, 15, 15, 15, 40, 40, 30, 30, 25, 60, 60, 60, 60, 60, 60, 70, 70, 70, 80, 80, 80,
     90, 90, 90, 5]"

datatype oper = IntUnaryExpression operators | IntBinaryFullExpression operators | IntBinaryPartExpression operators

datatype expression =
    DirectExpression u64
  | VariableExpression string
  | DefinedVariableExpression string
  | ValueExpression u32
  | DefinedValueExpression u32
  | UnaryNode operators expression
  | FullNode operators expression expression
  | PartNode operators expression expression

text \<open>\<open>setOperands\<close> reads as many operands as its class has.\<close>

fun setOperands :: "oper \<Rightarrow> expression list \<Rightarrow> expression result" where
  "setOperands (IntUnaryExpression f) (a # _) = Inr (UnaryNode f a)"
| "setOperands (IntBinaryFullExpression f) (a # b # _) = Inr (FullNode f a b)"
| "setOperands (IntBinaryPartExpression f) (a # b # _) = Inr (PartNode f a b)"
| "setOperands _ _ = Inl OutOfBounds"

section \<open>Evaluation\<close>

record arguments =
  constants :: "string \<rightharpoonup> u64"
  vals :: "u32 \<rightharpoonup> u64"

definition bytes_of :: "string \<Rightarrow> byte list" where
  "bytes_of s = map of_char s"

fun decimal :: "nat \<Rightarrow> string" where
  "decimal n = (if n < 10 then [] else decimal (n div 10)) @ [char_of (48 + n mod 10)]"

declare decimal.simps [simp del]

definition createNumber :: "int \<Rightarrow> string" where
  "createNumber i = (if i < 0 then CHR ''-'' # decimal (nat (- i)) else decimal (nat i))"

definition getConstant :: "arguments \<Rightarrow> string \<Rightarrow> u64 result" where
  "getConstant args nm = (case constants args nm of Some v \<Rightarrow> Inr v
     | None \<Rightarrow> Inl (DataNotFoundException ''constant'' (bytes_of nm)))"

definition getValue :: "arguments \<Rightarrow> u32 \<Rightarrow> u64 result" where
  "getValue args idx = (case vals args idx of Some v \<Rightarrow> Inr v
     | None \<Rightarrow> Inl (DataNotFoundException ''value'' (bytes_of (createNumber (uint idx)))))"

definition truth :: "bool \<Rightarrow> u64" where
  "truth b = (if b then 1 else 0)"

definition evalUnary :: "operators \<Rightarrow> u64 \<Rightarrow> u64 result" where
  "evalUnary f v = (case f of
     OP_UnPlus \<Rightarrow> Inr v
   | OP_UnMinus \<Rightarrow> Inr (- v)
   | OP_UnNot \<Rightarrow> Inr (truth (v = 0))
   | OP_UnBitNot \<Rightarrow> Inr (NOT v)
   | _ \<Rightarrow> Inl (DataNotFoundException ''unary operand'' (bytes_of (createNumber (int (operation_id f))))))"

text \<open>\<open>>>\<close> on \<^verbatim>\<open>Sint64\<close> keeps the sign; a count outside 0..63 is undefined.\<close>

definition shr :: "u64 \<Rightarrow> nat \<Rightarrow> u64" where
  "shr l n = signed_drop_bit n l"

definition byteSwap :: "u64 \<Rightarrow> u64 \<Rightarrow> u64 result" where
  "byteSwap l r =
     (if r = 1 then Inr ((shr l 1 AND 0x5555555555555555) OR (push_bit 1 l AND 0xaaaaaaaaaaaaaaaa))
      else if r = 2 then Inr ((shr l 2 AND 0x3333333333333333) OR (push_bit 2 l AND 0xcccccccccccccccc))
      else if r = 4 then Inr ((shr l 4 AND 0x0f0f0f0f0f0f0f0f) OR (push_bit 4 l AND 0xf0f0f0f0f0f0f0f0))
      else if r = 16 then Inr ((shr l 8 AND 0x00ff) OR (push_bit 8 l AND 0xff00))
      else if r = 32 then
        (let l = (shr l 8 AND 0x00ff00ff) OR (push_bit 8 l AND 0xff00ff00)
         in Inr ((shr l 16 AND 0x0000ffff) OR (push_bit 16 l AND 0xffff0000)))
      else if r = 64 then
        (let l = (shr l 8 AND 0x00ff00ff00ff00ff) OR (push_bit 8 l AND 0xff00ff00ff00ff00);
             l = (shr l 16 AND 0x0000ffff0000ffff) OR (push_bit 16 l AND 0xffff0000ffff0000)
         in Inr ((shr l 32 AND 0x00000000ffffffff) OR (push_bit 32 l AND 0xffffffff00000000)))
      else Inl (InvalidFormatException ''right operand for binary swap'' (bytes_of (createNumber (sint r)))))"

definition evalFull :: "operators \<Rightarrow> u64 \<Rightarrow> u64 \<Rightarrow> u64 result" where
  "evalFull f l r = (case f of
     OP_BinPlus \<Rightarrow> Inr (l + r)
   | OP_BinMinus \<Rightarrow> Inr (l - r)
   | OP_BinMul \<Rightarrow> Inr (l * r)
   | OP_BinDiv \<Rightarrow> (if r = 0 \<or> (l = 0x8000000000000000 \<and> r = -1) then Inl DivByZero
                  else Inr (word_of_int (sint l sdiv sint r)))
   | OP_BinEqual \<Rightarrow> Inr (truth (l = r))
   | OP_BinNonEq \<Rightarrow> Inr (truth (l \<noteq> r))
   | OP_BinLower \<Rightarrow> Inr (truth (sint l < sint r))
   | OP_BinGreater \<Rightarrow> Inr (truth (sint l > sint r))
   | OP_BinLowerEq \<Rightarrow> Inr (truth (sint l \<le> sint r))
   | OP_BinGreaterEq \<Rightarrow> Inr (truth (sint l \<ge> sint r))
   | OP_BinLShift \<Rightarrow> (if r < 64 then Inr (push_bit (unat r) l) else Inl Undefined)
   | OP_BinRShift \<Rightarrow> (if r < 64 then Inr (shr l (unat r)) else Inl Undefined)
   | OP_BinByteSwap \<Rightarrow> byteSwap l r
   | OP_BinBitAnd \<Rightarrow> Inr (l AND r)
   | OP_BinBitOr \<Rightarrow> Inr (l OR r)
   | OP_BinBitXor \<Rightarrow> Inr (l XOR r)
   | OP_BinXor \<Rightarrow> Inr (truth ((l = 0) \<noteq> (r = 0)))
   | _ \<Rightarrow> Inl (InvalidFormatException ''binary operand'' (bytes_of (createNumber (int (operation_id f))))))"

fun evaluate :: "arguments \<Rightarrow> expression \<Rightarrow> u64 result" where
  "evaluate args (DirectExpression v) = Inr v"
| "evaluate args (VariableExpression nm) = getConstant args nm"
| "evaluate args (DefinedVariableExpression nm) = Inr (truth (constants args nm \<noteq> None))"
| "evaluate args (ValueExpression idx) = getValue args idx"
| "evaluate args (DefinedValueExpression idx) = Inr (truth (vals args idx \<noteq> None))"
| "evaluate args (UnaryNode f a) = ebind (evaluate args a) (\<lambda>v. evalUnary f v)"
| "evaluate args (FullNode f a b) = ebind (evaluate args a) (\<lambda>l. ebind (evaluate args b) (\<lambda>r. evalFull f l r))"
| "evaluate args (PartNode f a b) = ebind (evaluate args a) (\<lambda>l. case f of
     OP_BinAnd \<Rightarrow> if l \<noteq> 0 then ebind (evaluate args b) (\<lambda>r. Inr (truth (r \<noteq> 0))) else Inr (truth False)
   | OP_BinOr \<Rightarrow> if l \<noteq> 0 then Inr (truth True) else ebind (evaluate args b) (\<lambda>r. Inr (truth (r \<noteq> 0)))
   | _ \<Rightarrow> Inl (InvalidFormatException ''binary operand'' (bytes_of (createNumber (int (operation_id f))))))"

section \<open>The parser\<close>

datatype token =
    TT_Finish
  | TT_Expression expression
  | TT_Operator oper nat int
  | TT_OpenParenthesis
  | TT_CloseParenthesis
  | TT_Function oper nat

datatype parser_state = PS_Finished | PS_Expression | PS_BinOperator

type_synonym tokenizer = "string \<Rightarrow> parser_state \<Rightarrow> (token \<times> string) result"

datatype parse_element = PE_Operation oper nat nat | PE_Function oper nat | PE_OpenParenthesis

text \<open>The stack with its last element first, and the operands in order.\<close>

type_synonym parse_stack = "parse_element list \<times> expression list"

definition invalid :: "string \<Rightarrow> string \<Rightarrow> 'a result" where
  "invalid what msg = Inl (InvalidFormatException what (bytes_of msg))"

text \<open>
  Take the operands of an element from the end of the operand list and put the result back.  Every
  operator object has at least one operand.
\<close>

definition reduce :: "oper \<Rightarrow> nat \<Rightarrow> string \<Rightarrow> expression list \<Rightarrow> expression list result" where
  "reduce f num_args msg operands =
     (if num_args > length operands then invalid ''expression'' msg
      else ebind (setOperands f (drop (length operands - num_args) operands)) (\<lambda>e.
        Inr (take (length operands - num_args) operands @ [e])))"

fun parse_finish :: "parse_element list \<Rightarrow> expression list \<Rightarrow> expression result" where
  "parse_finish [] operands = (if length operands \<noteq> 1 then invalid ''expression'' ''missing operand?'' else Inr (hd operands))"
| "parse_finish (PE_OpenParenthesis # st) operands = invalid ''expression'' ''missing right parenthesis''"
| "parse_finish (PE_Operation f p n # st) operands = ebind (reduce f n ''missing operands'' operands) (parse_finish st)"
| "parse_finish (PE_Function f n # st) operands = ebind (reduce f n ''missing parameters'' operands) (parse_finish st)"

text \<open>The loop of this step ends after its first round.\<close>

definition parse_operator :: "oper \<Rightarrow> nat \<Rightarrow> int \<Rightarrow> parse_stack \<Rightarrow> parse_stack result" where
  "parse_operator f n prio ps = (let (st, operands) = ps;
     new = PE_Operation f (nat \<bar>prio\<bar>) n in case st of
       PE_Operation g p m # st' \<Rightarrow>
         if (if prio > 0 then int p > prio else int p \<ge> - prio) then Inr (new # st, operands)
         else ebind (reduce g m ''missing operands'' operands) (\<lambda>operands. Inr (new # st', operands))
     | _ \<Rightarrow> Inr (new # st, operands))"

fun parse_close :: "parse_element list \<Rightarrow> expression list \<Rightarrow> parse_stack result" where
  "parse_close [] operands = Inr ([], operands)"
| "parse_close (PE_OpenParenthesis # st) operands = Inr (st, operands)"
| "parse_close (PE_Function f n # st) operands = ebind (reduce f n ''missing parameters'' operands) (parse_close st)"
| "parse_close (PE_Operation f p n # st) operands = ebind (reduce f n ''missing operands'' operands) (parse_close st)"

definition parse_first :: "token \<Rightarrow> (parser_state \<times> parse_stack) result" where
  "parse_first t = (case t of
     TT_Finish \<Rightarrow> Inl (EndOfDataException ''expression'' ''empty'')
   | TT_Operator f n prio \<Rightarrow> Inr (PS_Expression, [PE_Operation f (nat prio) n], [])
   | TT_Expression e \<Rightarrow> Inr (PS_BinOperator, [], [e])
   | TT_OpenParenthesis \<Rightarrow> Inr (PS_Expression, [PE_OpenParenthesis], [])
   | TT_Function f n \<Rightarrow> Inr (PS_Expression, [PE_Function f n], [])
   | TT_CloseParenthesis \<Rightarrow> invalid ''expression'' ''unary operator or number'')"

fun parse_loop :: "tokenizer \<Rightarrow> nat \<Rightarrow> string \<Rightarrow> parser_state \<Rightarrow> parse_stack \<Rightarrow> expression result" where
  "parse_loop tok 0 s state ps = Inl Diverges"
| "parse_loop tok (Suc fuel) s state ps = ebind (tok s state) (\<lambda>(t, s). case t of
     TT_Finish \<Rightarrow> parse_finish (fst ps) (snd ps)
   | TT_Expression e \<Rightarrow> parse_loop tok fuel s PS_BinOperator (fst ps, snd ps @ [e])
   | TT_Operator f n prio \<Rightarrow> ebind (parse_operator f n prio ps) (parse_loop tok fuel s PS_Expression)
   | TT_OpenParenthesis \<Rightarrow> parse_loop tok fuel s PS_Expression (PE_OpenParenthesis # fst ps, snd ps)
   | TT_CloseParenthesis \<Rightarrow> ebind (parse_close (fst ps) (snd ps)) (parse_loop tok fuel s PS_BinOperator)
   | TT_Function f n \<Rightarrow> parse_loop tok fuel s PS_Expression (PE_Function f n # fst ps, snd ps))"

definition parseExpression :: "tokenizer \<Rightarrow> string \<Rightarrow> expression result" where
  "parseExpression tok s = ebind (tok s PS_Expression) (\<lambda>(t, r). ebind (parse_first t) (\<lambda>(state, ps).
     parse_loop tok (Suc (length s)) r state ps))"

section \<open>The tokenizer\<close>

definition code :: "char \<Rightarrow> nat" where
  "code c = of_char c"

definition isdigit :: "char \<Rightarrow> bool" where
  "isdigit c \<longleftrightarrow> 48 \<le> code c \<and> code c \<le> 57"

definition isalpha :: "char \<Rightarrow> bool" where
  "isalpha c \<longleftrightarrow> 65 \<le> code c \<and> code c \<le> 90 \<or> 97 \<le> code c \<and> code c \<le> 122"

definition is_space :: "char \<Rightarrow> bool" where
  "is_space c \<longleftrightarrow> code c = 32 \<or> 9 \<le> code c \<and> code c \<le> 13"

definition isname :: "char \<Rightarrow> bool" where
  "isname c \<longleftrightarrow> isalpha c \<or> isdigit c \<or> c = CHR ''_'' \<or> c = CHR ''.''"

text \<open>The character at the position, zero at the end.\<close>

definition peek :: "string \<Rightarrow> char" where
  "peek s = (case s of [] \<Rightarrow> CHR 0x00 | c # _ \<Rightarrow> c)"

text \<open>\<^verbatim>\<open>strtoll\<close> with base 0: a sign, then hexadecimal, octal or decimal digits; the value is clamped.\<close>

definition digit_num :: "char \<Rightarrow> nat" where
  "digit_num c = (if isdigit c then code c - 48 else if 97 \<le> code c \<and> code c \<le> 122 then code c - 87
     else if 65 \<le> code c \<and> code c \<le> 90 then code c - 55 else 99)"

fun strto_digits :: "nat \<Rightarrow> nat \<Rightarrow> string \<Rightarrow> nat \<times> string" where
  "strto_digits base acc [] = (acc, [])"
| "strto_digits base acc (c # s) = (if digit_num c < base then strto_digits base (acc * base + digit_num c) s else (acc, c # s))"

definition strto_number :: "string \<Rightarrow> nat \<times> string" where
  "strto_number s =
     (if peek s = CHR ''0'' then
        (if peek (tl s) \<in> {CHR ''x'', CHR ''X''} \<and> digit_num (peek (tl (tl s))) < 16 then strto_digits 16 0 (tl (tl s))
         else strto_digits 8 0 s)
      else strto_digits 10 0 s)"

definition clamp64 :: "int \<Rightarrow> u64" where
  "clamp64 i = word_of_int (max (- (2 ^ 63)) (min (2 ^ 63 - 1) i))"

definition strtoll :: "string \<Rightarrow> u64 \<times> string" where
  "strtoll s = (if peek s = CHR ''-'' then (let (n, r) = strto_number (tl s) in (clamp64 (- int n), r))
     else (let (n, r) = strto_number s in (clamp64 (int n), r)))"

definition oper_token :: "oper \<Rightarrow> operators \<Rightarrow> nat \<Rightarrow> token" where
  "oper_token obj f n = TT_Operator obj n (int (priorities ! operation_id f))"

definition full_op :: "operators \<Rightarrow> parser_state \<Rightarrow> string \<Rightarrow> string \<Rightarrow> string \<Rightarrow> (token \<times> string) result" where
  "full_op f state what msg s = (if state = PS_BinOperator then Inr (oper_token (IntBinaryFullExpression f) f 2, s)
     else invalid what msg)"

definition part_op :: "operators \<Rightarrow> parser_state \<Rightarrow> string \<Rightarrow> string \<Rightarrow> string \<Rightarrow> (token \<times> string) result" where
  "part_op f state what msg s = (if state = PS_BinOperator then Inr (oper_token (IntBinaryPartExpression f) f 2, s)
     else invalid what msg)"

text \<open>In each of these the argument is the text after the first character of the token.\<close>

definition tok_plus :: "parser_state \<Rightarrow> string \<Rightarrow> (token \<times> string) result" where
  "tok_plus state s =
     (if state = PS_BinOperator then Inr (oper_token (IntBinaryFullExpression OP_BinPlus) OP_BinPlus 2, s)
      else if isdigit (peek s) then (let (v, r) = strtoll s in Inr (TT_Expression (DirectExpression v), r))
      else Inr (oper_token (IntUnaryExpression OP_UnPlus) OP_UnPlus 1, s))"

definition tok_minus :: "parser_state \<Rightarrow> string \<Rightarrow> (token \<times> string) result" where
  "tok_minus state s =
     (if state = PS_BinOperator then Inr (oper_token (IntBinaryFullExpression OP_BinMinus) OP_BinMinus 2, s)
      else if isdigit (peek s) then (let (v, r) = strtoll (CHR ''-'' # s) in Inr (TT_Expression (DirectExpression v), r))
      else Inr (oper_token (IntUnaryExpression OP_UnMinus) OP_UnMinus 1, s))"

definition tok_equal :: "parser_state \<Rightarrow> string \<Rightarrow> (token \<times> string) result" where
  "tok_equal state s =
     (if peek s = CHR ''='' then full_op OP_BinEqual state ''binary operator ='' ''missing left operand'' (tl s)
      else invalid ''token'' s)"

definition tok_not :: "parser_state \<Rightarrow> string \<Rightarrow> (token \<times> string) result" where
  "tok_not state s =
     (if peek s = CHR ''='' then full_op OP_BinNonEq state ''binary operator ='' ''missing left operand'' (tl s)
      else if state = PS_Expression then Inr (oper_token (IntUnaryExpression OP_UnNot) OP_UnNot 1, s)
      else invalid ''unary operator !'' ''unexpected left operand'')"

definition tok_div :: "parser_state \<Rightarrow> string \<Rightarrow> (token \<times> string) result" where
  "tok_div state s = full_op OP_BinDiv state ''binary operator /'' ''missing left operand'' s"

definition tok_mul :: "parser_state \<Rightarrow> string \<Rightarrow> (token \<times> string) result" where
  "tok_mul state s = full_op OP_BinMul state ''binary operator /'' ''missing left operand'' s"

definition tok_lower :: "parser_state \<Rightarrow> string \<Rightarrow> (token \<times> string) result" where
  "tok_lower state s =
     (if peek s = CHR ''='' then full_op OP_BinLowerEq state ''binary operator <='' ''missing left operand'' (tl s)
      else if peek s = CHR ''<'' then full_op OP_BinLShift state ''binary operator <<'' ''missing left operand'' (tl s)
      else full_op OP_BinLower state ''binary operator <'' ''missing left operand'' s)"

definition tok_greater :: "parser_state \<Rightarrow> string \<Rightarrow> (token \<times> string) result" where
  "tok_greater state s =
     (if peek s = CHR ''='' then full_op OP_BinGreaterEq state ''binary operator >='' ''missing left operand'' (tl s)
      else if peek s = CHR ''>'' then
        (if peek (tl s) = CHR ''<'' \<and> peek (tl (tl s)) = CHR ''<''
         then full_op OP_BinByteSwap state ''binary operator >>'' ''missing left operand'' (tl (tl (tl s)))
         else full_op OP_BinRShift state ''binary operator >>'' ''missing left operand'' (tl s))
      else full_op OP_BinGreater state ''binary operator <'' ''missing left operand'' s)"

definition tok_and :: "parser_state \<Rightarrow> string \<Rightarrow> (token \<times> string) result" where
  "tok_and state s =
     (if peek s = CHR ''&'' then part_op OP_BinAnd state ''operator &&'' ''missing operator'' (tl s)
      else full_op OP_BinBitAnd state ''operator &'' ''missing operator'' s)"

definition tok_or :: "parser_state \<Rightarrow> string \<Rightarrow> (token \<times> string) result" where
  "tok_or state s =
     (if peek s = CHR ''|'' then part_op OP_BinOr state ''operator ||'' ''missing operator'' (tl s)
      else full_op OP_BinBitOr state ''operator |'' ''missing operator'' s)"

definition tok_xor :: "parser_state \<Rightarrow> string \<Rightarrow> (token \<times> string) result" where
  "tok_xor state s =
     (if peek s = CHR ''^'' then full_op OP_BinXor state ''operator ^^'' ''missing operator'' (tl s)
      else full_op OP_BinBitXor state ''operator ^'' ''missing operator'' s)"

definition tok_number :: "parser_state \<Rightarrow> string \<Rightarrow> (token \<times> string) result" where
  "tok_number state s =
     (if state = PS_Expression then (let (v, r) = strtoll s in Inr (TT_Expression (DirectExpression v), r))
      else invalid ''constant'' ''missing operator'')"

definition tok_defined :: "string \<Rightarrow> (token \<times> string) result" where
  "tok_defined s = (let start = dropWhile is_space s in
     if isalpha (peek start) \<or> peek start = CHR ''_'' then
       Inr (TT_Expression (DefinedVariableExpression (hd start # takeWhile isname (tl start))), dropWhile isname (tl start))
     else if peek start = CHR 0x5C then
       (let start = tl start in
        if takeWhile isdigit start = [] then invalid ''substitute'' ''missing id''
        else Inr (TT_Expression (DefinedValueExpression (ucast (fst (strtoll start)))), dropWhile isdigit start))
     else invalid ''defined'' ''missing variable or value'')"

definition tok_name :: "parser_state \<Rightarrow> string \<Rightarrow> (token \<times> string) result" where
  "tok_name state s =
     (if state = PS_Expression then
        (let nm = takeWhile isname s; r = dropWhile isname s in
         if nm = ''defined'' then tok_defined r
         else Inr (TT_Expression (VariableExpression nm), r))
      else invalid ''variable'' ''missing operator'')"

definition tok_substitute :: "parser_state \<Rightarrow> string \<Rightarrow> (token \<times> string) result" where
  "tok_substitute state s =
     (if state = PS_Expression then
        (if \<not> isdigit (peek s) then invalid ''substitute'' ''missing id''
         else (let (v, r) = strtoll s in Inr (TT_Expression (ValueExpression (ucast v)), r)))
      else invalid ''substitute'' ''missing operator'')"

definition parseNextToken :: tokenizer where
  "parseNextToken s0 state = (let s = dropWhile is_space s0; c = peek s; r = tl s in
     if c = CHR 0x00 then Inr (TT_Finish, s)
     else if c = CHR ''('' then Inr (TT_OpenParenthesis, r)
     else if c = CHR '')'' then Inr (TT_CloseParenthesis, r)
     else if c = CHR ''+'' then tok_plus state r
     else if c = CHR ''-'' then tok_minus state r
     else if c = CHR ''='' then tok_equal state r
     else if c = CHR ''!'' then tok_not state r
     else if c = CHR ''/'' then tok_div state r
     else if c = CHR ''*'' then tok_mul state r
     else if c = CHR ''<'' then tok_lower state r
     else if c = CHR ''>'' then tok_greater state r
     else if c = CHR ''&'' then tok_and state r
     else if c = CHR ''|'' then tok_or state r
     else if c = CHR ''^'' then tok_xor state r
     else if isdigit c then tok_number state s
     else if isalpha c \<or> c = CHR ''_'' then tok_name state s
     else if c = CHR 0x5C then tok_substitute state r
     else invalid ''token'' s)"

definition IntEvaluator :: "string \<Rightarrow> expression result" where
  "IntEvaluator expression_str = parseExpression parseNextToken expression_str"

section \<open>Progress and errors of the parser\<close>

definition parse_error :: "exn \<Rightarrow> bool" where
  "parse_error x = (case x of EndOfDataException _ _ \<Rightarrow> True | InvalidFormatException _ _ \<Rightarrow> True | _ \<Rightarrow> False)"

definition arity :: "oper \<Rightarrow> nat" where
  "arity f = (case f of IntUnaryExpression _ \<Rightarrow> 1 | _ \<Rightarrow> 2)"

text \<open>What a run may do: fail with one of the two exceptions or return something good.\<close>

definition safe :: "('a \<Rightarrow> bool) \<Rightarrow> 'a result \<Rightarrow> bool" where
  "safe P r = (case r of Inl x \<Rightarrow> parse_error x | Inr y \<Rightarrow> P y)"

named_theorems tok_defs \<open>the token functions\<close>

lemma safe_simps [simp]: "safe P (Inr y) = P y" "safe P (Inl x) = parse_error x" "safe P (invalid a b)"
  by (simp_all add: safe_def invalid_def parse_error_def)

lemma safe_ebind: "safe P m \<Longrightarrow> (\<And>x. m = Inr x \<Longrightarrow> P x \<Longrightarrow> safe Q (f x)) \<Longrightarrow> safe Q (ebind m f)"
  by (cases m) auto

definition good_token :: "nat \<Rightarrow> token \<times> string \<Rightarrow> bool" where
  "good_token n tr = (case tr of (t, r) \<Rightarrow> (t = TT_Finish \<or> length r < n) \<and>
     (case t of TT_Operator f k p \<Rightarrow> k = arity f \<and> 0 < p | TT_Function f k \<Rightarrow> k = arity f | _ \<Rightarrow> True))"

lemma strto_digits_le: "strto_digits base acc s = (n, r) \<Longrightarrow> length r \<le> length s"
  by (induction base acc s rule: strto_digits.induct) (auto split: if_splits)

lemma strto_number_less: "strto_number s = (n, r) \<Longrightarrow> isdigit (peek s) \<Longrightarrow> length r < length s"
proof -
  assume a: "strto_number s = (n, r)" "isdigit (peek s)"
  then obtain c u where s: "s = c # u" by (cases s) (auto simp: peek_def isdigit_def code_def)
  have "digit_num c < 10" using a(2) s by (simp add: peek_def isdigit_def digit_num_def) linarith
  moreover have "digit_num (CHR ''0'') = 0" by code_simp
  ultimately show ?thesis using a s
    by (auto simp: strto_number_def peek_def split: if_splits dest!: strto_digits_le)
qed

lemma strtoll_less: "strtoll s = (v, r) \<Longrightarrow> isdigit (peek s) \<Longrightarrow> length r < length s"
  using strto_number_less [of s] by (auto simp: strtoll_def isdigit_def code_def Let_def split: prod.splits if_splits)

lemma strtoll_minus_less: "strtoll (CHR ''-'' # s) = (v, r) \<Longrightarrow> isdigit (peek s) \<Longrightarrow> length r < length s"
  using strto_number_less [of s] by (auto simp: strtoll_def peek_def Let_def split: prod.splits)

lemma priority_pos: "0 < priorities ! operation_id f"
  by (cases f) (simp_all add: priorities_def)

lemma good_oper: "k = arity obj \<Longrightarrow> length r < n \<Longrightarrow> good_token n (oper_token obj f k, r)"
  using priority_pos [of f] by (simp add: good_token_def oper_token_def)

lemma good_expr: "length r < n \<Longrightarrow> good_token n (TT_Expression e, r)"
  by (simp add: good_token_def)

lemma full_op_safe: "length s < n \<Longrightarrow> safe (good_token n) (full_op f st w m s)"
  by (auto simp: full_op_def arity_def intro!: good_oper)

lemma part_op_safe: "length s < n \<Longrightarrow> safe (good_token n) (part_op f st w m s)"
  by (auto simp: part_op_def arity_def intro!: good_oper)

lemmas tok_defs1 = tok_plus_def tok_minus_def tok_equal_def tok_not_def tok_div_def tok_mul_def tok_lower_def tok_greater_def
  tok_and_def tok_or_def tok_xor_def

lemma tl_less: "peek s \<noteq> CHR 0x00 \<Longrightarrow> length (tl s) < length s"
  by (cases s) (auto simp: peek_def)

lemma tok_ops_safe:
  assumes "length s < n"
  shows "safe (good_token n) (tok_plus st s)" "safe (good_token n) (tok_minus st s)" "safe (good_token n) (tok_equal st s)"
    "safe (good_token n) (tok_not st s)" "safe (good_token n) (tok_div st s)" "safe (good_token n) (tok_mul st s)"
    "safe (good_token n) (tok_lower st s)" "safe (good_token n) (tok_greater st s)" "safe (good_token n) (tok_and st s)"
    "safe (good_token n) (tok_or st s)" "safe (good_token n) (tok_xor st s)"
  using assms strtoll_less [of s] strtoll_minus_less [of s]
  by (auto simp: tok_defs1 arity_def split: prod.splits intro!: good_oper good_expr full_op_safe part_op_safe)

lemma peek_Cons: "peek s \<noteq> CHR 0x00 \<Longrightarrow> s = peek s # tl s"
  by (cases s) (auto simp: peek_def)

lemma isalpha_nonzero: "isalpha c \<Longrightarrow> c \<noteq> CHR 0x00" and isdigit_nonzero: "isdigit c \<Longrightarrow> c \<noteq> CHR 0x00"
  by (auto simp: isalpha_def isdigit_def code_def)

lemma length_dropWhile_less: "s \<noteq> [] \<Longrightarrow> P (hd s) \<Longrightarrow> length (dropWhile P s) < length s"
  by (cases s) (auto simp: length_dropWhile_le le_imp_less_Suc)

lemma tok_defined_safe: "length s < n \<Longrightarrow> safe (good_token n) (tok_defined s)"
  using length_dropWhile_le [of is_space s] length_dropWhile_le [of isname "tl (dropWhile is_space s)"]
    length_dropWhile_le [of isdigit "tl (dropWhile is_space s)"]
  by (auto simp: tok_defined_def Let_def intro!: good_expr)

lemma tok_atoms_safe:
  "isdigit (peek s) \<Longrightarrow> safe (good_token (length s)) (tok_number st s)"
  "isalpha (peek s) \<or> peek s = CHR ''_'' \<Longrightarrow> safe (good_token (length s)) (tok_name st s)"
  "length s < n \<Longrightarrow> safe (good_token n) (tok_substitute st s)"
proof -
  show "isdigit (peek s) \<Longrightarrow> safe (good_token (length s)) (tok_number st s)"
    using strtoll_less [of s] by (auto simp: tok_number_def split: prod.splits intro!: good_expr)
  show "length s < n \<Longrightarrow> safe (good_token n) (tok_substitute st s)"
    using strtoll_less [of s] by (auto simp: tok_substitute_def split: prod.splits intro!: good_expr)
  assume a: "isalpha (peek s) \<or> peek s = CHR ''_''"
  then have "s \<noteq> []" "isname (hd s)" by (cases s; auto simp: peek_def isname_def dest: isalpha_nonzero)+
  then have "length (dropWhile isname s) < length s" by (rule length_dropWhile_less)
  then show "safe (good_token (length s)) (tok_name st s)"
    by (auto simp: tok_name_def Let_def intro!: good_expr tok_defined_safe)
qed

lemma good_token_mono: "good_token m t \<Longrightarrow> m \<le> n \<Longrightarrow> good_token n t"
  by (auto simp: good_token_def)

lemma safe_mono: "safe P r \<Longrightarrow> (\<And>x. P x \<Longrightarrow> Q x) \<Longrightarrow> safe Q r"
  by (cases r) auto

lemma parseNextToken_safe: "safe (good_token (length s0)) (parseNextToken s0 st)"
proof -
  define s where "s = dropWhile is_space s0"
  have le: "length s \<le> length s0" by (simp add: s_def length_dropWhile_le)
  have "safe (good_token (length s)) (parseNextToken s0 st)"
  proof (cases "peek s = CHR 0x00")
    case True
    then show ?thesis by (simp add: parseNextToken_def s_def [symmetric] Let_def good_token_def)
  next
    case False
    then have l: "length (tl s) < length s" by (rule tl_less)
    note t = tok_ops_safe [OF l] tok_atoms_safe(1,2) [of s] tok_atoms_safe(3) [OF l]
    show ?thesis using False l unfolding parseNextToken_def s_def [symmetric] Let_def
      by (auto simp: t good_token_def)
  qed
  then show ?thesis using le good_token_mono by (blast intro: safe_mono)
qed

text \<open>Every element of the stack has the arity of its operator.\<close>

definition good_stack :: "parse_element list \<Rightarrow> bool" where
  "good_stack st = (\<forall>x\<in>set st. case x of PE_Operation f p n \<Rightarrow> n = arity f | PE_Function f n \<Rightarrow> n = arity f | PE_OpenParenthesis \<Rightarrow> True)"

lemma setOperands_ok: "length xs = arity f \<Longrightarrow> \<exists>e. setOperands f xs = Inr e"
  by (cases "(f, xs)" rule: setOperands.cases) (auto simp: arity_def split: oper.splits)

lemma reduce_safe: "n = arity f \<Longrightarrow> safe (\<lambda>_. True) (reduce f n msg operands)"
proof (cases "n > length operands")
  case False
  assume "n = arity f"
  then obtain e where "setOperands f (drop (length operands - n) operands) = Inr e"
    using setOperands_ok [of "drop (length operands - n) operands" f] False by auto
  then show ?thesis using False by (simp add: reduce_def)
qed (simp add: reduce_def)

lemma parse_finish_safe: "good_stack st \<Longrightarrow> safe (\<lambda>_. True) (parse_finish st operands)"
  by (induction st operands rule: parse_finish.induct)
    (auto simp: good_stack_def intro!: safe_ebind [OF reduce_safe])

lemma parse_close_safe: "good_stack st \<Longrightarrow> safe (\<lambda>ps. good_stack (fst ps)) (parse_close st operands)"
  by (induction st operands rule: parse_close.induct)
    (auto simp: good_stack_def intro!: safe_ebind [OF reduce_safe])

lemma parse_operator_safe:
  "good_stack (fst ps) \<Longrightarrow> n = arity f \<Longrightarrow> safe (\<lambda>ps. good_stack (fst ps)) (parse_operator f n prio ps)"
  by (cases ps)
    (auto simp: parse_operator_def good_stack_def Let_def split: list.splits parse_element.splits
      intro!: safe_ebind [OF reduce_safe])

text \<open>A tokenizer that makes progress cannot keep the parser going.\<close>

lemma parse_loop_safe:
  assumes "\<And>s st. safe (good_token (length s)) (tok s st)"
  shows "length s < fuel \<Longrightarrow> good_stack (fst ps) \<Longrightarrow> safe (\<lambda>_. True) (parse_loop tok fuel s state ps)"
proof (induction fuel arbitrary: s state ps)
  case (Suc fuel)
  show ?case unfolding parse_loop.simps
  proof (rule safe_ebind [OF assms])
    fix x assume "good_token (length s) x"
    then obtain t r where x: "x = (t, r)" "t = TT_Finish \<or> length r < length s"
      "case t of TT_Operator f k p \<Rightarrow> k = arity f \<and> 0 < p | TT_Function f k \<Rightarrow> k = arity f | _ \<Rightarrow> True"
      by (auto simp: good_token_def)
    have len: "t \<noteq> TT_Finish \<Longrightarrow> length r < fuel" using x(2) Suc.prems(1) by auto
    note IH = Suc.IH [OF len]
    show "safe (\<lambda>_. True) (case x of (t, s) \<Rightarrow> case t of TT_Finish \<Rightarrow> parse_finish (fst ps) (snd ps)
       | TT_Expression e \<Rightarrow> parse_loop tok fuel s PS_BinOperator (fst ps, snd ps @ [e])
       | TT_Operator f n prio \<Rightarrow> ebind (parse_operator f n prio ps) (parse_loop tok fuel s PS_Expression)
       | TT_OpenParenthesis \<Rightarrow> parse_loop tok fuel s PS_Expression (PE_OpenParenthesis # fst ps, snd ps)
       | TT_CloseParenthesis \<Rightarrow> ebind (parse_close (fst ps) (snd ps)) (parse_loop tok fuel s PS_BinOperator)
       | TT_Function f n \<Rightarrow> parse_loop tok fuel s PS_Expression (PE_Function f n # fst ps, snd ps))"
      using x(1,3) Suc.prems(2)
      by (cases t) (auto simp: good_stack_def [of "_ # _"] good_stack_def [of "fst ps", symmetric]
          intro!: IH parse_finish_safe safe_ebind [OF parse_close_safe] safe_ebind [OF parse_operator_safe])
  qed
qed simp

lemma parse_first_safe: "good_token n (t, r) \<Longrightarrow> safe (\<lambda>(st, ps). good_stack (fst ps)) (parse_first t)"
  by (cases t) (auto simp: parse_first_def good_token_def good_stack_def parse_error_def)

lemma parseExpression_safe:
  assumes "\<And>s st. safe (good_token (length s)) (tok s st)"
  shows "safe (\<lambda>_. True) (parseExpression tok s)"
  unfolding parseExpression_def
proof (rule safe_ebind [OF assms], clarify)
  fix t r assume g: "good_token (length s) (t, r)"
  show "safe (\<lambda>_. True) (ebind (parse_first t) (\<lambda>(state, ps). parse_loop tok (Suc (length s)) r state ps))"
  proof (cases "t = TT_Finish")
    case True
    then show ?thesis by (simp add: parse_first_def parse_error_def)
  next
    case False
    then have "length r < Suc (length s)" using g by (auto simp: good_token_def)
    then show ?thesis by (intro safe_ebind [OF parse_first_safe [OF g]]) (auto intro!: parse_loop_safe assms simp del: parse_loop.simps)
  qed
qed

section \<open>Printing and parsing back\<close>

fun op_text :: "operators \<Rightarrow> string" where
  "op_text OP_UnPlus = ''+''" | "op_text OP_UnMinus = ''-''" | "op_text OP_UnNot = ''!''"
| "op_text OP_BinPlus = ''+''" | "op_text OP_BinMinus = ''-''" | "op_text OP_BinMul = ''*''"
| "op_text OP_BinDiv = ''/''" | "op_text OP_BinEqual = ''==''" | "op_text OP_BinNonEq = ''!=''"
| "op_text OP_BinLower = ''<''" | "op_text OP_BinGreater = ''>''" | "op_text OP_BinLowerEq = ''<=''"
| "op_text OP_BinGreaterEq = ''>=''" | "op_text OP_BinLShift = ''<<''" | "op_text OP_BinRShift = ''>>''"
| "op_text OP_BinByteSwap = ''>><<''" | "op_text OP_BinBitAnd = ''&''" | "op_text OP_BinBitOr = ''|''"
| "op_text OP_BinBitXor = ''^''" | "op_text OP_BinAnd = ''&&''" | "op_text OP_BinOr = ''||''"
| "op_text OP_BinXor = ''^^''" | "op_text _ = ''?''"

definition unary_ops :: "operators set" where
  "unary_ops = {OP_UnPlus, OP_UnMinus, OP_UnNot}"

definition full_ops :: "operators set" where
  "full_ops = {OP_BinPlus, OP_BinMinus, OP_BinMul, OP_BinDiv, OP_BinEqual, OP_BinNonEq, OP_BinLower, OP_BinGreater,
     OP_BinLowerEq, OP_BinGreaterEq, OP_BinLShift, OP_BinRShift, OP_BinByteSwap, OP_BinBitAnd, OP_BinBitOr, OP_BinBitXor, OP_BinXor}"

definition var_name :: "string \<Rightarrow> bool" where
  "var_name nm \<longleftrightarrow> nm \<noteq> [] \<and> (isalpha (hd nm) \<or> hd nm = CHR ''_'') \<and> (\<forall>c\<in>set nm. isname c)"

fun printable :: "expression \<Rightarrow> bool" where
  "printable (DirectExpression v) = True"
| "printable (VariableExpression nm) = (var_name nm \<and> nm \<noteq> ''defined'')"
| "printable (DefinedVariableExpression nm) = var_name nm"
| "printable (ValueExpression i) = True"
| "printable (DefinedValueExpression i) = True"
| "printable (UnaryNode f a) = (f \<in> unary_ops \<and> printable a)"
| "printable (FullNode f a b) = (f \<in> full_ops \<and> printable a \<and> printable b)"
| "printable (PartNode f a b) = (f \<in> {OP_BinAnd, OP_BinOr} \<and> printable a \<and> printable b)"

fun print :: "expression \<Rightarrow> string" where
  "print (DirectExpression v) = createNumber (sint v)"
| "print (VariableExpression nm) = nm"
| "print (DefinedVariableExpression nm) = ''defined '' @ nm"
| "print (ValueExpression i) = CHR 0x5C # decimal (unat i)"
| "print (DefinedValueExpression i) = ''defined '' @ CHR 0x5C # decimal (unat i)"
| "print (UnaryNode f a) = ''('' @ op_text f @ '' '' @ print a @ '')''"
| "print (FullNode f a b) = ''('' @ print a @ '' '' @ op_text f @ '' '' @ print b @ '')''"
| "print (PartNode f a b) = ''('' @ print a @ '' '' @ op_text f @ '' '' @ print b @ '')''"

fun ntok :: "expression \<Rightarrow> nat" where
  "ntok (UnaryNode f a) = 3 + ntok a"
| "ntok (FullNode f a b) = 3 + ntok a + ntok b"
| "ntok (PartNode f a b) = 3 + ntok a + ntok b"
| "ntok _ = 1"

definition delim :: "string \<Rightarrow> bool" where
  "delim s \<longleftrightarrow> s = [] \<or> hd s = CHR '' '' \<or> hd s = CHR '')''"

lemma delim_peek: "delim s \<Longrightarrow> \<not> isname (peek s) \<and> \<not> isdigit (peek s) \<and> \<not> digit_num (peek s) < 16 \<and> peek s \<notin> {CHR ''x'', CHR ''X''}"
  by (cases s) (auto simp: delim_def peek_def isname_def isalpha_def isdigit_def digit_num_def code_def)

lemma delim_span: "delim s \<Longrightarrow> (\<And>c. P c \<Longrightarrow> isname c) \<Longrightarrow> dropWhile P s = s \<and> takeWhile P s = []"
  using delim_peek [of s] by (cases s) (auto simp: peek_def)

subsection \<open>Numbers\<close>

lemma digit_char_num: "d < 10 \<Longrightarrow> digit_num (char_of (48 + d)) = d \<and> isdigit (char_of (48 + d))"
  by (simp add: digit_num_def isdigit_def code_def)

lemma strto_digits_stop: "delim s \<Longrightarrow> base \<le> 16 \<Longrightarrow> strto_digits base acc s = (acc, s)"
  using delim_peek [of s] by (cases s) (auto simp: peek_def)

lemma strto_digits_decimal:
  "strto_digits 10 0 (decimal n @ s) = strto_digits 10 n s"
proof (induction n arbitrary: s rule: decimal.induct)
  case (1 n)
  have d: "digit_num (char_of (48 + n mod 10)) = n mod 10" using digit_char_num [of "n mod 10"] by simp
  show ?case
  proof (cases "n < 10")
    case True
    then show ?thesis using d by (subst decimal.simps) simp
  next
    case False
    have "n div 10 * 10 + n mod 10 = n" by simp
    then show ?thesis using False d 1 [OF False, of "char_of (48 + n mod 10) # s"] by (subst decimal.simps) simp
  qed
qed

lemma decimal_digits: "c \<in> set (decimal n) \<Longrightarrow> isdigit c"
proof (induction n rule: decimal.induct)
  case (1 n)
  then show ?case using digit_char_num [of "n mod 10"] by (subst (asm) (2) decimal.simps) (auto split: if_splits)
qed

lemma decimal_hd: "decimal n \<noteq> [] \<and> (n \<noteq> 0 \<longrightarrow> hd (decimal n) \<noteq> CHR ''0'')"
proof (induction n rule: decimal.induct)
  case (1 n)
  show ?case
  proof (cases "n < 10")
    case True
    then have "decimal n = [char_of (48 + n)]" by (subst decimal.simps) simp
    moreover have "digit_num (char_of (48 + n)) = n" using True digit_char_num by simp
    moreover have "digit_num CHR ''0'' = 0" by code_simp
    ultimately show ?thesis by auto
  next
    case False
    then have "decimal n = decimal (n div 10) @ [char_of (48 + n mod 10)]" by (subst decimal.simps) simp
    then show ?thesis using 1 False by simp
  qed
qed

lemma decimal_0: "decimal 0 = ''0''"
  by code_simp

lemma strto_number_decimal: "delim s \<Longrightarrow> strto_number (decimal n @ s) = (n, s)"
proof (cases "n = 0")
  case True
  assume "delim s"
  moreover have "decimal n = ''0''" using True decimal_0 by simp
  moreover have "digit_num CHR ''0'' = 0" by code_simp
  ultimately show ?thesis using True delim_peek [of s] strto_digits_stop [of s 8 0]
    by (simp add: strto_number_def peek_def [of "CHR ''0'' # s"])
next
  case False
  assume "delim s"
  then show ?thesis using False decimal_hd [of n] strto_digits_decimal [of n s] strto_digits_stop [of s 10 n]
    by (cases "decimal n") (auto simp: strto_number_def peek_def)
qed

lemma peek_decimal: "isdigit (peek (decimal n @ s))"
  using decimal_hd [of n] decimal_digits [of _ n] by (cases "decimal n") (auto simp: peek_def)

lemma clamp_sint: "clamp64 (sint v) = v"
proof -
  have "- (2 ^ 63) \<le> sint v" "sint v < 2 ^ 63" using sint_greater_eq [of v] sint_less [of v] by simp_all
  then have "max (- (2 ^ 63)) (min (2 ^ 63 - 1) (sint v)) = sint v" by linarith
  then show ?thesis by (simp add: clamp64_def)
qed

lemma strtoll_decimal: "delim s \<Longrightarrow> strtoll (decimal n @ s) = (clamp64 (int n), s)"
  using peek_decimal [of n s] strto_number_decimal [of s n] by (auto simp: strtoll_def isdigit_def code_def)

lemma strtoll_minus: "delim s \<Longrightarrow> strtoll (CHR ''-'' # decimal n @ s) = (clamp64 (- int n), s)"
  using strto_number_decimal [of s n] by (simp add: strtoll_def peek_def)

subsection \<open>Tokens\<close>

lemma space_skip [simp]: "parseNextToken (CHR '' '' # s) st = parseNextToken s st"
  by (simp add: parseNextToken_def is_space_def code_def)

lemma not_space: "isname c \<Longrightarrow> \<not> is_space c" "isdigit c \<Longrightarrow> \<not> is_space c"
  by (auto simp: isname_def isalpha_def isdigit_def is_space_def code_def)

definition punct :: "char list" where
  "punct = ''()+-=!/*<>&|^''"

lemma name_not_punct: "isalpha c \<or> c = CHR ''_'' \<or> isdigit c \<Longrightarrow> c \<notin> set punct \<and> c \<noteq> CHR 0x00 \<and> \<not> is_space c"
  by (auto simp: punct_def isalpha_def isdigit_def is_space_def code_def)

lemma alpha_not_digit: "isalpha c \<or> c = CHR ''_'' \<Longrightarrow> \<not> isdigit c"
  by (auto simp: isalpha_def isdigit_def code_def)

lemma full_token:
  assumes "f \<in> full_ops"
  shows "parseNextToken (op_text f @ CHR '' '' # r) PS_BinOperator = Inr (oper_token (IntBinaryFullExpression f) f 2, CHR '' '' # r)"
  using assms unfolding full_ops_def parseNextToken_def
  by (auto simp: peek_def is_space_def code_def full_op_def tok_defs1)

lemma part_token:
  assumes "f \<in> {OP_BinAnd, OP_BinOr}"
  shows "parseNextToken (op_text f @ CHR '' '' # r) PS_BinOperator = Inr (oper_token (IntBinaryPartExpression f) f 2, CHR '' '' # r)"
  using assms unfolding parseNextToken_def
  by (auto simp: peek_def is_space_def code_def part_op_def tok_defs1)

lemma unary_token:
  assumes "f \<in> unary_ops"
  shows "parseNextToken (op_text f @ CHR '' '' # r) PS_Expression = Inr (oper_token (IntUnaryExpression f) f 1, CHR '' '' # r)"
  using assms unfolding unary_ops_def parseNextToken_def
  by (auto simp: peek_def is_space_def code_def isdigit_def tok_defs1)

lemma open_token: "parseNextToken (CHR ''('' # r) st = Inr (TT_OpenParenthesis, r)"
  and close_token: "parseNextToken (CHR '')'' # r) st = Inr (TT_CloseParenthesis, r)"
  and end_token: "parseNextToken [] st = Inr (TT_Finish, [])"
  by (simp_all add: parseNextToken_def peek_def is_space_def code_def)

lemma number_token:
  assumes "delim s"
  shows "parseNextToken (createNumber (sint v) @ s) PS_Expression = Inr (TT_Expression (DirectExpression v), s)"
proof (cases "sint v < 0")
  case True
  have "parseNextToken (createNumber (sint v) @ s) PS_Expression = tok_minus PS_Expression (decimal (nat (- sint v)) @ s)"
    using True by (simp add: createNumber_def parseNextToken_def peek_def is_space_def code_def)
  also have "\<dots> = Inr (TT_Expression (DirectExpression v), s)"
    using True peek_decimal strtoll_minus [OF assms, of "nat (- sint v)"] clamp_sint [of v] by (simp add: tok_minus_def)
  finally show ?thesis .
next
  case False
  let ?d = "decimal (nat (sint v)) @ s"
  have p: "isdigit (peek ?d)" by (rule peek_decimal)
  then obtain c u where d: "?d = c # u" "isdigit c" by (cases ?d) (auto simp: peek_def isdigit_def code_def)
  have "dropWhile is_space ?d = ?d" using d not_space by simp
  then have "parseNextToken ?d PS_Expression = tok_number PS_Expression ?d"
    using d name_not_punct [of c] by (simp add: parseNextToken_def peek_def punct_def Let_def)
  also have "\<dots> = Inr (TT_Expression (DirectExpression v), s)"
    using False strtoll_decimal [OF assms, of "nat (sint v)"] clamp_sint [of v] by (simp add: tok_number_def)
  finally show ?thesis using False by (simp add: createNumber_def)
qed

lemma name_start:
  assumes "isalpha c \<or> c = CHR ''_''"
  shows "parseNextToken (c # u) PS_Expression = tok_name PS_Expression (c # u)"
  using name_not_punct [of c] alpha_not_digit [of c] assms by (auto simp: parseNextToken_def peek_def punct_def Let_def)

lemma name_span:
  assumes "\<forall>c\<in>set nm. isname c" "delim s"
  shows "takeWhile isname (nm @ s) = nm" "dropWhile isname (nm @ s) = s"
  using assms delim_span [of s isname] by (simp_all add: takeWhile_append2 dropWhile_append2)

lemma variable_token:
  assumes "var_name nm" "nm \<noteq> ''defined''" "delim s"
  shows "parseNextToken (nm @ s) PS_Expression = Inr (TT_Expression (VariableExpression nm), s)"
proof -
  obtain c u where nm: "nm = c # u" using assms(1) by (cases nm) (auto simp: var_name_def)
  then have "isalpha c \<or> c = CHR ''_''" using assms(1) by (simp add: var_name_def)
  then have "parseNextToken (nm @ s) PS_Expression = tok_name PS_Expression (nm @ s)" using name_start nm by simp
  then show ?thesis using assms name_span [of nm s] by (simp add: tok_name_def var_name_def)
qed

lemma defined_start: "parseNextToken (''defined '' @ r) PS_Expression = tok_defined (CHR '' '' # r)"
proof -
  have n: "\<forall>c\<in>set ''defined''. isname c" "isalpha CHR ''d''" by code_simp+
  have "parseNextToken (''defined '' @ r) PS_Expression = tok_name PS_Expression (''defined'' @ CHR '' '' # r)"
    using name_start [of "CHR ''d''"] n(2) by simp
  then show ?thesis using name_span [OF n(1), of "CHR '' '' # r"] by (simp add: tok_name_def delim_def)
qed

lemma defined_variable_token:
  assumes "var_name nm" "delim s"
  shows "parseNextToken (''defined '' @ nm @ s) PS_Expression = Inr (TT_Expression (DefinedVariableExpression nm), s)"
proof -
  obtain c u where nm: "nm = c # u" using assms(1) by (cases nm) (auto simp: var_name_def)
  then have c: "isalpha c \<or> c = CHR ''_''" "\<forall>d\<in>set u. isname d" using assms(1) by (simp_all add: var_name_def)
  have "tok_defined (CHR '' '' # nm @ s) = Inr (TT_Expression (DefinedVariableExpression nm), s)"
    using c nm name_span [OF c(2) assms(2)] name_not_punct [of c]
    by (auto simp: tok_defined_def peek_def is_space_def [of "CHR '' ''"] code_def [of "CHR '' ''"])
  then show ?thesis using defined_start by simp
qed

lemma value_token:
  assumes "delim s"
  shows "parseNextToken (CHR 0x5C # decimal (unat i) @ s) PS_Expression = Inr (TT_Expression (ValueExpression i), s)"
    "parseNextToken (''defined '' @ CHR 0x5C # decimal (unat i) @ s) PS_Expression = Inr (TT_Expression (DefinedValueExpression i), s)"
proof -
  let ?d = "decimal (unat i) @ s"
  have "uint i < 2 ^ 32" using unsigned_less [of i] by simp
  then have "uint i \<le> 2 ^ 63 - 1" "- (2 ^ 63) \<le> uint i" using order_trans [of "- (2 ^ 63)" 0 "uint i"] by simp_all
  then have "max (- (2 ^ 63)) (min (2 ^ 63 - 1) (uint i)) = uint i" by (simp only: min_absorb2 max_absorb2)
  then have "ucast (clamp64 (int (unat i))) = (i :: u32)"
    using ucast_up_ucast_id [where 'b = 64, of i] by (simp add: clamp64_def is_up flip: ucast_eq)
  moreover note strtoll_decimal [OF assms, of "unat i"]
  ultimately have v: "strtoll ?d = (clamp64 (int (unat i)), s)" "ucast (clamp64 (int (unat i))) = i" by simp_all
  show "parseNextToken (CHR 0x5C # ?d) PS_Expression = Inr (TT_Expression (ValueExpression i), s)"
    using v peek_decimal by (simp add: parseNextToken_def peek_def [of "CHR 0x5C # _"] is_space_def isdigit_def [of "CHR 0x5C"]
        isalpha_def code_def tok_substitute_def)
  have sp: "\<forall>c\<in>set (decimal (unat i)). isdigit c" using decimal_digits by blast
  have "dropWhile isdigit ?d = s" "takeWhile isdigit ?d = decimal (unat i)"
    using sp delim_span [OF assms, of isdigit] by (simp_all add: takeWhile_append2 dropWhile_append2 isname_def)
  then show "parseNextToken (''defined '' @ CHR 0x5C # ?d) PS_Expression = Inr (TT_Expression (DefinedValueExpression i), s)"
    using v decimal_hd [of "unat i"] unfolding defined_start
    by (simp add: tok_defined_def peek_def is_space_def isalpha_def code_def)
qed

subsection \<open>Whole expressions\<close>

lemma loop_expr: "tok s st = Inr (TT_Expression e, r) \<Longrightarrow>
    parse_loop tok (Suc k) s st (stk, ops) = parse_loop tok k r PS_BinOperator (stk, ops @ [e])"
  and loop_open: "tok s st = Inr (TT_OpenParenthesis, r) \<Longrightarrow>
    parse_loop tok (Suc k) s st (stk, ops) = parse_loop tok k r PS_Expression (PE_OpenParenthesis # stk, ops)"
  and loop_oper: "tok s st = Inr (oper_token obj f n, r) \<Longrightarrow> (case stk of PE_Operation _ _ _ # _ \<Rightarrow> False | _ \<Rightarrow> True) \<Longrightarrow>
    parse_loop tok (Suc k) s st (stk, ops) =
      parse_loop tok k r PS_Expression (PE_Operation obj (priorities ! operation_id f) n # stk, ops)"
  by (auto simp: oper_token_def parse_operator_def split: list.splits parse_element.splits)

lemma loop_close_op:
  assumes "tok s st = Inr (TT_CloseParenthesis, r)" "setOperands obj xs = Inr e" "length xs = n"
  shows "parse_loop tok (Suc k) s st (PE_Operation obj p n # PE_OpenParenthesis # stk, ops @ xs) =
    parse_loop tok k r PS_BinOperator (stk, ops @ [e])"
  using assms by (simp add: reduce_def)

declare parse_loop.simps [simp del]

lemmas int_expr = loop_expr [of parseNextToken]
lemmas int_open = loop_open [of parseNextToken, OF open_token]
lemmas int_oper = loop_oper [of parseNextToken]
lemmas int_close = loop_close_op [of parseNextToken, OF close_token]

lemma space_loop [simp]: "parse_loop parseNextToken k (CHR '' '' # s) st ps = parse_loop parseNextToken k s st ps"
  by (cases k) (simp_all add: parse_loop.simps)

lemma parse_binary:
  assumes tok: "\<And>r. parseNextToken (op_text f @ CHR '' '' # r) PS_BinOperator = Inr (oper_token obj f 2, CHR '' '' # r)"
    and a: "\<And>s k stk ops. delim s \<Longrightarrow> parse_loop parseNextToken (ntok a + k) (print a @ s) PS_Expression (stk, ops) =
      parse_loop parseNextToken k s PS_BinOperator (stk, ops @ [a])"
    and b: "\<And>s k stk ops. delim s \<Longrightarrow> parse_loop parseNextToken (ntok b + k) (print b @ s) PS_Expression (stk, ops) =
      parse_loop parseNextToken k s PS_BinOperator (stk, ops @ [b])"
    and e: "setOperands obj [a, b] = Inr e"
  shows "parse_loop parseNextToken (3 + ntok a + ntok b + k) ((''('' @ print a @ '' '' @ op_text f @ '' '' @ print b @ '')'') @ s)
      PS_Expression (stk, ops) = parse_loop parseNextToken k s PS_BinOperator (stk, ops @ [e])"
proof -
  let ?r = "CHR '' '' # print b @ CHR '')'' # s" and ?p = "priorities ! operation_id f"
  have "parse_loop parseNextToken (3 + ntok a + ntok b + k) ((''('' @ print a @ '' '' @ op_text f @ '' '' @ print b @ '')'') @ s)
      PS_Expression (stk, ops) =
      parse_loop parseNextToken (ntok a + Suc (ntok b + Suc k)) (print a @ CHR '' '' # op_text f @ ?r) PS_Expression (PE_OpenParenthesis # stk, ops)"
    using int_open [of "Suc (Suc (ntok a + ntok b + k))"] by (simp add: numeral_3_eq_3 add.assoc)
  also have "\<dots> = parse_loop parseNextToken (Suc (ntok b + Suc k)) (op_text f @ ?r) PS_BinOperator (PE_OpenParenthesis # stk, ops @ [a])"
    by (subst a) (simp_all add: delim_def)
  also have "\<dots> = parse_loop parseNextToken (ntok b + Suc k) (print b @ CHR '')'' # s) PS_Expression
      (PE_Operation obj ?p 2 # PE_OpenParenthesis # stk, ops @ [a])"
    by (subst int_oper [OF tok]) simp_all
  also have "\<dots> = parse_loop parseNextToken (Suc k) (CHR '')'' # s) PS_BinOperator
      (PE_Operation obj ?p 2 # PE_OpenParenthesis # stk, ops @ [a, b])"
    by (subst b) (simp_all add: delim_def)
  also have "\<dots> = parse_loop parseNextToken k s PS_BinOperator (stk, ops @ [e])"
    using e by (intro int_close) simp_all
  finally show ?thesis .
qed

text \<open>Reading the text of an expression pushes the expression and leaves the stack as it was.\<close>

lemma parse_print:
  "printable e \<Longrightarrow> delim s \<Longrightarrow>
   parse_loop parseNextToken (ntok e + k) (print e @ s) PS_Expression (stk, ops) = parse_loop parseNextToken k s PS_BinOperator (stk, ops @ [e])"
proof (induction e arbitrary: s k stk ops)
  case (DirectExpression v)
  then show ?case by (simp add: int_expr [OF number_token])
next
  case (VariableExpression nm)
  then show ?case by (simp add: int_expr [OF variable_token])
next
  case (DefinedVariableExpression nm)
  then show ?case using int_expr [OF defined_variable_token, of nm s k stk ops] by simp
next
  case (ValueExpression i)
  then show ?case using int_expr [OF value_token(1) [of s i], of k stk ops] by simp
next
  case (DefinedValueExpression i)
  then show ?case using int_expr [OF value_token(2) [of s i], of k stk ops] by simp
next
  case (UnaryNode f a)
  let ?p = "priorities ! operation_id f"
  have "parse_loop parseNextToken (ntok (UnaryNode f a) + k) (print (UnaryNode f a) @ s) PS_Expression (stk, ops) =
      parse_loop parseNextToken (Suc (ntok a + Suc k)) (op_text f @ CHR '' '' # print a @ CHR '')'' # s) PS_Expression (PE_OpenParenthesis # stk, ops)"
    using int_open [of "Suc (Suc (ntok a + k))"] by (simp add: numeral_3_eq_3)
  also have "\<dots> = parse_loop parseNextToken (ntok a + Suc k) (print a @ CHR '')'' # s) PS_Expression
      (PE_Operation (IntUnaryExpression f) ?p 1 # PE_OpenParenthesis # stk, ops)"
    using UnaryNode.prems by (subst int_oper [OF unary_token]) simp_all
  also have "\<dots> = parse_loop parseNextToken (Suc k) (CHR '')'' # s) PS_BinOperator
      (PE_Operation (IntUnaryExpression f) ?p 1 # PE_OpenParenthesis # stk, ops @ [a])"
    using UnaryNode.prems by (intro UnaryNode.IH) (simp_all add: delim_def)
  also have "\<dots> = parse_loop parseNextToken k s PS_BinOperator (stk, ops @ [UnaryNode f a])"
    by (rule int_close) simp_all
  finally show ?case .
next
  case (FullNode f a b)
  then show ?case unfolding ntok.simps print.simps
    by (intro parse_binary [where obj = "IntBinaryFullExpression f"] full_token) simp_all
next
  case (PartNode f a b)
  then show ?case unfolding ntok.simps print.simps
    by (intro parse_binary [where obj = "IntBinaryPartExpression f"] part_token) simp_all
qed

lemma ntok_le: "printable e \<Longrightarrow> ntok e \<le> length (print e) \<and> 0 < ntok e"
proof (induction e)
  case (DirectExpression v)
  then show ?case using decimal_hd by (auto simp: createNumber_def Suc_le_eq)
next
  case (FullNode f a b)
  then show ?case by auto
qed (auto simp: var_name_def Suc_le_eq)

lemma first_as_loop:
  assumes "tok s PS_Expression = Inr (t, r)" "t \<noteq> TT_Finish" "t \<noteq> TT_CloseParenthesis" "\<And>f n p. t = TT_Operator f n p \<Longrightarrow> 0 < p"
  shows "parseExpression tok s = parse_loop tok (Suc (Suc (length s))) s PS_Expression ([], [])"
  using assms by (cases t) (auto simp: parseExpression_def parse_first_def parse_loop.simps(2) [of tok "Suc (length s)"] parse_operator_def)

lemma print_token:
  assumes "printable e" "delim s"
  shows "\<exists>t r. parseNextToken (print e @ s) PS_Expression = Inr (t, r) \<and> (t = TT_Expression e \<or> t = TT_OpenParenthesis)"
  using assms by (cases e) (auto simp: number_token variable_token open_token value_token defined_variable_token [simplified]
      value_token(2) [simplified])

text \<open>The text of an expression, followed by a text \<open>s\<close>.\<close>

lemma parse_print_top:
  assumes "printable e" "delim s"
  shows "IntEvaluator (print e @ s) = parse_loop parseNextToken (Suc (Suc (length (print e @ s))) - ntok e) s PS_BinOperator ([], [e])"
proof -
  obtain t r where t: "parseNextToken (print e @ s) PS_Expression = Inr (t, r)" "t = TT_Expression e \<or> t = TT_OpenParenthesis"
    using print_token [OF assms] by blast
  have n: "Suc (Suc (length (print e @ s))) = ntok e + (Suc (Suc (length (print e @ s))) - ntok e)"
    using ntok_le [OF assms(1)] by simp
  have "IntEvaluator (print e @ s) = parse_loop parseNextToken (Suc (Suc (length (print e @ s)))) (print e @ s) PS_Expression ([], [])"
    unfolding IntEvaluator_def by (rule first_as_loop [of parseNextToken, OF t(1)]) (use t(2) in auto)
  also have "\<dots> = parse_loop parseNextToken (Suc (Suc (length (print e @ s))) - ntok e) s PS_BinOperator ([], [] @ [e])"
    by (subst n) (rule parse_print [OF assms])
  finally show ?thesis by simp
qed

lemma loop_end: "0 < k \<Longrightarrow> parse_loop parseNextToken k [] st ([], [e]) = Inr e"
  by (cases k) (simp_all add: parse_loop.simps end_token)

lemma IntEvaluator_print: "printable e \<Longrightarrow> IntEvaluator (print e) = Inr e"
  using parse_print_top [of e "[]"] ntok_le [of e] loop_end by (simp add: delim_def)


lemma loop_close_end: "1 < k \<Longrightarrow> parse_loop parseNextToken k '')'' st ([], [e]) = Inr e"
  by (cases k) (simp_all add: parse_loop.simps close_token loop_end)

section \<open>Byte reversal\<close>

text \<open>Each step of the 64-bit reversal exchanges groups of 8, 16 and 32 bits.\<close>

lemma upto_64: "n < (64 :: nat) \<longleftrightarrow> n \<in> set [0..<64]"
  by simp

lemma swap_8:
  assumes "n < 64"
  shows "bit ((shr l 8 AND 0x00ff00ff00ff00ff) OR (push_bit 8 l AND 0xff00ff00ff00ff00)) n = bit l (if n div 8 mod 2 = 0 then n + 8 else n - 8)"
  using assms unfolding shr_def upto_64
  by (simp add: upt_rec) (elim disjE; simp add: bit_signed_drop_bit_iff bit_push_bit_iff bit_and_iff bit_or_iff)

lemma swap_16:
  assumes "n < 64"
  shows "bit ((shr l 16 AND 0x0000ffff0000ffff) OR (push_bit 16 l AND 0xffff0000ffff0000)) n = bit l (if n div 16 mod 2 = 0 then n + 16 else n - 16)"
  using assms unfolding shr_def upto_64
  by (simp add: upt_rec) (elim disjE; simp add: bit_signed_drop_bit_iff bit_push_bit_iff bit_and_iff bit_or_iff)

lemma swap_32:
  assumes "n < 64"
  shows "bit ((shr l 32 AND 0x00000000ffffffff) OR (push_bit 32 l AND 0xffffffff00000000)) n = bit l (if n div 32 mod 2 = 0 then n + 32 else n - 32)"
  using assms unfolding shr_def upto_64
  by (simp add: upt_rec) (elim disjE; simp add: bit_signed_drop_bit_iff bit_push_bit_iff bit_and_iff bit_or_iff)

lemma swap_index:
  fixes n :: nat
  assumes "n < 64"
  shows "let a = (if n div 32 mod 2 = 0 then n + 32 else n - 32); b = (if a div 16 mod 2 = 0 then a + 16 else a - 16) in
    a < 64 \<and> b < 64 \<and> (if b div 8 mod 2 = 0 then b + 8 else b - 8) = 8 * (7 - n div 8) + n mod 8"
proof -
  have "\<forall>n\<in>set [0..<64]. let a = (if n div 32 mod 2 = 0 then n + 32 else n - 32); b = (if a div 16 mod 2 = 0 then a + 16 else a - 16) in
    a < 64 \<and> b < 64 \<and> (if b div 8 mod 2 = 0 then b + 8 else b - 8) = 8 * (7 - n div 8) + (n :: nat) mod 8"
    by code_simp
  then show ?thesis using assms by (simp add: upto_64 del: set_upt)
qed

lemma byteSwap_64: "\<exists>w. byteSwap l 64 = Inr w \<and> (\<forall>n<64. bit w n = bit l (8 * (7 - n div 8) + n mod 8))"
proof -
  let ?a = "(shr l 8 AND 0x00ff00ff00ff00ff) OR (push_bit 8 l AND 0xff00ff00ff00ff00)"
  let ?b = "(shr ?a 16 AND 0x0000ffff0000ffff) OR (push_bit 16 ?a AND 0xffff0000ffff0000)"
  let ?c = "(shr ?b 32 AND 0x00000000ffffffff) OR (push_bit 32 ?b AND 0xffffffff00000000)"
  have "byteSwap l 64 = Inr ?c" by (simp add: byteSwap_def Let_def)
  moreover have "bit ?c n = bit l (8 * (7 - n div 8) + n mod 8)" if "n < 64" for n
    using swap_index [OF that] swap_32 [OF that, of ?b] swap_16 [of _ ?a] swap_8 [of _ l] by (simp only: Let_def)
  ultimately show ?thesis by blast
qed

section \<open>Properties\<close>

text \<open>
  C9: The evaluator reads back what it is given: the text of any expression tree, with every operation in
  parentheses, parses to that tree.  The tree may have any 64-bit literal, any variable name and
  substitution index and every operator the tokenizer knows.
\<close>

theorem eval_print_parse:
  assumes "printable e"
  shows "IntEvaluator (print e) = Inr e"
  using assms by (rule IntEvaluator_print)

theorem eval_print_parse_witness:
  "IntEvaluator (print (FullNode OP_BinMinus (VariableExpression ''x'') (UnaryNode OP_UnNot (DirectExpression (-5))))) =
     Inr (FullNode OP_BinMinus (VariableExpression ''x'') (UnaryNode OP_UnNot (DirectExpression (-5))))"
  using eval_print_parse [of "FullNode OP_BinMinus (VariableExpression ''x'') (UnaryNode OP_UnNot (DirectExpression (-5)))"]
  by (simp add: full_ops_def unary_ops_def var_name_def isname_def isalpha_def code_def)

text \<open>
  C21: For every text the parser ends, with an expression or with one of the exceptions
  \<open>EndOfDataException\<close> and \<open>InvalidFormatException\<close>; it never runs out of its bound, and no operator is applied
  to operands that are not there.
\<close>

theorem eval_parser_total:
  "(\<exists>e. IntEvaluator s = Inr e) \<or> (\<exists>w m. IntEvaluator s = Inl (EndOfDataException w m)) \<or>
   (\<exists>w m. IntEvaluator s = Inl (InvalidFormatException w m))"
  using parseExpression_safe [of parseNextToken s, OF parseNextToken_safe]
  by (auto simp: IntEvaluator_def safe_def parse_error_def split: sum.splits exn.splits)

text \<open>
  An operator is compared with the last operator on the stack only once, so a chain of subtractions
  with a product in it is grouped from the right: \<open>a-b*c-d\<close> evaluates to \<open>a-(b*c-d)\<close>.
\<close>

theorem eval_wrong_associativity:
  assumes "constants args ''a'' = Some a" and "constants args ''b'' = Some b"
    and "constants args ''c'' = Some c" and "constants args ''d'' = Some d"
  shows "ebind (IntEvaluator ''a-b*c-d'') (evaluate args) = Inr (a - (b * c - d)) \<and>
    ebind (IntEvaluator ''a-b-c-d'') (evaluate args) = Inr (a - b - c - d)"
proof -
  have "IntEvaluator ''a-b*c-d'' = Inr (FullNode OP_BinMinus (VariableExpression ''a'')
      (FullNode OP_BinMinus (FullNode OP_BinMul (VariableExpression ''b'') (VariableExpression ''c'')) (VariableExpression ''d'')))"
    "IntEvaluator ''a-b-c-d'' = Inr (FullNode OP_BinMinus (FullNode OP_BinMinus (FullNode OP_BinMinus
      (VariableExpression ''a'') (VariableExpression ''b'')) (VariableExpression ''c'')) (VariableExpression ''d''))"
    by code_simp+
  then show ?thesis using assms by (simp add: getConstant_def evalFull_def)
qed

theorem eval_wrong_associativity_witness:
  "ebind (IntEvaluator ''a-b*c-d'') (evaluate \<lparr>constants = [''a'' \<mapsto> 10, ''b'' \<mapsto> 2, ''c'' \<mapsto> 3, ''d'' \<mapsto> 1], vals = Map.empty\<rparr>) = Inr 5"
  using eval_wrong_associativity [of "\<lparr>constants = [''a'' \<mapsto> 10, ''b'' \<mapsto> 2, ''c'' \<mapsto> 3, ''d'' \<mapsto> 1], vals = Map.empty\<rparr>" 10 2 3 1] by simp

text \<open>
  A right parenthesis that closes nothing is accepted.
\<close>

theorem eval_unmatched_parenthesis:
  assumes "printable e"
  shows "IntEvaluator (print e @ '')'') = Inr e"
proof -
  have "1 < Suc (Suc (length (print e @ '')''))) - ntok e" using ntok_le [OF assms] by (simp add: less_diff_conv)
  then show ?thesis using parse_print_top [OF assms, of "'')''"] loop_close_end by (simp add: delim_def)
qed

theorem eval_unmatched_parenthesis_witness:
  "IntEvaluator (print (DirectExpression 1) @ '')'') = Inr (DirectExpression 1)"
  using eval_unmatched_parenthesis [of "DirectExpression 1"] by simp

text \<open>
  The operator \<open>>><<\<close> with right operand 64 reverses the order of the eight bytes of its left operand.
\<close>

theorem eval_byte_swap:
  assumes "evaluate args a = Inr l" and "evaluate args b = Inr 64"
  shows "\<exists>w. evaluate args (FullNode OP_BinByteSwap a b) = Inr w \<and> (\<forall>n<64. bit w n \<longleftrightarrow> bit l (8 * (7 - n div 8) + n mod 8))"
  using byteSwap_64 [of l] assms by (simp add: evalFull_def)

theorem eval_byte_swap_witness:
  "\<exists>w. evaluate \<lparr>constants = Map.empty, vals = Map.empty\<rparr> (FullNode OP_BinByteSwap (DirectExpression 0x0123456789abcdef) (DirectExpression 64)) = Inr w \<and>
    (\<forall>n<64. bit w n \<longleftrightarrow> bit (0x0123456789abcdef :: u64) (8 * (7 - n div 8) + n mod 8))"
  using eval_byte_swap [of "\<lparr>constants = Map.empty, vals = Map.empty\<rparr>" "DirectExpression 0x0123456789abcdef" "0x0123456789abcdef" "DirectExpression 64"]
  by simp

end
