(* ===== verification/Drt_Mem.thy ===== *)
theory Drt_Mem
  imports Drt_Prelude
begin

text \<open>
  \<^verbatim>\<open>src/src/core/base/Mem.cxx\<close>: exchanging two regions of memory and copying octets in a given
  byte order.  The exchanges work on one block of memory and two offsets into it, so that
  overlapping regions are expressible; the copies read an octet sequence and write into a block.
  The code is modelled as compiled on a 64-bit little-endian machine, \<^verbatim>\<open>sizeof(int) == 4\<close>,
  \<^verbatim>\<open>sizeof(long) == 8\<close> and \<^verbatim>\<open>DR_SEX == DR_SEX_LE\<close>.
\<close>

section \<open>Exchange\<close>

text \<open>
  The body of every exchange: save the word at \<^verbatim>\<open>d1\<close>, copy the word at \<^verbatim>\<open>d2\<close> over it, store the
  saved one at \<^verbatim>\<open>d2\<close>; \<open>u\<close> is the size of the word.
\<close>

definition xchg_unit :: "nat \<Rightarrow> byte list \<Rightarrow> nat \<Rightarrow> nat \<Rightarrow> byte list result" where
  "xchg_unit u m d1 d2 =
     ebind (mem_read m d1 u) (\<lambda>x.
     ebind (mem_read m d2 u) (\<lambda>y.
     ebind (mem_write m d1 y) (\<lambda>m1. mem_write m1 d2 x)))"

lemma xchg_unit_bounds: "xchg_unit u m d1 d2 = Inr m' \<Longrightarrow> d1 + u \<le> length m \<and> length m' = length m"
  by (auto simp: xchg_unit_def mem_read_def ebind_eq_Inr mem_write_length split: if_splits)

text \<open>
  The three block exchanges are the same \<^verbatim>\<open>do ... while\<close> loop over words of one, four and eight
  octets; the length wraps when it is not a positive multiple of the word.
\<close>

function xchg_loop :: "nat \<Rightarrow> byte list \<Rightarrow> nat \<Rightarrow> nat \<Rightarrow> u64 \<Rightarrow> byte list result" where
  "xchg_loop u m d1 d2 len =
     (if u = 0 then Inl Undefined
      else ebind (xchg_unit u m d1 d2) (\<lambda>m'.
             let len' = len - of_nat u in
             if len' \<noteq> 0 then xchg_loop u m' (d1 + u) (d2 + u) len' else Inr m'))"
  by pat_completeness auto
termination
  by (relation "measure (\<lambda>(u, m, d1, d2, len). length m - d1)")
     (auto dest!: xchg_unit_bounds)

declare xchg_loop.simps [simp del]

definition xchg_zero :: "byte list \<Rightarrow> nat \<Rightarrow> nat \<Rightarrow> u64 \<Rightarrow> byte list result" where
  "xchg_zero m d1 d2 len = (if len = 0 then Inr m else Inl AssertFailed)"

definition xchg_bchar :: "byte list \<Rightarrow> nat \<Rightarrow> nat \<Rightarrow> u64 \<Rightarrow> byte list result" where
  "xchg_bchar m d1 d2 len = xchg_loop 1 m d1 d2 len"

definition xchg_int :: "byte list \<Rightarrow> nat \<Rightarrow> nat \<Rightarrow> u64 \<Rightarrow> byte list result" where
  "xchg_int m d1 d2 len = (if len = 4 then xchg_unit 4 m d1 d2 else Inl AssertFailed)"

definition xchg_long :: "byte list \<Rightarrow> nat \<Rightarrow> nat \<Rightarrow> u64 \<Rightarrow> byte list result" where
  "xchg_long m d1 d2 len = (if len = 8 then xchg_unit 8 m d1 d2 else Inl AssertFailed)"

definition xchg_bint :: "byte list \<Rightarrow> nat \<Rightarrow> nat \<Rightarrow> u64 \<Rightarrow> byte list result" where
  "xchg_bint m d1 d2 len = xchg_loop 4 m d1 d2 len"

definition xchg_blong :: "byte list \<Rightarrow> nat \<Rightarrow> nat \<Rightarrow> u64 \<Rightarrow> byte list result" where
  "xchg_blong m d1 d2 len = xchg_loop 8 m d1 d2 len"

text \<open>\<^verbatim>\<open>getXchgFunc\<close> returns the pointer to one of the functions above, here the function itself.\<close>

definition getXchgFunc :: "u64 \<Rightarrow> byte list \<Rightarrow> nat \<Rightarrow> nat \<Rightarrow> u64 \<Rightarrow> byte list result" where
  "getXchgFunc tsize =
     (if tsize = 0 then xchg_zero
      else if tsize = 1 \<or> tsize = 3 \<or> tsize = 5 \<or> tsize = 7 then xchg_bchar
      else if tsize = 4 then xchg_int
      else if tsize = 8 then xchg_long
      else if tsize = 16 then xchg_blong
      else if tsize mod 8 = 0 then xchg_blong
      else if tsize mod 8 = 4 then xchg_bint
      else xchg_bchar)"

definition Mem_xchg :: "byte list \<Rightarrow> nat \<Rightarrow> nat \<Rightarrow> u64 \<Rightarrow> byte list result" where
  "Mem_xchg m d1 d2 len =
     (if len = 0 then Inr m
      else if len = 1 \<or> len = 3 \<or> len = 5 \<or> len = 7 then xchg_bchar m d1 d2 len
      else if len = 4 then xchg_int m d1 d2 len
      else if len = 8 then xchg_long m d1 d2 len
      else if len = 16 then xchg_blong m d1 d2 len
      else if len mod 8 = 0 then xchg_blong m d1 d2 len
      else if len mod 8 = 4 then xchg_bint m d1 d2 len
      else xchg_bchar m d1 d2 len)"

section \<open>Copies in a byte order\<close>

text \<open>\<open>at\<close> is the offset of \<^verbatim>\<open>dest\<close> in its block.\<close>

definition copyLe :: "byte list \<Rightarrow> nat \<Rightarrow> byte list \<Rightarrow> nat \<Rightarrow> byte list result" where
  "copyLe dst at src len = ebind (mem_read src 0 len) (mem_write dst at)"

fun copyBe :: "byte list \<Rightarrow> nat \<Rightarrow> byte list \<Rightarrow> nat \<Rightarrow> byte list result" where
  "copyBe dst at src 0 = Inr dst"
| "copyBe dst at src (Suc len) =
     ebind (mem_get src len) (\<lambda>b. ebind (mem_write dst at [b]) (\<lambda>dst'. copyBe dst' (at + 1) src len))"

definition copyPartialLe :: "byte list \<Rightarrow> nat \<Rightarrow> nat \<Rightarrow> byte list \<Rightarrow> nat \<Rightarrow> byte list result" where
  "copyPartialLe dst at dst_size src src_size = ebind (mem_read src 0 src_size) (mem_write dst at)"

text \<open>\<^verbatim>\<open>copyPartialBe\<close> walks the destination downwards, \<open>at\<close> as an integer may leave the block.\<close>

fun copyPartialBe :: "byte list \<Rightarrow> int \<Rightarrow> nat \<Rightarrow> byte list \<Rightarrow> nat \<Rightarrow> byte list result" where
  "copyPartialBe dst at dst_size src 0 = Inr dst"
| "copyPartialBe dst at dst_size src (Suc n) =
     ebind (mem_get src n) (\<lambda>b.
     if at < 0 then Inl OutOfBounds
     else ebind (mem_write dst (nat at) [b]) (\<lambda>dst'. copyPartialBe dst' (at - 1) dst_size src n))"

section \<open>The exchange swaps two regions\<close>

text \<open>
  The reference: the two regions written over each other at once.
\<close>

definition swapped :: "byte list \<Rightarrow> nat \<Rightarrow> nat \<Rightarrow> nat \<Rightarrow> byte list" where
  "swapped m d1 d2 n = map (\<lambda>i. if d1 \<le> i \<and> i < d1 + n then m ! (d2 + (i - d1))
                              else if d2 \<le> i \<and> i < d2 + n then m ! (d1 + (i - d2)) else m ! i) [0..<length m]"

definition apart :: "nat \<Rightarrow> nat \<Rightarrow> nat \<Rightarrow> nat \<Rightarrow> bool" where
  "apart n d1 d2 k \<longleftrightarrow> d1 + n \<le> k \<and> d2 + n \<le> k \<and> (d1 + n \<le> d2 \<or> d2 + n \<le> d1)"

lemma mem_write_nth:
  "off + length bs \<le> length m \<Longrightarrow>
   mem_write m off bs = Inr (map (\<lambda>i. if off \<le> i \<and> i < off + length bs then bs ! (i - off) else m ! i) [0..<length m])"
  by (auto simp: mem_write_def nth_append min_def intro!: nth_equalityI)

lemma xchg_unit_swaps: "apart u d1 d2 (length m) \<Longrightarrow> xchg_unit u m d1 d2 = Inr (swapped m d1 d2 u)"
  by (auto simp: xchg_unit_def apart_def mem_read_def mem_write_nth swapped_def intro!: nth_equalityI)

lemma length_swapped [simp]: "length (swapped m d1 d2 n) = length m"
  by (simp add: swapped_def)

lemma nth_swapped:
  "i < length m \<Longrightarrow> swapped m d1 d2 n ! i =
     (if d1 \<le> i \<and> i < d1 + n then m ! (d2 + (i - d1))
      else if d2 \<le> i \<and> i < d2 + n then m ! (d1 + (i - d2)) else m ! i)"
  by (simp add: swapped_def)

lemma swapped_add:
  assumes "apart (u + n) d1 d2 (length m)"
  shows "swapped (swapped m d1 d2 u) (d1 + u) (d2 + u) n = swapped m d1 d2 (u + n)"
proof (rule nth_equalityI)
  fix i assume "i < length (swapped (swapped m d1 d2 u) (d1 + u) (d2 + u) n)"
  then have i: "i < length m" by simp
  have h: "d1 + u + n \<le> length m" "d2 + u + n \<le> length m" "d1 + u + n \<le> d2 \<or> d2 + u + n \<le> d1"
    using assms by (auto simp: apart_def)
  consider "d1 \<le> i" "i < d1 + u" | "d1 + u \<le> i" "i < d1 + u + n"
    | "d2 \<le> i" "i < d2 + u" | "d2 + u \<le> i" "i < d2 + u + n"
    | "i < d1 \<or> d1 + u + n \<le> i" "i < d2 \<or> d2 + u + n \<le> i"
    by linarith
  then show "swapped (swapped m d1 d2 u) (d1 + u) (d2 + u) n ! i = swapped m d1 d2 (u + n) ! i"
  proof cases
    case 1 then show ?thesis using h(3) h(1,2) i by (elim disjE) (simp_all add: nth_swapped)
  next
    case 2
    then obtain k where "i = d1 + u + k" "k < n"
      by (metis le_iff_add nat_add_left_cancel_less)
    then show ?thesis using h(3) h(1,2) i by (elim disjE) (auto simp: nth_swapped add.assoc)
  next
    case 3 then show ?thesis using h(3) h(1,2) i by (elim disjE) (simp_all add: nth_swapped)
  next
    case 4
    then obtain k where "i = d2 + u + k" "k < n"
      by (metis le_iff_add nat_add_left_cancel_less)
    then show ?thesis using h(3) h(1,2) i by (elim disjE) (auto simp: nth_swapped add.assoc)
  next
    case 5 then show ?thesis using h(3) h(1,2) i by (elim disjE) (simp_all add: nth_swapped)
  qed
qed simp

lemma of_nat_u64_nonzero: "0 < n \<Longrightarrow> n < 2 ^ 64 \<Longrightarrow> (of_nat n :: u64) \<noteq> 0"
  using unat_of_nat[of n, where ?'a = 64] by auto

lemma xchg_loop_swaps:
  assumes "0 < u" "u * Suc k < 2 ^ 64" "apart (u * Suc k) d1 d2 (length m)"
  shows "xchg_loop u m d1 d2 (of_nat (u * Suc k)) = Inr (swapped m d1 d2 (u * Suc k))"
  using assms
proof (induction k arbitrary: m d1 d2)
  case 0
  then show ?case
    by (subst xchg_loop.simps) (simp add: xchg_unit_swaps)
next
  case (Suc k)
  have ap: "apart u d1 d2 (length m)"
    using Suc.prems(3) by (auto simp: apart_def)
  have ap': "apart (u * Suc k) (d1 + u) (d2 + u) (length m)"
    using Suc.prems(3) by (auto simp: apart_def)
  have sub: "(of_nat (u * Suc (Suc k)) :: u64) - of_nat u = of_nat (u * Suc k)"
    by (simp add: algebra_simps)
  have lt: "u * Suc k < 2 ^ 64" and pos: "0 < u * Suc k"
    using Suc.prems(1,2) by auto
  from pos lt have nz: "(of_nat (u * Suc k) :: u64) \<noteq> 0"
    by (rule of_nat_u64_nonzero)
  have "xchg_loop u m d1 d2 (of_nat (u * Suc (Suc k)))
      = xchg_loop u (swapped m d1 d2 u) (d1 + u) (d2 + u) (of_nat (u * Suc k))"
    using Suc.prems(1)
    by (subst xchg_loop.simps) (simp add: xchg_unit_swaps[OF ap] Let_def sub nz del: mult_Suc_right of_nat_mult of_nat_Suc)
  also have "\<dots> = Inr (swapped (swapped m d1 d2 u) (d1 + u) (d2 + u) (u * Suc k))"
    using Suc.IH[of "d1 + u" "d2 + u" "swapped m d1 d2 u"] Suc.prems(1,2) ap' by simp
  also have "\<dots> = Inr (swapped m d1 d2 (u * Suc (Suc k)))"
    using swapped_add[of u "u * Suc k" d1 d2 m] Suc.prems(3) by simp
  finally show ?case .
qed


lemma swapped_0 [simp]: "swapped m d1 d2 0 = m"
  by (rule nth_equalityI) (auto simp: nth_swapped)

text \<open>Every dispatched routine at a length it is meant for.\<close>

lemma unat_u64_less: "unat (len :: u64) < 2 ^ 64"
  using unsigned_less[of len] by simp

lemma xchg_block_swaps:
  assumes "0 < u" "len \<noteq> 0" "unat len mod u = 0" "apart (unat len) d1 d2 (length m)"
  shows "xchg_loop u m d1 d2 len = Inr (swapped m d1 d2 (unat len))"
proof -
  obtain j where j: "unat len = u * j"
    using assms(3) by (metis mod_0_imp_dvd dvdE)
  obtain k where k: "unat len = u * Suc k"
    using j assms(2) by (cases j) (auto simp: unat_eq_0)
  have "of_nat (u * Suc k) = len"
    unfolding k[symmetric] by simp
  moreover have "u * Suc k < 2 ^ 64"
    using k unat_u64_less[of len] by simp
  ultimately show ?thesis
    using xchg_loop_swaps[OF assms(1), of k d1 d2 m] assms(4) k by simp
qed

lemma unat_mod8: "unat (len mod 8 :: u64) = unat len mod 8"
  by (simp add: unat_mod_distrib)

lemma xchg_blong_swaps:
  "len mod 8 = 0 \<Longrightarrow> len \<noteq> 0 \<Longrightarrow> apart (unat len) d1 d2 (length m) \<Longrightarrow>
   xchg_blong m d1 d2 len = Inr (swapped m d1 d2 (unat len))"
  unfolding xchg_blong_def by (rule xchg_block_swaps) (use unat_mod8[of len] in auto)

lemma xchg_bint_swaps:
  assumes "len mod 8 = 4" "apart (unat len) d1 d2 (length m)"
  shows "xchg_bint m d1 d2 len = Inr (swapped m d1 d2 (unat len))"
  unfolding xchg_bint_def
proof (rule xchg_block_swaps[OF _ _ _ assms(2)])
  have "unat len mod 8 = 4"
    using unat_mod8[of len] assms(1) by simp
  then show "unat len mod 4 = 0"
    by presburger
  show "len \<noteq> 0" using assms(1) by auto
qed simp

lemma xchg_bchar_swaps:
  "len \<noteq> 0 \<Longrightarrow> apart (unat len) d1 d2 (length m) \<Longrightarrow>
   xchg_bchar m d1 d2 len = Inr (swapped m d1 d2 (unat len))"
  unfolding xchg_bchar_def by (rule xchg_block_swaps) auto

lemma xchg_int_swaps: "apart 4 d1 d2 (length m) \<Longrightarrow> xchg_int m d1 d2 4 = Inr (swapped m d1 d2 4)"
  by (simp add: xchg_int_def xchg_unit_swaps)

lemma xchg_long_swaps: "apart 8 d1 d2 (length m) \<Longrightarrow> xchg_long m d1 d2 8 = Inr (swapped m d1 d2 8)"
  by (simp add: xchg_long_def xchg_unit_swaps)

lemmas xchg_swaps = xchg_blong_swaps xchg_bint_swaps xchg_bchar_swaps xchg_int_swaps xchg_long_swaps

lemma xchg_selected:
  "apart (unat len) d1 d2 (length m) \<Longrightarrow> getXchgFunc len m d1 d2 len = Inr (swapped m d1 d2 (unat len))"
  by (auto simp: getXchgFunc_def xchg_swaps xchg_zero_def)

text \<open>
  C32: for two regions that lie inside the memory and do not overlap, \<^verbatim>\<open>Mem::xchg\<close> and the routine
  \<^verbatim>\<open>getXchgFunc\<close> selects for the size both return normally with the two regions exchanged and
  everything else as it was, whatever word size the dispatch on the length selects, including the
  length zero.
\<close>

theorem mem_xchg_swaps:
  assumes "apart (unat len) d1 d2 (length m)"
  shows "Mem_xchg m d1 d2 len = Inr (swapped m d1 d2 (unat len)) \<and>
         getXchgFunc len m d1 d2 len = Inr (swapped m d1 d2 (unat len))"
  using xchg_selected [OF assms] assms by (auto simp: Mem_xchg_def xchg_swaps xchg_zero_def)

theorem mem_xchg_swaps_witness:
  "Mem_xchg [1,2,3,4,5,6,7,8,9,10,11,12,13] 0 7 6 = Inr [8,9,10,11,12,13,7,1,2,3,4,5,6]"
  using mem_xchg_swaps[of 6 0 7 "[1,2,3,4,5,6,7,8,9,10,11,12,13]"] by (simp add: apart_def swapped_def upt_rec)

section \<open>The copies\<close>

lemma mem_write_1: "at < length dst \<Longrightarrow> mem_write dst at [b] = Inr (dst[at := b])"
  by (simp add: mem_write_def upd_conv_take_nth_drop)

lemma copyBe_spec:
  "n \<le> length src \<Longrightarrow> at + n \<le> length dst \<Longrightarrow>
   copyBe dst at src n = Inr (take at dst @ rev (take n src) @ drop (at + n) dst)"
proof (induction n arbitrary: dst at)
  case (Suc n)
  then show ?case
    by (simp add: mem_write_1 take_Suc_conv_app_nth upd_conv_take_nth_drop add.commute)
qed simp

lemma copyLe_spec:
  "n \<le> length src \<Longrightarrow> at + n \<le> length dst \<Longrightarrow>
   copyLe dst at src n = Inr (take at dst @ take n src @ drop (at + n) dst)"
  by (simp add: copyLe_def mem_read_def mem_write_def)

lemma copyPartialBe_below: "0 < n \<Longrightarrow> n \<le> length src \<Longrightarrow> at < 0 \<Longrightarrow> copyPartialBe dst at ds src n = Inl OutOfBounds"
  by (cases n) auto

text \<open>
  The copies into a block that has room.  \<^verbatim>\<open>copyLe\<close> stores the octets in their order and
  \<^verbatim>\<open>copyBe\<close> in the opposite order, both leave the rest of the block alone, and a big-endian copy of
  a big-endian copy is the original.  \<^verbatim>\<open>copyPartialBe\<close> does not work for more than one octet: it
  walks down from the start of the destination where it should walk up, and writes in front of the
  block.
\<close>

theorem mem_copies:
  assumes "length src = n" "at + n \<le> length dst"
  shows "copyLe dst at src n = Inr (take at dst @ src @ drop (at + n) dst) \<and>
         copyBe dst at src n = Inr (take at dst @ rev src @ drop (at + n) dst) \<and>
         copyBe src 0 (rev src) n = Inr src \<and>
         (2 \<le> n \<longrightarrow> copyPartialBe dst 0 (length dst) src n = Inl OutOfBounds)"
proof (intro conjI impI)
  show "copyLe dst at src n = Inr (take at dst @ src @ drop (at + n) dst)"
    using assms by (simp add: copyLe_spec)
  show "copyBe dst at src n = Inr (take at dst @ rev src @ drop (at + n) dst)"
    using assms by (simp add: copyBe_spec)
  show "copyBe src 0 (rev src) n = Inr src"
    using assms by (simp add: copyBe_spec)
  assume "2 \<le> n"
  then obtain k where k: "n = Suc k" "0 < k" by (cases n) auto
  then show "copyPartialBe dst 0 (length dst) src n = Inl OutOfBounds"
    using assms by (cases dst) (simp_all add: mem_write_def copyPartialBe_below)
qed

theorem mem_copies_witness:
  "copyBe [0,0,0,0,9] 1 [1,2,3] 3 = Inr [0,3,2,1,9] \<and> copyPartialBe [0,0,0,0,9] 0 5 [1,2,3] 3 = Inl OutOfBounds"
  using mem_copies[of "[1,2,3]" 3 1 "[0,0,0,0,9]"] by (simp add: eval_nat_numeral)

end
