(* ===== verification/Drt_Time.thy ===== *)
theory Drt_Time
  imports Drt_Prelude "HOL-Library.Signed_Division"
begin

text \<open>
  \<^verbatim>\<open>src/src/core/time/Time.hxx\<close> and \<^verbatim>\<open>Time.cxx\<close>: the conversions of \<^verbatim>\<open>SysTime\<close>, a signed 64-bit count
  of milliseconds with the smallest value as the mark of an invalid time.  Products wrap, quotients
  and remainders truncate towards zero as C++ defines them.  The calendar of the C library,
  \<^verbatim>\<open>gmtime_r\<close> and \<^verbatim>\<open>timegm\<close>, is not part of the sources: the functions that call it take it as an
  argument.  Reading the clock and sleeping are system calls and are left out.
\<close>

definition SEC_BASE :: u64 where
  "SEC_BASE = 1000"

definition INVAL_TIME :: u64 where
  "INVAL_TIME = push_bit 63 (- 1)"

definition sdiv64 :: "u64 \<Rightarrow> u64 \<Rightarrow> u64" where
  "sdiv64 a b = word_of_int (sint a sdiv sint b)"

definition smod64 :: "u64 \<Rightarrow> u64 \<Rightarrow> u64" where
  "smod64 a b = word_of_int (sint a smod sint b)"

definition fromSeconds :: "u64 \<Rightarrow> u64" where
  "fromSeconds seconds = (if seconds \<noteq> INVAL_TIME then seconds * SEC_BASE else INVAL_TIME)"

definition toSeconds :: "u64 \<Rightarrow> u64" where
  "toSeconds time = (if time \<noteq> INVAL_TIME then sdiv64 time SEC_BASE else INVAL_TIME)"

definition toSecondsUp :: "u64 \<Rightarrow> u64" where
  "toSecondsUp time = (if time \<noteq> INVAL_TIME then sdiv64 (time + SEC_BASE - 1) SEC_BASE else INVAL_TIME)"

definition fromMseconds :: "u64 \<Rightarrow> u64" where
  "fromMseconds mseconds = (if mseconds \<noteq> INVAL_TIME then sdiv64 (mseconds * SEC_BASE) 1000 else INVAL_TIME)"

definition toMseconds :: "u64 \<Rightarrow> u64" where
  "toMseconds time = (if time \<noteq> INVAL_TIME then sdiv64 (time * 1000) SEC_BASE else INVAL_TIME)"

text \<open>The fractions are returned as \<^verbatim>\<open>unsigned\<close>.\<close>

definition fractMsecs :: "u64 \<Rightarrow> u32" where
  "fractMsecs time = ucast (sdiv64 (smod64 time SEC_BASE * 1000) SEC_BASE)"

definition fractUsecs :: "u64 \<Rightarrow> u32" where
  "fractUsecs time = ucast (sdiv64 (smod64 time SEC_BASE * 1000000) SEC_BASE)"

definition fractNsecs :: "u64 \<Rightarrow> u32" where
  "fractNsecs time = ucast (sdiv64 (smod64 time SEC_BASE * 1000000000) SEC_BASE)"

definition interToSeconds :: "u64 \<Rightarrow> u64" where
  "interToSeconds time = sdiv64 time SEC_BASE"

definition interToSecondsUp :: "u64 \<Rightarrow> u64" where
  "interToSecondsUp time = sdiv64 (time + SEC_BASE - 1) SEC_BASE"

definition interToMseconds :: "u64 \<Rightarrow> u64" where
  "interToMseconds time = sdiv64 (time * 1000) SEC_BASE"

definition interToMsecondsUp :: "u64 \<Rightarrow> u64" where
  "interToMsecondsUp time = sdiv64 (time * 1000 + SEC_BASE - 1) SEC_BASE"

definition interFromSeconds :: "u64 \<Rightarrow> u64" where
  "interFromSeconds time = time * SEC_BASE"

definition interFromMseconds :: "u64 \<Rightarrow> u64" where
  "interFromMseconds time = sdiv64 (time * SEC_BASE) 1000"

definition interFromUseconds :: "u64 \<Rightarrow> u64" where
  "interFromUseconds time = sdiv64 (time * SEC_BASE) 1000000"

definition interFromUsecondsUp :: "u64 \<Rightarrow> u64" where
  "interFromUsecondsUp time = sdiv64 (time * SEC_BASE + 999999) 1000000"

definition interToUseconds :: "u64 \<Rightarrow> u64" where
  "interToUseconds time = sdiv64 (time * 1000000) SEC_BASE"

definition interToUsecondsUp :: "u64 \<Rightarrow> u64" where
  "interToUsecondsUp time = sdiv64 (time * 1000000 + SEC_BASE - 1) SEC_BASE"

definition interToNseconds :: "u64 \<Rightarrow> u64" where
  "interToNseconds time = sdiv64 (time * 1000000000) SEC_BASE"

definition interToNsecondsUp :: "u64 \<Rightarrow> u64" where
  "interToNsecondsUp time = sdiv64 (time * 1000000000 + SEC_BASE - 1) SEC_BASE"

definition interFromSecondsUp :: "u64 \<Rightarrow> u64" where
  "interFromSecondsUp time = time * SEC_BASE"

definition interFromMsecondsUp :: "u64 \<Rightarrow> u64" where
  "interFromMsecondsUp time = sdiv64 (time * SEC_BASE + 999) 1000"

definition interFromNseconds :: "u64 \<Rightarrow> u64" where
  "interFromNseconds time = sdiv64 (time * SEC_BASE) 1000000000"

definition interFromNsecondsUp :: "u64 \<Rightarrow> u64" where
  "interFromNsecondsUp time = sdiv64 (time * SEC_BASE + 999999999) 1000000000"

section \<open>The calendar\<close>

record tm =
  tm_year :: u32
  tm_mon :: u32
  tm_mday :: u32
  tm_hour :: u32
  tm_min :: u32
  tm_sec :: u32

type_synonym gmtime = "u64 \<Rightarrow> tm option"
type_synonym timegm = "tm \<Rightarrow> u64"

definition convertUtcTime ::
  "timegm \<Rightarrow> u32 \<Rightarrow> u32 \<Rightarrow> u32 \<Rightarrow> u32 \<Rightarrow> u32 \<Rightarrow> u32 \<Rightarrow> u32 \<Rightarrow> u64" where
  "convertUtcTime timegm year mon day hour mi sec timezone_min =
     (let t = \<lparr>tm_year = year - 1900, tm_mon = mon, tm_mday = day + 1, tm_hour = hour, tm_min = mi, tm_sec = sec\<rparr>;
          tt = timegm t in
      if sint tt < 0 then tt else (tt + scast (timezone_min * 60)) * SEC_BASE)"

definition convertUtcTimeMsec ::
  "timegm \<Rightarrow> u32 \<Rightarrow> u32 \<Rightarrow> u32 \<Rightarrow> u32 \<Rightarrow> u32 \<Rightarrow> u32 \<Rightarrow> u32 \<Rightarrow> u32 \<Rightarrow> u64" where
  "convertUtcTimeMsec timegm year mon day hour mi sec msec timezone_min =
     (let t = \<lparr>tm_year = year - 1900, tm_mon = mon, tm_mday = day + 1, tm_hour = hour, tm_min = mi, tm_sec = sec\<rparr>;
          tt = timegm t in
      if sint tt < 0 then tt
      else fromSeconds (tt + scast (timezone_min * 60)) + interFromMseconds (scast msec))"

text \<open>The results are year, month, day, hour, minute and second.\<close>

type_synonym calendar = "u32 \<times> u32 \<times> u32 \<times> u32 \<times> u32 \<times> u32"

definition timeToUtcCalendar :: "gmtime \<Rightarrow> u64 \<Rightarrow> calendar result" where
  "timeToUtcCalendar gmtime tvalue =
     (case gmtime (toSeconds tvalue) of
        None \<Rightarrow> Inl PlainException
      | Some t \<Rightarrow> Inr (tm_year t + 1900, tm_mon t, tm_mday t - 1, tm_hour t, tm_min t, tm_sec t))"

definition timeToUtcCalendarMsec :: "gmtime \<Rightarrow> u64 \<Rightarrow> (calendar \<times> u32) result" where
  "timeToUtcCalendarMsec gmtime tvalue =
     (case gmtime (toSeconds tvalue) of
        None \<Rightarrow> Inl PlainException
      | Some t \<Rightarrow> Inr ((tm_year t + 1900, tm_mon t, tm_mday t - 1, tm_hour t, tm_min t, tm_sec t), fractMsecs tvalue))"

section \<open>Conversions within the range\<close>

lemma sint_INVAL: "sint INVAL_TIME = - (2 ^ 63)"
  unfolding INVAL_TIME_def by code_simp

lemma sint_SEC_BASE [simp]: "sint SEC_BASE = 1000"
  by (simp add: SEC_BASE_def sint_word_ariths)

lemma sint_u64_range: "- (2 ^ 63) \<le> sint (t :: u64)" "sint (t :: u64) < 2 ^ 63"
  using sint_ge[of t] sint_lt[of t] by simp_all

lemma sint_word_of_int_range: "- (2 ^ 63) \<le> i \<Longrightarrow> i < 2 ^ 63 \<Longrightarrow> sint (word_of_int i :: u64) = i"
  by (simp add: sint_sbintrunc' signed_take_bit_int_eq_self)

lemma sdiv_1000_nonneg: "0 \<le> i \<Longrightarrow> i sdiv (1000 :: int) = i div 1000"
  by (cases "i = 0") (auto simp: signed_divide_int_def sgn_if)

lemma smod_1000_nonneg: "0 \<le> i \<Longrightarrow> i smod (1000 :: int) = i mod 1000"
  by (cases "i = 0") (auto simp: smod_int_alt_def)

lemma toSeconds_nonneg: "0 \<le> sint t \<Longrightarrow> sint (toSeconds t) = sint t div 1000"
proof -
  assume t: "0 \<le> sint t"
  then have "t \<noteq> INVAL_TIME" using sint_INVAL by auto
  moreover have "0 \<le> sint t div 1000" "sint t div 1000 < 2 ^ 63"
    using t sint_u64_range(2)[of t] by simp_all
  ultimately show ?thesis
    using t by (simp add: toSeconds_def sdiv64_def sdiv_1000_nonneg sint_word_of_int_range)
qed

lemma sint_mult_range:
  "- (2 ^ 63) \<le> sint (a :: u64) * sint b \<Longrightarrow> sint a * sint b < 2 ^ 63 \<Longrightarrow> sint (a * b) = sint a * sint b"
  by (simp add: sint_word_ariths signed_take_bit_int_eq_self)

lemma fromSeconds_range: "- (2 ^ 53) \<le> sint s \<Longrightarrow> sint s < 2 ^ 53 \<Longrightarrow> sint (fromSeconds s) = sint s * 1000"
proof -
  assume s: "- (2 ^ 53) \<le> sint s" "sint s < 2 ^ 53"
  then have "s \<noteq> INVAL_TIME" using sint_INVAL by auto
  with s show ?thesis
    by (simp add: fromSeconds_def sint_mult_range)
qed

lemma sdiv64_range: "0 \<le> sint a \<Longrightarrow> sint (sdiv64 a 1000) = sint a div 1000"
  using sint_u64_range(2)[of a] by (simp add: sdiv64_def sdiv_1000_nonneg sint_word_of_int_range)

lemma smod64_range: "0 \<le> sint a \<Longrightarrow> sint (smod64 a SEC_BASE) = sint a mod 1000"
  using pos_mod_bound[of 1000 "sint a"] pos_mod_sign[of 1000 "sint a"]
  by (simp add: smod64_def smod_1000_nonneg sint_word_of_int_range)

lemma interFromMseconds_small:
  assumes "0 \<le> sint x" "sint x < 1000" shows "interFromMseconds x = x"
proof -
  have "sint (x * SEC_BASE) = sint x * 1000"
    using assms by (simp add: sint_mult_range)
  then have "sint (interFromMseconds x) = sint x"
    using assms by (simp add: interFromMseconds_def sdiv64_range)
  then show ?thesis by (simp add: signed_word_eqI)
qed

lemma fractMsecs_nonneg:
  assumes "0 \<le> sint v" shows "(scast (fractMsecs v) :: u64) = smod64 v SEC_BASE"
proof -
  let ?m = "smod64 v SEC_BASE"
  have m: "sint ?m = sint v mod 1000" by (rule smod64_range[OF assms])
  then have r: "0 \<le> sint ?m" "sint ?m < 1000" by simp_all
  have "sdiv64 (?m * 1000) SEC_BASE = ?m"
    using interFromMseconds_small[OF r] by (simp add: interFromMseconds_def SEC_BASE_def)
  then have e: "fractMsecs v = ucast ?m" by (simp add: fractMsecs_def)
  have "sint (ucast ?m :: u32) = sint ?m"
    using r by (simp add: signed_ucast_eq uint_sint take_bit_int_eq_self signed_take_bit_int_eq_self)
  then have "sint (scast (ucast ?m :: u32) :: u64) = sint ?m"
    using r by (simp add: signed_scast_eq signed_take_bit_int_eq_self)
  then show ?thesis using e by (simp add: signed_word_eqI)
qed

lemma toSeconds_fraction:
  assumes "0 \<le> sint v" shows "toSeconds v * SEC_BASE + smod64 v SEC_BASE = v"
proof -
  have "sint v div 1000 * 1000 + sint v mod 1000 = sint v" by simp
  then have "word_of_int (sint (toSeconds v) * sint SEC_BASE + sint (smod64 v SEC_BASE)) = v"
    by (simp add: toSeconds_nonneg[OF assms] smod64_range[OF assms])
  then show ?thesis by (simp add: wi_hom_syms SEC_BASE_def)
qed

lemma calendar_back:
  assumes "gmtime (toSeconds v) = Some c" "timegm c = toSeconds v"
  shows "timegm \<lparr>tm_year = tm_year c + 1900 - 1900, tm_mon = tm_mon c, tm_mday = tm_mday c - 1 + 1,
                 tm_hour = tm_hour c, tm_min = tm_min c, tm_sec = tm_sec c\<rparr> = toSeconds v"
  using assms by (cases c) simp

text \<open>
  C33: whenever the C library's \<^verbatim>\<open>timegm\<close> inverts its \<^verbatim>\<open>gmtime_r\<close>, a time from the epoch on that is
  split into calendar fields and put together again is unchanged by the variants with milliseconds,
  and loses exactly its milliseconds in the variants without.  A time a second or more before the epoch is not:
  \<^verbatim>\<open>convertUtcTime\<close> and \<^verbatim>\<open>convertUtcTimeMsec\<close> take a negative result of \<^verbatim>\<open>timegm\<close> for an error and return it as it is, a number of
  seconds where the caller expects milliseconds.
\<close>

theorem time_calendar_roundtrip:
  assumes timegm: "\<And>t c. gmtime t = Some c \<Longrightarrow> timegm c = t"
    and c: "timeToUtcCalendarMsec gmtime v = Inr ((year, mon, day, hour, mi, sec), msec)"
  shows "timeToUtcCalendar gmtime v = Inr (year, mon, day, hour, mi, sec) \<and>
         (0 \<le> sint v \<longrightarrow> convertUtcTimeMsec timegm year mon day hour mi sec msec 0 = v \<and>
                        convertUtcTime timegm year mon day hour mi sec 0 = v - smod64 v SEC_BASE) \<and>
         (sint (toSeconds v) < 0 \<longrightarrow> convertUtcTime timegm year mon day hour mi sec 0 = toSeconds v \<and>
                        convertUtcTimeMsec timegm year mon day hour mi sec msec 0 = toSeconds v)"
proof -
  obtain c where g: "gmtime (toSeconds v) = Some c"
    and f: "year = tm_year c + 1900" "mon = tm_mon c" "day = tm_mday c - 1" "hour = tm_hour c"
           "mi = tm_min c" "sec = tm_sec c" "msec = fractMsecs v"
    using c by (auto simp: timeToUtcCalendarMsec_def split: option.splits)
  note cal = calendar_back[of gmtime v c timegm, OF g timegm[OF g]]
  have nonneg: "0 \<le> sint (toSeconds v)" if "0 \<le> sint v"
    using that by (simp add: toSeconds_nonneg)
  have ninv: "toSeconds v \<noteq> INVAL_TIME" if "0 \<le> sint v"
    using nonneg[OF that] sint_INVAL by auto
  have sum: "toSeconds v * SEC_BASE = v - smod64 v SEC_BASE" if "0 \<le> sint v"
    using toSeconds_fraction[OF that] by (metis add_diff_cancel)
  have ms: "interFromMseconds (scast (fractMsecs v)) = smod64 v SEC_BASE" if "0 \<le> sint v"
    using fractMsecs_nonneg[OF that] smod64_range[OF that] interFromMseconds_small[of "smod64 v SEC_BASE"] by simp
  have "timeToUtcCalendar gmtime v = Inr (year, mon, day, hour, mi, sec)"
    using g f by (simp add: timeToUtcCalendar_def)
  moreover have "convertUtcTimeMsec timegm year mon day hour mi sec msec 0 = v \<and>
                 convertUtcTime timegm year mon day hour mi sec 0 = v - smod64 v SEC_BASE" if v: "0 \<le> sint v"
    using cal nonneg[OF v] ninv[OF v] sum[OF v] ms[OF v] f
    by (simp add: convertUtcTimeMsec_def convertUtcTime_def Let_def fromSeconds_def not_less)
  moreover have "convertUtcTime timegm year mon day hour mi sec 0 = toSeconds v \<and>
                 convertUtcTimeMsec timegm year mon day hour mi sec msec 0 = toSeconds v" if "sint (toSeconds v) < 0"
    using cal that f by (simp add: convertUtcTimeMsec_def convertUtcTime_def Let_def)
  ultimately show ?thesis by blast
qed

text \<open>A calendar that knows the last second of two days, one before and one after the epoch.\<close>

definition two_days :: gmtime where
  "two_days t = (if t = 86399 then Some \<lparr>tm_year = 70, tm_mon = 0, tm_mday = 1, tm_hour = 23, tm_min = 59, tm_sec = 59\<rparr>
     else if t = - 1 then Some \<lparr>tm_year = 69, tm_mon = 11, tm_mday = 31, tm_hour = 23, tm_min = 59, tm_sec = 59\<rparr> else None)"

definition two_days_back :: timegm where
  "two_days_back c = (if tm_year c = 70 then 86399 else - 1)"

lemma two_days_inverse: "two_days t = Some c \<Longrightarrow> two_days_back c = t"
  by (auto simp: two_days_def two_days_back_def split: if_splits)

theorem time_calendar_roundtrip_witness:
  "convertUtcTimeMsec two_days_back 1970 0 0 23 59 59 999 0 = 86399999 \<and>
   convertUtcTime two_days_back 1969 11 30 23 59 59 0 = - 1"
proof -
  have 1: "timeToUtcCalendarMsec two_days 86399999 = Inr ((1970, 0, 0, 23, 59, 59), 999)"
    by code_simp
  have 2: "timeToUtcCalendarMsec two_days (- 1000) = Inr ((1969, 11, 30, 23, 59, 59), 0)"
    by code_simp
  have "sint (86399999 :: u64) = 86399999" "sint (toSeconds (- 1000)) = - 1" "toSeconds (- 1000) = - 1"
    by code_simp+
  then show ?thesis
    using time_calendar_roundtrip[OF two_days_inverse 1] time_calendar_roundtrip[OF two_days_inverse 2] by simp
qed

end
