(* ===== verification/Drt_FastRpc.thy ===== *)
theory Drt_FastRpc
  imports Drt_Mem Drt_Time "HOL-Library.AList"
begin

unbundle bit_operations_syntax

text \<open>
  \<^verbatim>\<open>src/src/net/rpc/fastrpc/FastRpcEncoder.cxx\<close>, \<^verbatim>\<open>FastRpcDecoder.cxx\<close> and the parts of
  \<^verbatim>\<open>src/src/net/rpc/RpcEncoder.cxx\<close> and \<^verbatim>\<open>RpcDecoder.cxx\<close> they inherit: the binary remote procedure
  call protocol.  An encoder is its version indicator and the octets written so far; a decoder is
  the memory its two pointers point into and their offsets.  The memory may reach past \<open>fd_end\<close>
  (the terminator of the string block); an access past the memory is \<open>OutOfBounds\<close>, and a
  comparison with a pointer past the end is a comparison of offsets.  A \<^verbatim>\<open>String\<close> is the sequence of
  its octets, which is what \<^verbatim>\<open>setUtf8\<close> and the constructor copy; a \<^verbatim>\<open>double\<close> is its 64-bit pattern.
  The exceptions that print the type octet carry the octet itself.  Negation of the smallest
  integer wraps.
\<close>

section \<open>The encoder\<close>

record fenc =
  fe_length_add :: nat
  fe_content :: "byte list"

definition FastRpcEncoder :: fenc where
  "FastRpcEncoder = \<lparr>fe_length_add = 1, fe_content = []\<rparr>"

definition put :: "byte list \<Rightarrow> fenc \<Rightarrow> fenc" where
  "put bs e = e\<lparr>fe_content := fe_content e @ bs\<rparr>"

definition getContent :: "fenc \<Rightarrow> byte list" where
  "getContent e = fe_content e"

text \<open>
  The array \<^verbatim>\<open>c\<close> of \<^verbatim>\<open>writeGenLength\<close> is the type followed by the octets of the length; the octets
  the source leaves unset in a branch are those the final \<^verbatim>\<open>append\<close> does not reach.
\<close>

definition gen_type :: "byte \<Rightarrow> u64 \<Rightarrow> byte" where
  "gen_type type len =
     (if len > 0xff then
        (if (ucast len :: u32) > 0xffff then
           (if len AND push_bit 32 1 \<noteq> 0 then type OR 7 else type OR 3)
         else type OR 1)
      else type OR 0)"

definition writeGenLength :: "byte \<Rightarrow> u64 \<Rightarrow> fenc \<Rightarrow> fenc" where
  "writeGenLength type0 len e =
     (let type1 = gen_type type0 len;
          type2 = (if type1 AND 7 = 7 \<and> fe_length_add e = 0 then type1 - 1 else type1);
          c = (type2 + (1 - of_nat (fe_length_add e))) # map (\<lambda>i. ucast (drop_bit (8 * i) len)) [0..<8] in
      put (take (unat (type2 AND 7) + 2) c) e)"

definition writeHeader :: "fenc \<Rightarrow> fenc" where
  "writeHeader e =
     (if fe_length_add e > 0 then put [0xCA, 0x11, 0x02, 0x00] e
      else put [0xCA, 0x11, 0x01, 0x00] e)"

definition writeMethodName :: "byte list \<Rightarrow> fenc \<Rightarrow> fenc" where
  "writeMethodName name e = put name (put [0x68, of_nat (length name)] e)"

definition writeMethodEnd :: "fenc \<Rightarrow> fenc" where
  "writeMethodEnd e = e"

definition writeMethodResponse :: "fenc \<Rightarrow> fenc" where
  "writeMethodResponse e = put [0x70] e"

definition writeResponseEnd :: "fenc \<Rightarrow> fenc" where
  "writeResponseEnd e = e"

definition int32_type :: "nat \<Rightarrow> u32 \<Rightarrow> byte \<times> u32" where
  "int32_type length_add value =
     (if length_add > 0 then
        (let (type, value) = (if sint value < 0 then (0x40, - value) else (0x38, value)) in
         (if sint value \<le> 0xffff then (if sint value \<le> 0xff then type OR 0 else type OR 1) else type OR 3, value))
      else
        (if sint value < 0 then 0x0b
         else if sint value < 128 then 0x08
         else if sint value < 32768 then 0x09
         else 0x0b, value))"

definition writeInt32 :: "u32 \<Rightarrow> fenc \<Rightarrow> fenc" where
  "writeInt32 value e =
     (let (type, value) = int32_type (fe_length_add e) value;
          c = (type + (1 - of_nat (fe_length_add e))) # le_bytes 4 (unat value) in
      put (take (unat (type AND 7) + 2) c) e)"

definition int64_type :: "nat \<Rightarrow> u64 \<Rightarrow> byte \<times> u64" where
  "int64_type length_add value =
     (if length_add > 0 then
        (let (type, value) = (if sint value < 0 then (0x40, - value) else (0x38, value)) in
         (if sint value \<le> 0xffff then (if sint value \<le> 0xff then type OR 0 else type OR 1)
          else if sint value \<le> 0xffffffff then type OR 3
          else type OR 7, value))
      else
        (let type = (if sint value < 0 then 0x0f
                     else if sint value < 128 then 0x08
                     else if sint value < 2 ^ 16 then 0x09
                     else if sint value < 2 ^ 32 then 0x0b
                     else 0x0f) in
         (if type AND 7 = 7 \<and> length_add = 0 then type - 1 else type, value)))"

definition writeInt64 :: "u64 \<Rightarrow> fenc \<Rightarrow> fenc" where
  "writeInt64 value e =
     (let (type, value) = int64_type (fe_length_add e) value;
          c = (type + (1 - of_nat (fe_length_add e))) # le_bytes 8 (unat value) in
      put (take (unat (type AND 7) + 2) c) e)"

definition writeBool :: "bool \<Rightarrow> fenc \<Rightarrow> fenc" where
  "writeBool value e = put [0x10 OR (if value then 1 else 0)] e"

definition writeDouble :: "u64 \<Rightarrow> fenc \<Rightarrow> fenc" where
  "writeDouble value e = put (0x18 # le_bytes 8 (unat value)) e"

definition writeString :: "byte list \<Rightarrow> fenc \<Rightarrow> fenc" where
  "writeString str e = put str (writeGenLength 0x20 (of_nat (length str)) e)"

definition writeBinary :: "byte list \<Rightarrow> fenc \<Rightarrow> fenc" where
  "writeBinary data e = put data (writeGenLength 0x30 (of_nat (length data)) e)"

definition writeFaultResponse :: "u64 \<Rightarrow> byte list \<Rightarrow> fenc \<Rightarrow> fenc" where
  "writeFaultResponse code message e = writeString message (writeInt64 code (put [0x78] e))"

text \<open>The octets of the calendar fields, after the type, the time zone and the low part of the seconds.\<close>

definition pack_calendar :: "calendar \<Rightarrow> byte list" where
  "pack_calendar cal =
     (let (year, mon, day, hour, mi, sec) = cal in
      map ucast
       [7 + push_bit 3 (sec AND 0x1f),
        drop_bit 5 (sec AND 0x20) + push_bit 1 (mi AND 0x3f) + push_bit 7 (hour AND 0x01),
        drop_bit 1 (hour AND 0x1e) + push_bit 4 ((day + 1) AND 0x0f),
        drop_bit 4 ((day + 1) AND 0x1f) + push_bit 1 ((mon + 1) AND 0x0f) + push_bit 5 ((year - 1600) AND 0x07),
        drop_bit 3 ((year - 1600) AND 0x7f8)])"

definition writeTime :: "gmtime \<Rightarrow> u64 \<Rightarrow> (fenc, unit) smethod" where
  "writeTime gmtime tvalue e =
     (case timeToUtcCalendar gmtime tvalue of
        Inl ex \<Rightarrow> (Inl ex, e)
      | Inr cal \<Rightarrow>
          let tvalue = toSeconds tvalue in
          (Inr (), put ([0x28, 0, ucast tvalue, ucast (drop_bit 8 tvalue), ucast (drop_bit 16 tvalue),
                         ucast (drop_bit 24 tvalue)] @ pack_calendar cal) e))"

definition writeArrayLength :: "u64 \<Rightarrow> fenc \<Rightarrow> fenc" where
  "writeArrayLength len e = writeGenLength 0x58 len e"

definition writeStructLength :: "u64 \<Rightarrow> fenc \<Rightarrow> fenc" where
  "writeStructLength len e = writeGenLength 0x50 len e"

definition writeMemberName :: "byte list \<Rightarrow> (fenc, unit) smethod" where
  "writeMemberName name e =
     (if length name > 255 then (Inl (InvalidFormatException ''member name too long'' (map (of_nat \<circ> of_char) ''string'')), e)
      else (Inr (), put name (put [of_nat (length name)] e)))"

definition writeArrayEnd :: "fenc \<Rightarrow> fenc" where
  "writeArrayEnd e = e"

definition writeStructEnd :: "fenc \<Rightarrow> fenc" where
  "writeStructEnd e = e"

section \<open>The decoder\<close>

record fdec =
  fd_mem :: "byte list"
  fd_pos :: nat
  fd_end :: nat
  version_major :: int
  version_minor :: int
  fd_length_add :: nat

datatype rpc_type =
    RT_End | RT_Int | RT_Bool | RT_Double | RT_String | RT_Time | RT_Binary
  | RT_Struct | RT_Array | RT_MethodName | RT_MethodResponse | RT_FaultResponse

text \<open>
  The constructor leaves the members unset: \<open>junk\<close> is what they hold.  \<open>after\<close> is the rest of the
  block behind the content.
\<close>

definition setContent :: "byte list \<Rightarrow> byte list \<Rightarrow> fdec \<Rightarrow> fdec" where
  "setContent content after d = d\<lparr>fd_mem := content @ after, fd_pos := 0, fd_end := length content\<rparr>"

text \<open>\<^verbatim>\<open>createDecoder\<close> returns an \<^verbatim>\<open>XmlRpcDecoder\<close> when the magic number is missing, here \<open>None\<close>.\<close>

definition createDecoder :: "byte list \<Rightarrow> byte list \<Rightarrow> fdec \<Rightarrow> fdec option" where
  "createDecoder data after junk =
     (if length data \<ge> 2 \<and> take 2 data = [0xCA, 0x11] then Some (setContent data after junk) else None)"

definition peek :: "nat \<Rightarrow> (fdec, byte) smethod" where
  "peek i d = (mem_get (fd_mem d) (fd_pos d + i), d)"

definition next_octet :: "(fdec, byte) smethod" where
  "next_octet d =
     (case mem_get (fd_mem d) (fd_pos d) of
        Inl e \<Rightarrow> (Inl e, d)
      | Inr b \<Rightarrow> (Inr b, d\<lparr>fd_pos := fd_pos d + 1\<rparr>))"

definition octets_at :: "nat \<Rightarrow> nat \<Rightarrow> (fdec, byte list) smethod" where
  "octets_at i n d = (mem_read (fd_mem d) (fd_pos d + i) n, d)"

definition skip_octets :: "nat \<Rightarrow> (fdec, unit) smethod" where
  "skip_octets n d = (Inr (), d\<lparr>fd_pos := fd_pos d + n\<rparr>)"

text \<open>The two forms of the test for the end: \<^verbatim>\<open>pos > end+n\<close> and \<^verbatim>\<open>pos >= end\<close>.\<close>

definition throw_beyond :: "nat \<Rightarrow> string \<Rightarrow> (fdec, unit) smethod" where
  "throw_beyond n what d =
     (if fd_pos d > fd_end d + n then (Inl (EndOfDataException ''char'' what), d) else (Inr (), d))"

definition throw_at_end :: "string \<Rightarrow> (fdec, unit) smethod" where
  "throw_at_end what d =
     (if fd_pos d \<ge> fd_end d then (Inl (EndOfDataException ''char'' what), d) else (Inr (), d))"

definition bad :: "string \<Rightarrow> byte \<Rightarrow> (fdec, 'a) smethod" where
  "bad what type = sthrow (InvalidFormatException what [type])"

definition readGenLength :: "nat \<Rightarrow> (fdec, u64) smethod" where
  "readGenLength length_octets d =
     (let n = length_octets + fd_length_add d in
      sbind (throw_beyond n ''bool'') (\<lambda>_.
      sbind (octets_at 0 n) (\<lambda>src.
      sbind (\<lambda>d. (copyPartialLe (replicate 8 0) 0 8 src n, d)) (\<lambda>len.
      sbind (skip_octets n) (\<lambda>_.
        let l = of_nat (le_value len) in
        if l \<noteq> (ucast l :: u64) then sthrow (OverflowException ''size_t'') else sreturn l)))) d)"

definition kind :: "byte \<Rightarrow> nat" where
  "kind b = unat (drop_bit 3 b)"

definition readHeader :: "(fdec, int) smethod" where
  "readHeader =
     sbind (throw_beyond 5 ''bool'') (\<lambda>_.
     sbind (octets_at 0 2) (\<lambda>magic.
     if magic \<noteq> [0xCA, 0x11] then sthrow (InvalidFormatException ''rpc::header'' (map (of_nat \<circ> of_char) ''unexpected header''))
     else sbind (peek 2) (\<lambda>major.
     sbind (peek 3) (\<lambda>minor.
     sbind (\<lambda>d. (Inr (), d\<lparr>version_major := uint major, version_minor := uint minor,
                          fd_length_add := (if uint major \<ge> 2 then 1 else 0), fd_pos := fd_pos d + 4\<rparr>)) (\<lambda>_.
     sbind (peek 0) (\<lambda>b.
       if kind b = 0xd then sreturn 0
       else if kind b = 0xe then sreturn 1
       else if kind b = 0xf then sreturn 2
       else sthrow (InvalidFormatException ''rpc::header'' (map (of_nat \<circ> of_char) ''unexpected first member''))))))))"

definition type_of_kind :: "nat \<Rightarrow> rpc_type option" where
  "type_of_kind k =
     (if k = 1 \<or> k = 8 \<or> k = 7 then Some RT_Int
      else if k = 2 then Some RT_Bool
      else if k = 3 then Some RT_Double
      else if k = 4 then Some RT_String
      else if k = 5 then Some RT_Time
      else if k = 6 then Some RT_Binary
      else if k = 10 then Some RT_Struct
      else if k = 11 then Some RT_Array
      else if k = 13 then Some RT_MethodName
      else if k = 14 then Some RT_MethodResponse
      else if k = 15 then Some RT_FaultResponse
      else None)"

definition readCheckType :: "(fdec, rpc_type) smethod" where
  "readCheckType d =
     (if fd_pos d \<ge> fd_end d then (Inr RT_End, d)
      else sbind (peek 0) (\<lambda>b. case type_of_kind (kind b) of
             Some t \<Rightarrow> sreturn t
           | None \<Rightarrow> sthrow (InvalidFormatException ''rpc::type'' (map (of_nat \<circ> of_char) ''unknown type''))) d)"

definition take_octets :: "nat \<Rightarrow> (fdec, byte list) smethod" where
  "take_octets n = sbind (octets_at 0 n) (\<lambda>bs. sbind (skip_octets n) (\<lambda>_. sreturn bs))"

definition readMethodName :: "(fdec, byte list) smethod" where
  "readMethodName =
     sbind (throw_beyond 1 ''string'') (\<lambda>_.
     sbind next_octet (\<lambda>type.
     if type \<noteq> 0x68 then bad ''rpc::method::code'' type
     else sbind next_octet (\<lambda>len.
     sbind (throw_beyond (unat len) ''member'') (\<lambda>_. take_octets (unat len)))))"

definition readMethodResponse :: "(fdec, unit) smethod" where
  "readMethodResponse =
     sbind (throw_beyond 1 ''string'') (\<lambda>_.
     sbind next_octet (\<lambda>type.
     if type \<noteq> 0x70 then bad ''rpc::methodresponse::code'' type else sreturn ()))"

text \<open>
  \<^verbatim>\<open>value += (T)*pos++<<i\<close> for the octets that are left, \<open>i\<close> the shift of the next one; then the sign
  extension of the first protocol version, whose shift by the whole width (no octets at all) is
  undefined.
\<close>

fun int_loop :: "nat \<Rightarrow> nat \<Rightarrow> 'a::len word \<Rightarrow> (fdec, 'a word) smethod" where
  "int_loop 0 i value = sreturn value"
| "int_loop (Suc n) i value = sbind next_octet (\<lambda>b. int_loop n (i + 8) (value + push_bit i (ucast b)))"

definition sign_extend :: "nat \<Rightarrow> 'a::len word \<Rightarrow> (fdec, 'a word) smethod" where
  "sign_extend octets value =
     (let k = LENGTH('a) - 8 * octets in
      if k \<ge> LENGTH('a) then sthrow Undefined
      else sreturn (value OR signed_drop_bit k (push_bit k value)))"

definition throw_short :: "nat \<Rightarrow> string \<Rightarrow> (fdec, unit) smethod" where
  "throw_short octets what d =
     (if fd_pos d + octets > fd_end d then (Inl (EndOfDataException ''char'' what), d) else (Inr (), d))"

definition readInt32 :: "(fdec, u32) smethod" where
  "readInt32 =
     sbind (throw_at_end ''int size'') (\<lambda>_.
     sbind next_octet (\<lambda>type d.
       if kind type = 1 then
         (let octets = unat (type AND 7) in
          if octets > 4 then (Inl (OverflowException ''rpc::int32''), d)
          else sbind (throw_short octets ''int32'') (\<lambda>_.
               sbind (int_loop octets 0 0) (sign_extend octets)) d)
       else if kind type = 7 then
         (let octets = unat (type AND 7) + fd_length_add d in
          if octets > 4 then (Inl (OverflowException ''rpc::int32''), d)
          else sbind (throw_short octets ''int32'') (\<lambda>_. int_loop octets 0 0) d)
       else if kind type = 8 then
         (let octets = unat (type AND 7) + fd_length_add d in
          if octets > 4 then (Inl (OverflowException ''rpc::int32''), d)
          else sbind (throw_short octets ''int32'') (\<lambda>_.
               sbind (int_loop octets 0 0) (\<lambda>value. sreturn (- value))) d)
       else bad ''rpc::int::code'' type d))"

definition readInt64 :: "(fdec, u64) smethod" where
  "readInt64 =
     sbind (throw_at_end ''int size'') (\<lambda>_.
     sbind next_octet (\<lambda>type d.
       if kind type = 1 then
         (let octets = unat (type AND 7) in
          if octets > 8 then (Inl (OverflowException ''rpc::int64''), d)
          else sbind (throw_short octets ''int64'') (\<lambda>_.
               sbind (int_loop octets 0 0) (sign_extend octets)) d)
       else if kind type = 7 then
         (let octets = unat (type AND 7) + fd_length_add d in
          sbind (throw_short octets ''int64'') (\<lambda>_. int_loop octets 0 0) d)
       else if kind type = 8 then
         (let octets = unat (type AND 7) + fd_length_add d in
          sbind (throw_short octets ''int64'') (\<lambda>_.
          sbind (int_loop octets 0 0) (\<lambda>value. sreturn (- value))) d)
       else bad ''rpc::int::code'' type d))"

definition readBool :: "(fdec, bool) smethod" where
  "readBool =
     sbind (throw_at_end ''bool'') (\<lambda>_.
     sbind next_octet (\<lambda>type.
     if type AND NOT 1 \<noteq> 0x10 then bad ''rpc::bool::code'' type else sreturn (type AND 1 \<noteq> 0)))"

definition readDouble :: "(fdec, u64) smethod" where
  "readDouble =
     sbind (throw_beyond 9 ''bool'') (\<lambda>_.
     sbind next_octet (\<lambda>type.
     if type \<noteq> 0x18 then bad ''rpc::double::code'' type
     else sbind (take_octets 8) (\<lambda>src.
          sbind (\<lambda>d. (copyLe (replicate 8 0) 0 src 8, d)) (\<lambda>value. sreturn (of_nat (le_value value))))))"

definition readString :: "(fdec, byte list) smethod" where
  "readString =
     sbind (throw_at_end ''string'') (\<lambda>_.
     sbind next_octet (\<lambda>type.
     if type AND 0xf8 \<noteq> 0x20 then bad ''rpc::string::code'' type
     else sbind (readGenLength (unat (type AND 7))) (\<lambda>str_len.
          sbind (throw_beyond (unat str_len) ''string'') (\<lambda>_. take_octets (unat str_len)))))"

definition readBinary :: "(fdec, byte list) smethod" where
  "readBinary =
     sbind (throw_at_end ''string'') (\<lambda>_.
     sbind next_octet (\<lambda>type.
     if type AND 0xf8 \<noteq> 0x30 then bad ''rpc::string::code'' type
     else sbind (readGenLength (unat (type AND 7))) (\<lambda>str_len.
          sbind (throw_beyond (unat str_len) ''string'') (\<lambda>_. take_octets (unat str_len)))))"

definition readFaultResponse :: "(fdec, u64 \<times> byte list) smethod" where
  "readFaultResponse =
     sbind (throw_beyond 1 ''string'') (\<lambda>_.
     sbind next_octet (\<lambda>type.
     if type \<noteq> 0x78 then bad ''rpc::faultresponse::code'' type
     else sbind readInt64 (\<lambda>code. sbind readString (\<lambda>message. sreturn (code, message)))))"

text \<open>The calendar fields of the ten octets \<^verbatim>\<open>pos[0]\<close> to \<^verbatim>\<open>pos[9]\<close>.\<close>

definition unpack_calendar :: "byte list \<Rightarrow> calendar" where
  "unpack_calendar p =
     (let p5 = ucast (p ! 5); p6 = ucast (p ! 6); p7 = ucast (p ! 7); p8 = ucast (p ! 8); p9 = ucast (p ! 9) in
      (1600 + (push_bit 3 p9 OR drop_bit 5 p8), drop_bit 1 (p8 AND 0x1e) - 1,
       (push_bit 4 (p8 AND 1) OR drop_bit 4 p7) - 1, push_bit 1 (p7 AND 0xf) OR drop_bit 7 p6,
       drop_bit 1 (p6 AND 0x7e), push_bit 5 (p6 AND 0x01) OR drop_bit 3 (p5 AND 0xf8)))"

definition readTime :: "timegm \<Rightarrow> (fdec, u64) smethod" where
  "readTime timegm =
     sbind (throw_at_end ''time'') (\<lambda>_.
     sbind next_octet (\<lambda>type.
     if type \<noteq> 0x28 then bad ''rpc::time::code'' type
     else sbind (throw_beyond 10 ''string'') (\<lambda>_.
     sbind (octets_at 1 4) (\<lambda>src.
     sbind (\<lambda>d. (copyPartialLe (replicate 8 0) 0 8 src 4, d)) (\<lambda>v.
     let value = of_nat (le_value v) in
     sbind (if value = 0
            then sbind (octets_at 0 10) (\<lambda>p.
                   let (year, mon, day, hour, mi, sec) = unpack_calendar p in
                   sreturn (convertUtcTime timegm year mon day hour mi sec (ucast (p ! 0) * 15)))
            else sreturn (fromSeconds value)) (\<lambda>result.
     sbind (skip_octets 10) (\<lambda>_. sreturn result)))))))"

definition readStructLength :: "(fdec, u64) smethod" where
  "readStructLength =
     sbind (throw_at_end ''string'') (\<lambda>_.
     sbind next_octet (\<lambda>type.
     if type AND 0xf8 \<noteq> 0x50 then bad ''rpc::struct::code'' type else readGenLength (unat (type AND 7))))"

definition readArrayLength :: "(fdec, u64) smethod" where
  "readArrayLength =
     sbind (throw_at_end ''string'') (\<lambda>_.
     sbind next_octet (\<lambda>type.
     if type AND 0xf8 \<noteq> 0x58 then bad ''rpc::array::code'' type else readGenLength (unat (type AND 7))))"

definition readMemberName :: "(fdec, byte list) smethod" where
  "readMemberName =
     sbind (throw_at_end ''string'') (\<lambda>_.
     sbind next_octet (\<lambda>len.
     sbind (throw_beyond (unat len) ''member'') (\<lambda>_. take_octets (unat len))))"

definition checkArrayNext :: "u64 \<Rightarrow> bool \<times> u64" where
  "checkArrayNext count = (sint (count - 1) \<ge> 0, count - 1)"

definition checkStructNext :: "u64 \<Rightarrow> bool \<times> u64" where
  "checkStructNext count = (sint (count - 1) \<ge> 0, count - 1)"

section \<open>Whole values\<close>

text \<open>
  What \<^verbatim>\<open>RpcDecoder::readVariant\<close> returns: a \<^verbatim>\<open>Variant\<close>, or \<^verbatim>\<open>NULL\<close> for the elements that are not
  values.  The \<^verbatim>\<open>RHash\<close> of a structure is the association list of its entries, in the order of
  their creation; storing under a name that is present replaces the value.
\<close>

datatype variant =
    V_Null
  | V_Int u64
  | V_Bool bool
  | V_Double u64
  | V_String "byte list"
  | V_Time u64
  | V_Binary "byte list"
  | V_Struct "(byte list \<times> variant) list"
  | V_Array "variant list"

lemma checkNext_less: "sint ((count :: u64) - 1) \<ge> 0 \<Longrightarrow> unat (count - 1) < unat count"
proof -
  assume h: "sint (count - 1) \<ge> 0"
  then have "count \<noteq> 0" by auto
  then show ?thesis by (simp add: unat_minus_one unat_gt_0)
qed

function struct_loop :: "(fdec, variant) smethod \<Rightarrow> u64 \<Rightarrow> (byte list \<times> variant) list \<Rightarrow> (fdec, (byte list \<times> variant) list) smethod" where
  "struct_loop rd count struc d =
     (case checkStructNext count of (again, count') \<Rightarrow>
      if again then sbind readMemberName (\<lambda>name. sbind rd (\<lambda>v. struct_loop rd count' (AList.update name v struc))) d
      else (Inr struc, d))"
  by pat_completeness auto
termination
  by (relation "measure (\<lambda>(rd, count, struc, d). unat count)") (auto simp: checkStructNext_def dest: checkNext_less)

function array_loop :: "(fdec, variant) smethod \<Rightarrow> u64 \<Rightarrow> variant list \<Rightarrow> (fdec, variant list) smethod" where
  "array_loop rd count list d =
     (case checkArrayNext count of (again, count') \<Rightarrow>
      if again then sbind rd (\<lambda>v. array_loop rd count' (list @ [v])) d
      else (Inr list, d))"
  by pat_completeness auto
termination
  by (relation "measure (\<lambda>(rd, count, list, d). unat count)") (auto simp: checkArrayNext_def dest: checkNext_less)

declare struct_loop.simps [simp del] array_loop.simps [simp del]

text \<open>The switch of \<^verbatim>\<open>readVariant\<close>, with the recursive call as an argument.\<close>

definition variant_switch :: "timegm \<Rightarrow> (fdec, variant) smethod \<Rightarrow> rpc_type \<Rightarrow> (fdec, variant) smethod" where
  "variant_switch timegm rec type =
     (case type of
       RT_End \<Rightarrow> sthrow (EndOfDataException ''type'' ''type'')
     | RT_Int \<Rightarrow> sbind readInt64 (\<lambda>v. sreturn (V_Int v))
     | RT_Bool \<Rightarrow> sbind readBool (\<lambda>v. sreturn (V_Bool v))
     | RT_Double \<Rightarrow> sbind readDouble (\<lambda>v. sreturn (V_Double v))
     | RT_String \<Rightarrow> sbind readString (\<lambda>v. sreturn (V_String v))
     | RT_Time \<Rightarrow> sbind (readTime timegm) (\<lambda>v. sreturn (V_Time v))
     | RT_Binary \<Rightarrow> sbind readBinary (\<lambda>v. sreturn (V_Binary v))
     | RT_Struct \<Rightarrow> sbind readStructLength (\<lambda>num_members.
                     sbind (struct_loop rec num_members []) (\<lambda>struc. sreturn (V_Struct struc)))
     | RT_Array \<Rightarrow> sbind readArrayLength (\<lambda>num_members.
                    sbind (array_loop rec num_members []) (\<lambda>list. sreturn (V_Array list)))
     | RT_MethodName \<Rightarrow> sreturn V_Null
     | RT_MethodResponse \<Rightarrow> sreturn V_Null
     | RT_FaultResponse \<Rightarrow> sreturn V_Null)"

text \<open>The recursion on nested values is bounded by the number of octets: each level reads one.\<close>

primrec readVariant_rec :: "timegm \<Rightarrow> nat \<Rightarrow> (fdec, variant) smethod" where
  "readVariant_rec timegm 0 = sthrow Diverges"
| "readVariant_rec timegm (Suc depth) = sbind readCheckType (variant_switch timegm (readVariant_rec timegm depth))"

definition readVariant :: "timegm \<Rightarrow> (fdec, variant) smethod" where
  "readVariant timegm d = readVariant_rec timegm (Suc (length (fd_mem d) - fd_pos d)) d"

primrec skip_loop :: "(fdec, unit) smethod \<Rightarrow> nat \<Rightarrow> (fdec, unit) smethod" where
  "skip_loop body 0 = sreturn ()"
| "skip_loop body (Suc n) = sbind body (\<lambda>_. skip_loop body n)"

definition skip_switch :: "timegm \<Rightarrow> (fdec, unit) smethod \<Rightarrow> byte \<Rightarrow> (fdec, unit) smethod" where
  "skip_switch timegm rec b =
     (case type_of_kind (kind b) of
       None \<Rightarrow> sthrow (InvalidFormatException ''rpc::type'' (map (of_nat \<circ> of_char) ''unknown type''))
     | Some type \<Rightarrow> (case type of
         RT_End \<Rightarrow> sthrow Unreachable
       | RT_Int \<Rightarrow> sbind readInt64 (\<lambda>_. sreturn ())
       | RT_Bool \<Rightarrow> sbind readBool (\<lambda>_. sreturn ())
       | RT_Double \<Rightarrow> sbind readDouble (\<lambda>_. sreturn ())
       | RT_String \<Rightarrow> sbind readString (\<lambda>_. sreturn ())
       | RT_Time \<Rightarrow> sbind (readTime timegm) (\<lambda>_. sreturn ())
       | RT_Binary \<Rightarrow> sbind readBinary (\<lambda>_. sreturn ())
       | RT_Struct \<Rightarrow> sbind readStructLength (\<lambda>sc. skip_loop (sbind readMemberName (\<lambda>_. rec)) (unat sc))
       | RT_Array \<Rightarrow> sbind readArrayLength (\<lambda>ac. skip_loop rec (unat ac))
       | RT_MethodName \<Rightarrow> sbind readMethodName (\<lambda>_. sreturn ())
       | RT_MethodResponse \<Rightarrow> readMethodResponse
       | RT_FaultResponse \<Rightarrow> sbind readFaultResponse (\<lambda>_. sreturn ())))"

primrec readSkip_rec :: "timegm \<Rightarrow> nat \<Rightarrow> (fdec, unit) smethod" where
  "readSkip_rec timegm 0 = sthrow Diverges"
| "readSkip_rec timegm (Suc depth) = sbind (peek 0) (skip_switch timegm (readSkip_rec timegm depth))"

definition readSkip :: "timegm \<Rightarrow> (fdec, unit) smethod" where
  "readSkip timegm d = readSkip_rec timegm (Suc (length (fd_mem d) - fd_pos d)) d"

section \<open>Scalars by pointer\<close>

text \<open>
  \<^verbatim>\<open>ScalarPtr\<close> is a type and the address of a variable; a constructor below is the type with the
  content of the variable, \<^verbatim>\<open>double\<close> as its octets and \<^verbatim>\<open>long double\<close> by the octets of its block.
  \<^verbatim>\<open>T_Object\<close> holds the address of an object pointer, which the source uses as the address of the
  object.  \<open>widen\<close> and \<open>narrow\<close> are the conversions between \<^verbatim>\<open>float\<close> and \<^verbatim>\<open>double\<close>.
\<close>

datatype scalar =
    T_None | T_Bool bool
  | T_Sint8 byte | T_Sint16 u16 | T_Sint32 u32 | T_Sint64 u64
  | T_Uint8 byte | T_Uint16 u16 | T_Uint32 u32 | T_Uint64 u64
  | T_Float u32 | T_Double u64 | T_LongDouble "byte list"
  | T_String "byte list" | T_Blob "byte list" | T_Object

definition writeValue :: "(u32 \<Rightarrow> u64) \<Rightarrow> scalar \<Rightarrow> (fenc, unit) smethod" where
  "writeValue widen value e =
     (case value of
        T_None \<Rightarrow> (Inl AssertFailed, e)
      | T_Bool b \<Rightarrow> (Inr (), writeBool b e)
      | T_Sint8 v \<Rightarrow> (Inr (), writeInt32 (scast v) e)
      | T_Sint16 v \<Rightarrow> (Inr (), writeInt32 (scast v) e)
      | T_Sint32 v \<Rightarrow> (Inr (), writeInt32 v e)
      | T_Sint64 v \<Rightarrow> (Inr (), writeInt64 v e)
      | T_Uint8 v \<Rightarrow> (Inr (), writeInt32 (scast v) e)
      | T_Uint16 v \<Rightarrow> (Inr (), writeInt32 (scast v) e)
      | T_Uint32 v \<Rightarrow> (Inr (), writeInt32 v e)
      | T_Uint64 v \<Rightarrow> (Inr (), writeInt64 v e)
      | T_Float f \<Rightarrow> (Inr (), writeDouble (widen f) e)
      | T_Double v \<Rightarrow> (Inr (), writeDouble (widen (ucast v)) e)
      | T_LongDouble bs \<Rightarrow> (case mem_read bs 0 4 of
            Inl ex \<Rightarrow> (Inl ex, e)
          | Inr f \<Rightarrow> (Inr (), writeDouble (widen (of_nat (le_value f))) e))
      | T_String s \<Rightarrow> (Inr (), writeString s e)
      | T_Blob s \<Rightarrow> (Inr (), writeBinary s e)
      | T_Object \<Rightarrow> (Inl Undefined, e))"

text \<open>\<^verbatim>\<open>readValue\<close> stores into the variable: the result is the scalar with its new content.\<close>

definition readValue :: "timegm \<Rightarrow> (u64 \<Rightarrow> u32) \<Rightarrow> scalar \<Rightarrow> (fdec, scalar) smethod" where
  "readValue timegm narrow value =
     (case value of
        T_None \<Rightarrow> sbind (readSkip timegm) (\<lambda>_. sreturn T_None)
      | T_Bool _ \<Rightarrow> sbind readBool (\<lambda>b. sreturn (T_Bool b))
      | T_Sint8 _ \<Rightarrow> sbind readInt32 (\<lambda>v. sreturn (T_Sint8 (ucast v)))
      | T_Sint16 _ \<Rightarrow> sbind readInt32 (\<lambda>v. sreturn (T_Sint16 (ucast v)))
      | T_Sint32 _ \<Rightarrow> sbind readInt32 (\<lambda>v. sreturn (T_Sint32 v))
      | T_Sint64 _ \<Rightarrow> sbind readInt64 (\<lambda>v. sreturn (T_Sint64 v))
      | T_Uint8 _ \<Rightarrow> sbind readInt32 (\<lambda>v. sreturn (T_Uint8 (ucast v)))
      | T_Uint16 _ \<Rightarrow> sbind readInt32 (\<lambda>v. sreturn (T_Uint16 (ucast v)))
      | T_Uint32 _ \<Rightarrow> sbind readInt32 (\<lambda>v. sreturn (T_Uint32 v))
      | T_Uint64 _ \<Rightarrow> sbind readInt64 (\<lambda>v. sreturn (T_Uint64 v))
      | T_Float _ \<Rightarrow> sbind readDouble (\<lambda>v. sreturn (T_Float (narrow v)))
      | T_Double old \<Rightarrow> sbind readDouble (\<lambda>v. sreturn (T_Double (push_bit 32 (drop_bit 32 old) OR ucast (narrow v))))
      | T_LongDouble old \<Rightarrow> sbind readDouble (\<lambda>v. sbind (\<lambda>d. (mem_write old 0 (le_bytes 4 (unat (narrow v))), d)) (\<lambda>bs. sreturn (T_LongDouble bs)))
      | T_String _ \<Rightarrow> sbind readString (\<lambda>s. sreturn (T_String s))
      | T_Blob _ \<Rightarrow> sbind readBinary (\<lambda>s. sreturn (T_Blob s))
      | T_Object \<Rightarrow> sthrow Undefined)"

end
