(* ===== verification/Drt_FastRpc_Wire.thy ===== *)
theory Drt_FastRpc_Wire
  imports Drt_FastRpc
begin

unbundle bit_operations_syntax

text \<open>
  The binary protocol proved: a calculus for what a read does to the octets at the read position
  (\<open>decodes\<close>), the wire format of protocol version 2 as a reference definition, that the encoder
  writes it and the decoder reads it, and that the decoder ends on every input.
\<close>

section \<open>Decoding what is at the read position\<close>

definition holds :: "fdec \<Rightarrow> byte list \<Rightarrow> bool" where
  "holds d bs \<longleftrightarrow> take (length bs) (drop (fd_pos d) (fd_mem d)) = bs \<and>
     fd_pos d + length bs \<le> fd_end d \<and> fd_end d \<le> length (fd_mem d)"

definition adv :: "nat \<Rightarrow> fdec \<Rightarrow> fdec" where
  "adv n d = d\<lparr>fd_pos := fd_pos d + n\<rparr>"

lemma adv_sel [simp]:
  "fd_mem (adv n d) = fd_mem d" "fd_pos (adv n d) = fd_pos d + n" "fd_end (adv n d) = fd_end d"
  "fd_length_add (adv n d) = fd_length_add d"
  by (simp_all add: adv_def)

lemma adv_adv [simp]: "adv n (adv m d) = adv (m + n) d"
  by (simp add: adv_def add.assoc)

lemma adv_0 [simp]: "adv 0 d = d"
  by (simp add: adv_def)

lemma holds_append: "holds d (a @ b) \<longleftrightarrow> holds d a \<and> holds (adv (length a) d) b"
proof -
  have "take (length a + length b) xs = a @ b \<longleftrightarrow> take (length a) xs = a \<and> take (length b) (drop (length a) xs) = b"
    if "length a + length b \<le> length xs" for xs :: "byte list"
    using that by (auto simp: take_add append_eq_append_conv)
  from this[of "drop (fd_pos d) (fd_mem d)"] show ?thesis
    by (auto simp: holds_def add.commute)
qed

lemma holds_Cons:
  "holds d (x # bs) \<longleftrightarrow> fd_pos d < fd_end d \<and> fd_end d \<le> length (fd_mem d) \<and> fd_mem d ! fd_pos d = x \<and> holds (adv 1 d) bs"
  using holds_append[of d "[x]" bs] by (auto simp: holds_def take_Suc_conv_app_nth hd_drop_conv_nth)

definition decodes :: "(fdec, 'a) smethod \<Rightarrow> byte list \<Rightarrow> 'a \<Rightarrow> bool" where
  "decodes m bs x \<longleftrightarrow> (\<forall>d. fd_length_add d = 1 \<longrightarrow> holds d bs \<longrightarrow> m d = (Inr x, adv (length bs) d))"

lemma decodesI: "(\<And>d. fd_length_add d = 1 \<Longrightarrow> holds d bs \<Longrightarrow> m d = (Inr x, adv (length bs) d)) \<Longrightarrow> decodes m bs x"
  by (simp add: decodes_def)

lemma decodesD: "decodes m bs x \<Longrightarrow> fd_length_add d = 1 \<Longrightarrow> holds d bs \<Longrightarrow> m d = (Inr x, adv (length bs) d)"
  by (simp add: decodes_def)

lemma decodes_return [intro]: "decodes (sreturn x) [] x"
  by (simp add: decodes_def sreturn_def)

lemma decodes_bind: "decodes m a x \<Longrightarrow> decodes (f x) b y \<Longrightarrow> decodes (sbind m f) (a @ b) y"
  by (auto simp: decodes_def holds_append sbind_def)

lemma decodes_map: "decodes m bs x \<Longrightarrow> decodes (sbind m (\<lambda>v. sreturn (g v))) bs (g x)"
  using decodes_bind[of m bs x "\<lambda>v. sreturn (g v)" "[]"] decodes_return by fastforce

lemma decodes_guard:
  "(\<And>d. holds d bs \<Longrightarrow> g d = (Inr (), d)) \<Longrightarrow> decodes (f ()) bs y \<Longrightarrow> decodes (sbind g f) bs y"
  by (auto simp: decodes_def sbind_def)

lemma decodes_pure: "decodes (f x) bs y \<Longrightarrow> decodes (sbind (\<lambda>d. (Inr x, d)) f) bs y"
  by (simp add: decodes_def sbind_def)

lemma decodes_octet: "decodes (f x) bs y \<Longrightarrow> decodes (sbind next_octet f) (x # bs) y"
  by (auto simp: decodes_def sbind_def next_octet_def holds_Cons adv_def)

lemma holds_pos: "holds d bs \<Longrightarrow> fd_pos d \<le> fd_end d"
  by (simp add: holds_def)

lemma throw_beyond_passes: "holds d bs \<Longrightarrow> throw_beyond n w d = (Inr (), d)"
  by (auto simp: throw_beyond_def dest: holds_pos)

lemma throw_at_end_passes: "holds d (x # bs) \<Longrightarrow> throw_at_end w d = (Inr (), d)"
  by (simp add: throw_at_end_def holds_Cons)

lemma throw_short_passes: "holds d bs \<Longrightarrow> throw_short (length bs) w d = (Inr (), d)"
  by (simp add: throw_short_def holds_def)

lemma octets_at_holds: "holds d bs \<Longrightarrow> octets_at 0 (length bs) d = (Inr bs, d)"
  by (auto simp: octets_at_def mem_read_def holds_def)

lemma take_octets_decodes: "decodes (take_octets (length bs)) bs bs"
  by (rule decodesI) (simp add: take_octets_def sbind_def octets_at_holds skip_octets_def sreturn_def adv_def)

lemma beyond_decodes: "decodes (f ()) bs y \<Longrightarrow> decodes (sbind (throw_beyond n w) f) bs y"
  by (rule decodes_guard) (rule throw_beyond_passes)

lemma at_end_decodes: "decodes (f ()) (x # bs) y \<Longrightarrow> decodes (sbind (throw_at_end w) f) (x # bs) y"
  by (rule decodes_guard) (rule throw_at_end_passes)

lemma short_decodes: "n = length bs \<Longrightarrow> decodes (f ()) bs y \<Longrightarrow> decodes (sbind (throw_short n w) f) bs y"
  by (auto intro: decodes_guard throw_short_passes)

section \<open>Integers and lengths\<close>

lemma int_loop_decodes: "decodes (int_loop (length bs) i v) bs (v + push_bit i (of_nat (le_value bs)))"
proof (induction bs arbitrary: i v)
  case Nil
  then show ?case by (simp add: decodes_return)
next
  case (Cons b bs)
  have u: "(ucast b :: 'a word) = of_nat (unat b)"
    by simp
  have e: "v + push_bit i (ucast b) + push_bit (i + 8) (of_nat (le_value bs)) = v + push_bit i (of_nat (le_value (b # bs)))"
    unfolding le_value.simps push_bit_eq_mult power_add of_nat_add of_nat_mult u by (simp add: algebra_simps)
  have "decodes (int_loop (Suc (length bs)) i v) (b # bs) (v + push_bit i (ucast b) + push_bit (i + 8) (of_nat (le_value bs)))"
    by (simp) (rule decodes_octet, rule Cons.IH)
  then show ?case by (simp only: e length_Cons)
qed

lemma octets_le_bytes: "map (\<lambda>i. ucast (drop_bit (8 * i) (len :: u64))) [0..<8] = (le_bytes 8 (unat len) :: byte list)"
  by (simp add: write_octets upt_rec)

text \<open>
  The wire format of protocol version 2: a magnitude takes the least of 1, 2, 4 and 8 octets that
  hold it, and the low bits of the type octet are their number less one.
\<close>

definition width :: "nat \<Rightarrow> nat" where
  "width m = (if m < 2 ^ 8 then 1 else if m < 2 ^ 16 then 2 else if m < 2 ^ 32 then 4 else 8)"

definition sized :: "nat \<Rightarrow> nat \<Rightarrow> byte list" where
  "sized base m = of_nat (base + width m - 1) # le_bytes (width m) m"

definition int_octets :: "int \<Rightarrow> byte list" where
  "int_octets i = sized (if i < 0 then 0x40 else 0x38) (nat \<bar>i\<bar>)"

definition emits :: "(fenc \<Rightarrow> fenc) \<Rightarrow> byte list \<Rightarrow> bool" where
  "emits f bs \<longleftrightarrow> (\<forall>e. fe_length_add e = 1 \<longrightarrow> f e = put bs e)"

lemma emitsD: "emits f bs \<Longrightarrow> fe_length_add e = 1 \<Longrightarrow> f e = put bs e"
  by (simp add: emits_def)

lemma put_sel [simp]: "fe_length_add (put bs e) = fe_length_add e" "fe_content (put bs e) = fe_content e @ bs"
  by (simp_all add: put_def)

lemma put_put [simp]: "put b (put a e) = put (a @ b) e"
  by (simp add: put_def)

lemma width_cases:
  obtains "width m = 1" "m < 256" | "width m = 2" "256 \<le> m" "m < 65536" | "width m = 4" "65536 \<le> m" "m < 4294967296"
    | "width m = 8" "4294967296 \<le> m"
  by (cases "m < 256"; cases "m < 65536"; cases "m < 4294967296") (auto simp: width_def)

lemma width_bound: "m < 2 ^ 64 \<Longrightarrow> m < 256 ^ width m"
  by (auto simp: width_def)

lemma le_value_sized: "m < 2 ^ 64 \<Longrightarrow> le_value (le_bytes (width m) m) = m"
  by (simp add: le_value_le_bytes width_bound)

lemma unat_nonneg: "0 \<le> sint (w :: 'a::len word) \<Longrightarrow> unat w = nat (sint w)"
proof -
  assume "0 \<le> sint w"
  moreover have "sint w < 2 ^ LENGTH('a)"
    using sint_lt[of w] by (rule less_le_trans) simp
  ultimately have "uint w = sint w"
    by (simp add: uint_sint take_bit_int_eq_self)
  then show ?thesis by (metis nat_uint_eq)
qed

lemma sint_minus_u64: "sint (v :: u64) \<noteq> - (2 ^ 63) \<Longrightarrow> sint (- v) = - sint v"
  using sint_u64_range[of v] by (simp add: sint_word_ariths signed_take_bit_int_eq_self)

lemma sint_minus_u32: "sint (v :: u32) \<noteq> - (2 ^ 31) \<Longrightarrow> sint (- v) = - sint v"
  using sint_ge[of v] sint_lt[of v] by (simp add: sint_word_ariths signed_take_bit_int_eq_self)

definition base_ok :: "nat \<Rightarrow> bool" where
  "base_ok base \<longleftrightarrow> base \<in> {0x20, 0x30, 0x38, 0x40, 0x50, 0x58}"

lemma base_type:
  assumes "base_ok base" "width m = n"
  shows "unat ((of_nat (base + n - 1) :: byte) AND 7) = n - 1"
    and "kind (of_nat (base + n - 1)) = base div 8"
    and "(of_nat (base + n - 1) :: byte) AND 0xf8 = of_nat base"
  using assms by (cases m rule: width_cases; auto simp: base_ok_def kind_def)+

lemma take_sized:
  assumes "base_ok base" "width m \<le> k"
  shows "take (unat ((of_nat (base + width m - 1) :: byte) AND 7) + 2) (of_nat (base + width m - 1) # le_bytes k m) = sized base m"
proof -
  have "0 < width m" by (simp add: width_def)
  then show ?thesis
    using base_type(1)[OF assms(1) refl, of m] assms(2) by (simp add: sized_def take_le_bytes)
qed

lemma int64_type_eq:
  assumes "sint v \<noteq> - (2 ^ 63)"
  shows "int64_type 1 v = (of_nat ((if sint v < 0 then 0x40 else 0x38) + width (nat \<bar>sint v\<bar>) - 1), if sint v < 0 then - v else v)"
    and "unat (if sint v < 0 then - v else v) = nat \<bar>sint v\<bar>"
proof -
  define m where "m = nat \<bar>sint v\<bar>"
  have s: "sint v < 0 \<Longrightarrow> sint (- v) = int m" "\<not> sint v < 0 \<Longrightarrow> sint v = int m"
    using sint_minus_u64[OF assms] by (simp_all add: m_def)
  show "int64_type 1 v = (of_nat ((if sint v < 0 then 0x40 else 0x38) + width (nat \<bar>sint v\<bar>) - 1), if sint v < 0 then - v else v)"
    unfolding m_def[symmetric] using s
    by (cases "sint v < 0"; cases m rule: width_cases) (simp_all add: int64_type_def)
  show "unat (if sint v < 0 then - v else v) = nat \<bar>sint v\<bar>"
    using s unat_nonneg[of v] unat_nonneg[of "- v"] by (simp add: m_def)
qed

lemma width_le_8: "width m \<le> 8" and width_le_4: "m < 2 ^ 32 \<Longrightarrow> width m \<le> 4" and width_pos: "0 < width m"
  by (simp_all add: width_def)

lemma emits_int64:
  assumes "sint v \<noteq> - (2 ^ 63)" shows "emits (writeInt64 v) (int_octets (sint v))"
  unfolding emits_def
proof (intro allI impI)
  fix e :: fenc assume e: "fe_length_add e = 1"
  define base :: nat where "base = (if sint v < 0 then 0x40 else 0x38)"
  note t = int64_type_eq[OF assms, folded base_def]
  have "base_ok base" by (simp add: base_def base_ok_def)
  then show "writeInt64 v e = put (int_octets (sint v)) e"
    unfolding writeInt64_def Let_def e t case_prod_conv int_octets_def base_def[symmetric]
    using take_sized[of base "nat \<bar>sint v\<bar>" 8] width_le_8 by simp
qed

lemma int32_type_eq:
  assumes "sint v \<noteq> - (2 ^ 31)"
  shows "int32_type 1 v = (of_nat ((if sint v < 0 then 0x40 else 0x38) + width (nat \<bar>sint v\<bar>) - 1), if sint v < 0 then - v else v)"
    and "unat (if sint v < 0 then - v else v) = nat \<bar>sint v\<bar>"
    and "nat \<bar>sint v\<bar> < 2 ^ 32"
proof -
  define m where "m = nat \<bar>sint v\<bar>"
  have s: "sint v < 0 \<Longrightarrow> sint (- v) = int m" "\<not> sint v < 0 \<Longrightarrow> sint v = int m"
    using sint_minus_u32[OF assms] by (simp_all add: m_def)
  show r: "nat \<bar>sint v\<bar> < 2 ^ 32"
    using sint_ge[of v] sint_lt[of v] by (simp add: nat_less_iff)
  show "int32_type 1 v = (of_nat ((if sint v < 0 then 0x40 else 0x38) + width (nat \<bar>sint v\<bar>) - 1), if sint v < 0 then - v else v)"
    using r unfolding m_def[symmetric] using s
    by (cases "sint v < 0"; cases m rule: width_cases) (simp_all add: int32_type_def)
  show "unat (if sint v < 0 then - v else v) = nat \<bar>sint v\<bar>"
    using s unat_nonneg[of v] unat_nonneg[of "- v"] by (simp add: m_def)
qed

lemma emits_int32:
  assumes "sint v \<noteq> - (2 ^ 31)" shows "emits (writeInt32 v) (int_octets (sint v))"
  unfolding emits_def
proof (intro allI impI)
  fix e :: fenc assume e: "fe_length_add e = 1"
  define base :: nat where "base = (if sint v < 0 then 0x40 else 0x38)"
  note t = int32_type_eq[OF assms, folded base_def]
  have "base_ok base" by (simp add: base_def base_ok_def)
  then show "writeInt32 v e = put (int_octets (sint v)) e"
    unfolding writeInt32_def Let_def e t(1,2) case_prod_conv int_octets_def base_def[symmetric]
    using take_sized[of base "nat \<bar>sint v\<bar>" 4] width_le_4[OF t(3)] by simp
qed

lemma sized_loop_decodes:
  "m < 2 ^ 64 \<Longrightarrow> decodes (int_loop (width m) 0 0) (le_bytes (width m) m) (of_nat m)"
  using int_loop_decodes[of "le_bytes (width m) m" 0 0] by (simp add: le_value_sized)

lemma sized_type:
  assumes "base_ok base"
  obtains t where "sized base m = t # le_bytes (width m) m" "unat (t AND 7) + 1 = width m" "kind t = base div 8"
    "t AND 0xf8 = of_nat base"
  using that base_type[OF assms refl, of m] width_pos[of m] by (auto simp: sized_def)

text \<open>The body of a read after the type octet may look at the version, which is fixed.\<close>

lemma decodes_octet':
  "(\<And>d. fd_length_add d = 1 \<Longrightarrow> f x d = g d) \<Longrightarrow> decodes g bs y \<Longrightarrow> decodes (sbind next_octet f) (x # bs) y"
  by (auto simp: decodes_def sbind_def next_octet_def holds_Cons adv_def)

lemma of_nat_abs:
  "0 \<le> i \<Longrightarrow> (of_nat (nat \<bar>i\<bar>) :: 'a::len word) = word_of_int i"
  "i < 0 \<Longrightarrow> - (of_nat (nat \<bar>i\<bar>) :: 'a::len word) = word_of_int i"
  by (simp_all add: of_nat_nat)

lemma readInt64_decodes:
  assumes "\<bar>i\<bar> < 2 ^ 64" shows "decodes readInt64 (int_octets i) (word_of_int i)"
proof -
  let ?m = "nat \<bar>i\<bar>"
  have m: "?m < 2 ^ 64" using assms by (simp add: nat_less_iff)
  note loop = short_decodes[OF _ sized_loop_decodes[OF m, where ?'a = 64]]
  note loop_neg = short_decodes[OF _ decodes_map[OF sized_loop_decodes[OF m, where ?'a = 64]]]
  show ?thesis
  proof (cases "i < 0")
    case False
    obtain t where t: "int_octets i = t # le_bytes (width ?m) ?m" "unat (t AND 7) + 1 = width ?m" "kind t = 7"
      using sized_type[where base = "0x38" and m = ?m] False by (auto simp: int_octets_def base_ok_def)
    have "decodes readInt64 (int_octets i) (of_nat ?m)"
      unfolding readInt64_def t(1)
      by (intro at_end_decodes decodes_octet'[OF _ loop]) (simp_all only: t Let_def, simp_all)
    then show ?thesis using False by (simp only: of_nat_abs not_less)
  next
    case True
    obtain t where t: "int_octets i = t # le_bytes (width ?m) ?m" "unat (t AND 7) + 1 = width ?m" "kind t = 8"
      using sized_type[where base = "0x40" and m = ?m] True by (auto simp: int_octets_def base_ok_def)
    have "decodes readInt64 (int_octets i) (- of_nat ?m)"
      unfolding readInt64_def t(1)
      by (intro at_end_decodes decodes_octet'[OF _ loop_neg]) (simp_all only: t Let_def, simp_all)
    then show ?thesis using True by (simp only: of_nat_abs)
  qed
qed

lemma readInt32_decodes:
  assumes "\<bar>i\<bar> < 2 ^ 32" shows "decodes readInt32 (int_octets i) (word_of_int i)"
proof -
  let ?m = "nat \<bar>i\<bar>"
  have m: "?m < 2 ^ 64" "?m < 2 ^ 32" using assms by (simp_all add: nat_less_iff)
  note loop = short_decodes[OF _ sized_loop_decodes[OF m(1), where ?'a = 32]]
  note loop_neg = short_decodes[OF _ decodes_map[OF sized_loop_decodes[OF m(1), where ?'a = 32]]]
  have w: "\<not> 4 < width ?m" using width_le_4[OF m(2)] by simp
  show ?thesis
  proof (cases "i < 0")
    case False
    obtain t where t: "int_octets i = t # le_bytes (width ?m) ?m" "unat (t AND 7) + 1 = width ?m" "kind t = 7"
      using sized_type[where base = "0x38" and m = ?m] False by (auto simp: int_octets_def base_ok_def)
    have "decodes readInt32 (int_octets i) (of_nat ?m)"
      unfolding readInt32_def t(1)
      by (intro at_end_decodes decodes_octet'[OF _ loop]) (simp_all only: t Let_def, simp_all add: w)
    then show ?thesis using False by (simp only: of_nat_abs not_less)
  next
    case True
    obtain t where t: "int_octets i = t # le_bytes (width ?m) ?m" "unat (t AND 7) + 1 = width ?m" "kind t = 8"
      using sized_type[where base = "0x40" and m = ?m] True by (auto simp: int_octets_def base_ok_def)
    have "decodes readInt32 (int_octets i) (- of_nat ?m)"
      unfolding readInt32_def t(1)
      by (intro at_end_decodes decodes_octet'[OF _ loop_neg]) (simp_all only: t Let_def, simp_all add: w)
    then show ?thesis using True by (simp only: of_nat_abs)
  qed
qed

lemma bit32_small: "n < 2 ^ 32 \<Longrightarrow> (of_nat n :: u64) AND push_bit 32 1 = 0"
proof -
  assume "n < 2 ^ 32"
  then have "\<not> bit (unat (of_nat n :: u64)) 32"
    by (simp add: unat_of_nat bit_iff_odd)
  then have "\<not> bit (of_nat n :: u64) 32"
    by (simp only: bit_unsigned_iff) simp
  then show ?thesis
    by (simp only: push_bit_of_1 and_exp_eq_0_iff_not_bit not_False_eq_True)
qed

lemma gen_type_eq:
  assumes "n < 2 ^ 32" "base_ok base"
  shows "gen_type (of_nat base) (of_nat n) = of_nat (base + width n - 1)"
proof -
  have c1: "(of_nat n :: u64) > 0xff \<longleftrightarrow> 256 \<le> n"
    using assms(1) by (auto simp: word_less_nat_alt unat_of_nat)
  have c2: "(ucast (of_nat n :: u64) :: u32) > 0xffff \<longleftrightarrow> 65536 \<le> n"
    using assms(1) by (auto simp: word_less_nat_alt unat_of_nat unsigned_ucast_eq take_bit_eq_mod)
  show ?thesis
    using assms unfolding gen_type_def c1 c2 bit32_small[OF assms(1)]
    by (cases n rule: width_cases) (auto simp: base_ok_def)
qed

lemma emits_length:
  assumes "n < 2 ^ 32" "base_ok base"
  shows "emits (writeGenLength (of_nat base) (of_nat n)) (sized base n)"
proof -
  have "(of_nat (base + width n - 1) :: byte) AND 7 \<noteq> 7"
  proof
    assume "(of_nat (base + width n - 1) :: byte) AND 7 = 7"
    then have "width n - 1 = 7" using base_type(1)[OF assms(2) refl, of n] by simp
    then show False using width_le_4[OF assms(1)] by simp
  qed
  moreover have "unat (of_nat n :: u64) = n"
    using assms(1) by (simp add: unat_of_nat)
  ultimately show ?thesis
    using take_sized[OF assms(2) width_le_8, of n]
    by (simp add: emits_def writeGenLength_def gen_type_eq[OF assms] Let_def octets_le_bytes del: One_nat_def of_nat_add of_nat_diff)
qed

lemma readGenLength_decodes:
  assumes "n < 2 ^ 32" "k + 1 = width n"
  shows "decodes (readGenLength k) (le_bytes (width n) n) (of_nat n)"
proof (rule decodesI)
  fix d assume d: "fd_length_add d = 1" "holds d (le_bytes (width n) n)"
  have k: "k + fd_length_add d = width n" using assms(2) d(1) by simp
  have "copyPartialLe (replicate 8 0) 0 8 (le_bytes (width n) n) (width n) = Inr (le_bytes (width n) n @ replicate (8 - width n) 0)"
    using width_le_8[of n] by (simp add: copyPartialLe_def mem_read_def mem_write_def)
  moreover have "le_value (replicate j 0) = 0" for j
    by (induction j) simp_all
  ultimately show "readGenLength k d = (Inr (of_nat n), adv (length (le_bytes (width n) n)) d)"
    using throw_beyond_passes[OF d(2)] octets_at_holds[OF d(2)] assms(1)
    by (simp add: readGenLength_def k sbind_def Let_def sreturn_def skip_octets_def adv_def le_value_append le_value_sized)
qed

text \<open>A type octet that carries a length.\<close>

lemma length_type_decodes:
  assumes "n < 2 ^ 32" "base_ok base" "decodes (f (of_nat n)) bs y"
  shows "decodes (sbind (throw_at_end w) (\<lambda>_. sbind next_octet (\<lambda>type.
           if type AND 0xf8 \<noteq> of_nat base then bad x type
           else sbind (readGenLength (unat (type AND 7))) f))) (sized base n @ bs) y"
proof -
  obtain t where t: "sized base n = t # le_bytes (width n) n" "unat (t AND 7) + 1 = width n" "t AND 0xf8 = of_nat base"
    using sized_type[OF assms(2), of n] by metis
  have "decodes (sbind (readGenLength (unat (t AND 7))) f) (le_bytes (width n) n @ bs) y"
    using readGenLength_decodes[OF assms(1) t(2)] assms(3) by (rule decodes_bind)
  then show ?thesis
    unfolding t(1) append_Cons by (intro at_end_decodes decodes_octet) (simp add: t(3))
qed

section \<open>The format of a value\<close>

definition time_octets :: "gmtime \<Rightarrow> u64 \<Rightarrow> byte list" where
  "time_octets gmtime v = [0x28, 0] @ le_bytes 4 (unat (toSeconds v)) @
     (case timeToUtcCalendar gmtime v of Inr cal \<Rightarrow> pack_calendar cal | Inl _ \<Rightarrow> [])"

fun value_octets :: "gmtime \<Rightarrow> variant \<Rightarrow> byte list"
  and values_octets :: "gmtime \<Rightarrow> variant list \<Rightarrow> byte list"
  and members_octets :: "gmtime \<Rightarrow> (byte list \<times> variant) list \<Rightarrow> byte list" where
  "value_octets gm V_Null = []"
| "value_octets gm (V_Int v) = int_octets (sint v)"
| "value_octets gm (V_Bool b) = [0x10 OR (if b then 1 else 0)]"
| "value_octets gm (V_Double v) = 0x18 # le_bytes 8 (unat v)"
| "value_octets gm (V_String s) = sized 0x20 (length s) @ s"
| "value_octets gm (V_Time t) = time_octets gm t"
| "value_octets gm (V_Binary s) = sized 0x30 (length s) @ s"
| "value_octets gm (V_Struct ms) = sized 0x50 (length ms) @ members_octets gm ms"
| "value_octets gm (V_Array vs) = sized 0x58 (length vs) @ values_octets gm vs"
| "values_octets gm [] = []"
| "values_octets gm (v # vs) = value_octets gm v @ values_octets gm vs"
| "members_octets gm [] = []"
| "members_octets gm ((n, v) # ms) = of_nat (length n) # n @ value_octets gm v @ members_octets gm ms"

text \<open>The calls by which a program writes a value.\<close>

fun write_value :: "gmtime \<Rightarrow> variant \<Rightarrow> (fenc, unit) smethod"
  and write_values :: "gmtime \<Rightarrow> variant list \<Rightarrow> (fenc, unit) smethod"
  and write_members :: "gmtime \<Rightarrow> (byte list \<times> variant) list \<Rightarrow> (fenc, unit) smethod" where
  "write_value gm V_Null e = (Inr (), e)"
| "write_value gm (V_Int v) e = (Inr (), writeInt64 v e)"
| "write_value gm (V_Bool b) e = (Inr (), writeBool b e)"
| "write_value gm (V_Double v) e = (Inr (), writeDouble v e)"
| "write_value gm (V_String s) e = (Inr (), writeString s e)"
| "write_value gm (V_Time t) e = writeTime gm t e"
| "write_value gm (V_Binary s) e = (Inr (), writeBinary s e)"
| "write_value gm (V_Struct ms) e = write_members gm ms (writeStructLength (of_nat (length ms)) e)"
| "write_value gm (V_Array vs) e = write_values gm vs (writeArrayLength (of_nat (length vs)) e)"
| "write_values gm [] e = (Inr (), writeArrayEnd e)"
| "write_values gm (v # vs) e = sbind (write_value gm v) (\<lambda>_. write_values gm vs) e"
| "write_members gm [] e = (Inr (), writeStructEnd e)"
| "write_members gm ((n, v) # ms) e = sbind (writeMemberName n) (\<lambda>_. sbind (write_value gm v) (\<lambda>_. write_members gm ms)) e"

text \<open>
  The values the format can carry: no integer \<open>-2\<^sup>6\<^sup>3\<close>, no string, array or structure of \<open>2\<^sup>3\<^sup>2\<close>
  elements, member names of at most 255 octets and different from each other, and whole seconds
  after the epoch of 32 bits that the calendar knows.
\<close>

definition time_ok :: "gmtime \<Rightarrow> u64 \<Rightarrow> bool" where
  "time_ok gm t \<longleftrightarrow> gm (toSeconds t) \<noteq> None \<and> 0 < toSeconds t \<and> toSeconds t < 2 ^ 32 \<and> fromSeconds (toSeconds t) = t"

fun value_ok :: "gmtime \<Rightarrow> variant \<Rightarrow> bool"
  and values_ok :: "gmtime \<Rightarrow> variant list \<Rightarrow> bool"
  and members_ok :: "gmtime \<Rightarrow> (byte list \<times> variant) list \<Rightarrow> bool" where
  "value_ok gm V_Null = False"
| "value_ok gm (V_Int v) = (sint v \<noteq> - (2 ^ 63))"
| "value_ok gm (V_Bool b) = True"
| "value_ok gm (V_Double v) = True"
| "value_ok gm (V_String s) = (length s < 2 ^ 32)"
| "value_ok gm (V_Time t) = time_ok gm t"
| "value_ok gm (V_Binary s) = (length s < 2 ^ 32)"
| "value_ok gm (V_Struct ms) = (length ms < 2 ^ 32 \<and> distinct (map fst ms) \<and> members_ok gm ms)"
| "value_ok gm (V_Array vs) = (length vs < 2 ^ 32 \<and> values_ok gm vs)"
| "values_ok gm [] = True"
| "values_ok gm (v # vs) = (value_ok gm v \<and> values_ok gm vs)"
| "members_ok gm [] = True"
| "members_ok gm ((n, v) # ms) = (length n \<le> 255 \<and> value_ok gm v \<and> members_ok gm ms)"

subsection \<open>The encoder writes the format\<close>

definition emitsM :: "(fenc, unit) smethod \<Rightarrow> byte list \<Rightarrow> bool" where
  "emitsM m bs \<longleftrightarrow> (\<forall>e. fe_length_add e = 1 \<longrightarrow> m e = (Inr (), put bs e))"

lemma put_Nil [simp]: "put [] e = e"
  by (simp add: put_def)

lemma emits_string: "length s < 2 ^ 32 \<Longrightarrow> emits (writeString s) (sized 0x20 (length s) @ s)"
  using emits_length[of "length s" "0x20"] by (simp add: emits_def writeString_def base_ok_def)

lemma emits_binary: "length s < 2 ^ 32 \<Longrightarrow> emits (writeBinary s) (sized 0x30 (length s) @ s)"
  using emits_length[of "length s" "0x30"] by (simp add: emits_def writeBinary_def base_ok_def)

lemma emits_struct: "n < 2 ^ 32 \<Longrightarrow> emits (writeStructLength (of_nat n)) (sized 0x50 n)"
  using emits_length[of n "0x50"] by (simp add: emits_def writeStructLength_def base_ok_def)

lemma emits_array: "n < 2 ^ 32 \<Longrightarrow> emits (writeArrayLength (of_nat n)) (sized 0x58 n)"
  using emits_length[of n "0x58"] by (simp add: emits_def writeArrayLength_def base_ok_def)

lemma emits_time: "gm (toSeconds t) \<noteq> None \<Longrightarrow> emitsM (writeTime gm t) (time_octets gm t)"
  by (auto simp: emitsM_def writeTime_def time_octets_def timeToUtcCalendar_def write_octets Let_def)

lemma write_emits:
  "value_ok gm v \<Longrightarrow> emitsM (write_value gm v) (value_octets gm v)"
  "values_ok gm vs \<Longrightarrow> emitsM (write_values gm vs) (values_octets gm vs)"
  "members_ok gm ms \<Longrightarrow> emitsM (write_members gm ms) (members_octets gm ms)"
proof (induction gm v and gm vs and gm ms rule: value_ok_values_ok_members_ok.induct)
  case (2 gm v)
  then show ?case using emits_int64[of v] by (simp add: emitsM_def emits_def)
next
  case (5 gm s)
  then show ?case using emits_string[of s] by (simp add: emitsM_def emits_def)
next
  case (6 gm t)
  then show ?case using emits_time[of gm t] by (simp add: emitsM_def time_ok_def)
next
  case (7 gm s)
  then show ?case using emits_binary[of s] by (simp add: emitsM_def emits_def)
next
  case (8 gm ms)
  then show ?case using emits_struct[of "length ms"] by (simp add: emitsM_def emits_def)
next
  case (9 gm vs)
  then show ?case using emits_array[of "length vs"] by (simp add: emitsM_def emits_def)
qed (auto simp: emitsM_def sbind_def writeBool_def writeDouble_def writeMemberName_def writeArrayEnd_def writeStructEnd_def)

subsection \<open>The decoder reads the format\<close>

lemma take_octets_len: "n = length bs \<Longrightarrow> decodes (take_octets n) bs bs"
  using take_octets_decodes[of bs] by simp

lemma unat_of_nat_u64: "n < 2 ^ 32 \<Longrightarrow> unat (of_nat n :: u64) = n"
  by (simp add: unat_of_nat)

lemma readString_decodes:
  assumes "length s < 2 ^ 32" shows "decodes readString (sized 0x20 (length s) @ s) s"
  unfolding readString_def
  by (rule length_type_decodes[where base = "0x20", simplified])
     (use assms in \<open>auto simp: base_ok_def unat_of_nat intro!: beyond_decodes take_octets_len\<close>)

lemma readBinary_decodes:
  assumes "length s < 2 ^ 32" shows "decodes readBinary (sized 0x30 (length s) @ s) s"
  unfolding readBinary_def
  by (rule length_type_decodes[where base = "0x30", simplified])
     (use assms in \<open>auto simp: base_ok_def unat_of_nat intro!: beyond_decodes take_octets_len\<close>)

lemma sbind_return: "sbind m sreturn = m"
  by (auto simp: sbind_def sreturn_def fun_eq_iff split: prod.splits sum.splits)

lemma readStructLength_decodes:
  assumes "n < 2 ^ 32" shows "decodes readStructLength (sized 0x50 n) (of_nat n)"
proof -
  have "base_ok 0x50" by (simp add: base_ok_def)
  from length_type_decodes[where f = sreturn, OF assms this decodes_return, unfolded sbind_return] show ?thesis
    by (simp add: readStructLength_def)
qed

lemma readArrayLength_decodes:
  assumes "n < 2 ^ 32" shows "decodes readArrayLength (sized 0x58 n) (of_nat n)"
proof -
  have "base_ok 0x58" by (simp add: base_ok_def)
  from length_type_decodes[where f = sreturn, OF assms this decodes_return, unfolded sbind_return] show ?thesis
    by (simp add: readArrayLength_def)
qed

lemma readBool_decodes: "decodes readBool [0x10 OR (if b then 1 else 0)] b"
  unfolding readBool_def by (intro at_end_decodes decodes_octet) (auto simp: decodes_def sreturn_def)

lemma readDouble_decodes: "decodes readDouble (0x18 # le_bytes 8 (unat v)) v"
proof -
  have "decodes (sbind (take_octets 8) (\<lambda>src. sbind (\<lambda>d. (copyLe (replicate 8 0) 0 src 8, d)) (\<lambda>value. sreturn (of_nat (le_value value)))))
          (le_bytes 8 (unat v) @ []) v"
    by (rule decodes_bind[OF take_octets_len])
       (auto simp: copyLe_spec decodes_def sbind_def sreturn_def of_nat_le_value_le_bytes)
  then show ?thesis
    unfolding readDouble_def by (intro beyond_decodes decodes_octet) simp
qed

lemma readMemberName_decodes: "length n \<le> 255 \<Longrightarrow> decodes readMemberName (of_nat (length n) # n) n"
  unfolding readMemberName_def
  by (intro at_end_decodes decodes_octet beyond_decodes take_octets_len) (simp add: unat_of_nat)

lemma length_pack_calendar [simp]: "length (pack_calendar cal) = 5"
  by (cases cal) (simp add: pack_calendar_def)

lemma low_seconds: "toSeconds t < 2 ^ 32 \<Longrightarrow> of_nat (le_value (le_bytes 4 (unat (toSeconds t)))) = toSeconds t"
  by (simp add: le_value_le_bytes word_less_nat_alt)

lemma holds_octets_at: "holds d (a @ bs @ c) \<Longrightarrow> n = length bs \<Longrightarrow> i = length a \<Longrightarrow> octets_at i n d = (Inr bs, d)"
proof -
  assume h: "holds d (a @ bs @ c)" and n: "n = length bs" "i = length a"
  from h have "holds (adv (length a) d) bs" by (simp add: holds_append)
  then show ?thesis using n by (auto simp: octets_at_def mem_read_def holds_def)
qed

lemma readTime_decodes:
  assumes "time_ok gm t" shows "decodes (readTime tg) (time_octets gm t) t"
proof -
  obtain c where c: "gm (toSeconds t) = Some c" using assms by (auto simp: time_ok_def)
  define cal where "cal = pack_calendar (tm_year c + 1900, tm_mon c, tm_mday c - 1, tm_hour c, tm_min c, tm_sec c)"
  define low where "low = le_bytes 4 (unat (toSeconds t))"
  have o: "time_octets gm t = 0x28 # ([0] @ low @ cal)"
    using c by (simp add: time_octets_def timeToUtcCalendar_def cal_def low_def)
  have len: "length low = 4" "length cal = 5" by (simp_all add: low_def cal_def)
  have cp: "copyPartialLe (replicate 8 0) 0 8 low 4 = Inr (low @ replicate 4 0)"
    using len by (simp add: copyPartialLe_def mem_read_def mem_write_def)
  have z: "le_value (replicate 4 0) = 0" by code_simp
  have v: "of_nat (le_value (low @ replicate 4 0)) = toSeconds t"
    using assms low_seconds[of t] by (simp only: time_ok_def le_value_append low_def z mult_0_right add_0_right)
  have s: "toSeconds t \<noteq> 0" "fromSeconds (toSeconds t) = t" using assms by (auto simp: time_ok_def)
  have body: "decodes (\<lambda>d. sbind (octets_at 1 4) (\<lambda>src.
     sbind (\<lambda>d. (copyPartialLe (replicate 8 0) 0 8 src 4, d)) (\<lambda>v.
     let value = of_nat (le_value v) in
     sbind (if value = 0 then cal0 else sreturn (fromSeconds value)) (\<lambda>result.
     sbind (skip_octets 10) (\<lambda>_. sreturn result)))) d) ([0] @ low @ cal) t" for cal0
  proof (rule decodesI)
    fix d assume "holds d ([0] @ low @ cal)"
    then have "octets_at 1 4 d = (Inr low, d)"
      by (rule holds_octets_at) (simp_all add: len)
    then show "sbind (octets_at 1 4) (\<lambda>src.
     sbind (\<lambda>d. (copyPartialLe (replicate 8 0) 0 8 src 4, d)) (\<lambda>v.
     let value = of_nat (le_value v) in
     sbind (if value = 0 then cal0 else sreturn (fromSeconds value)) (\<lambda>result.
     sbind (skip_octets 10) (\<lambda>_. sreturn result)))) d = (Inr t, adv (length ([0] @ low @ cal)) d)"
      by (simp only: sbind_def prod.case sum.case cp v Let_def s if_False sreturn_def skip_octets_def)
         (simp add: adv_def len)
  qed
  show ?thesis
    unfolding readTime_def o
    by (intro at_end_decodes decodes_octet) (simp only: simp_thms if_False, rule beyond_decodes, rule body)
qed

lemma decodes_check:
  assumes "type_of_kind (kind x) = Some t" "decodes (f t) (x # bs) y"
  shows "decodes (sbind readCheckType f) (x # bs) y"
proof (rule decodesI)
  fix d assume d: "fd_length_add d = 1" "holds d (x # bs)"
  then have "readCheckType d = (Inr t, d)"
    using assms(1) by (auto simp: readCheckType_def sbind_def peek_def holds_Cons sreturn_def)
  then show "sbind readCheckType f d = (Inr y, adv (length (x # bs)) d)"
    using decodesD[OF assms(2) d] by (simp add: sbind_def)
qed

lemma decodes_peek:
  assumes "decodes (f x) (x # bs) y" shows "decodes (sbind (peek 0) f) (x # bs) y"
proof (rule decodesI)
  fix d assume d: "fd_length_add d = 1" "holds d (x # bs)"
  then have "peek 0 d = (Inr x, d)"
    by (auto simp: peek_def holds_Cons)
  then show "sbind (peek 0) f d = (Inr y, adv (length (x # bs)) d)"
    using decodesD[OF assms d] by (simp add: sbind_def)
qed

fun value_type :: "variant \<Rightarrow> rpc_type" where
  "value_type V_Null = RT_End"
| "value_type (V_Int v) = RT_Int"
| "value_type (V_Bool b) = RT_Bool"
| "value_type (V_Double v) = RT_Double"
| "value_type (V_String s) = RT_String"
| "value_type (V_Time t) = RT_Time"
| "value_type (V_Binary s) = RT_Binary"
| "value_type (V_Struct ms) = RT_Struct"
| "value_type (V_Array vs) = RT_Array"

lemma sized_head: "base_ok base \<Longrightarrow> \<exists>x r. sized base n = x # r \<and> kind x = base div 8"
  by (metis sized_type)

lemma type_of_kind_simps [simp]:
  "type_of_kind 7 = Some RT_Int" "type_of_kind 8 = Some RT_Int" "type_of_kind 2 = Some RT_Bool"
  "type_of_kind 3 = Some RT_Double" "type_of_kind 4 = Some RT_String" "type_of_kind 5 = Some RT_Time"
  "type_of_kind 6 = Some RT_Binary" "type_of_kind 10 = Some RT_Struct" "type_of_kind 11 = Some RT_Array"
  by (simp_all add: type_of_kind_def)

lemma value_head:
  "value_ok gm v \<Longrightarrow> \<exists>x bs. value_octets gm v = x # bs \<and> type_of_kind (kind x) = Some (value_type v)"
proof (cases v)
  case (V_Int i)
  have "base_ok 0x38" "base_ok 0x40" by (simp_all add: base_ok_def)
  with sized_head[of "0x38" "nat \<bar>sint i\<bar>"] sized_head[of "0x40" "nat \<bar>sint i\<bar>"] V_Int show ?thesis
    by (auto simp: int_octets_def)
next
  case (V_String s)
  then show ?thesis using sized_head[of "0x20" "length s"] by (auto simp: base_ok_def)
next
  case (V_Binary s)
  then show ?thesis using sized_head[of "0x30" "length s"] by (auto simp: base_ok_def)
next
  case (V_Struct s)
  then show ?thesis using sized_head[of "0x50" "length s"] by (auto simp: base_ok_def)
next
  case (V_Array s)
  then show ?thesis using sized_head[of "0x58" "length s"] by (auto simp: base_ok_def)
qed (auto simp: time_octets_def kind_def)

lemma checkNext_Suc:
  "Suc k < 2 ^ 32 \<Longrightarrow> checkArrayNext (of_nat (Suc k)) = (True, of_nat k)"
  "Suc k < 2 ^ 32 \<Longrightarrow> checkStructNext (of_nat (Suc k)) = (True, of_nat k)"
proof -
  assume "Suc k < 2 ^ 32"
  then have "int k < 2 ^ 63"
    using of_nat_less_iff[of "Suc k" "2 ^ 32", where ?'a = int] by simp
  then have "sint (word_of_int (int k) :: u64) = int k"
    by (intro sint_word_of_int_range) simp_all
  then have "0 \<le> sint (of_nat k :: u64)"
    by simp
  moreover have "(of_nat (Suc k) :: u64) - 1 = of_nat k"
    by simp
  ultimately show "checkArrayNext (of_nat (Suc k)) = (True, of_nat k)" "checkStructNext (of_nat (Suc k)) = (True, of_nat k)"
    unfolding checkArrayNext_def checkStructNext_def by simp_all
qed

lemma checkNext_0: "checkArrayNext 0 = (False, - 1)" "checkStructNext 0 = (False, - 1)"
  by (simp_all add: checkArrayNext_def checkStructNext_def)

lemma AList_update_new: "n \<notin> fst ` set xs \<Longrightarrow> AList.update n v xs = xs @ [(n, v)]"
  by (induction xs) auto

text \<open>One step of the two recursions at the head of a value.\<close>

lemma variant_step:
  assumes "value_ok gm v" "length (value_octets gm v) \<le> n"
    and "\<And>m. n = Suc m \<Longrightarrow> decodes (variant_switch tg (readVariant_rec tg m) (value_type v)) (value_octets gm v) v"
  shows "decodes (readVariant_rec tg n) (value_octets gm v) v"
proof -
  obtain x bs where x: "value_octets gm v = x # bs" "type_of_kind (kind x) = Some (value_type v)"
    using value_head[OF assms(1)] by blast
  then obtain m where m: "n = Suc m" using assms(2) by (cases n) auto
  show ?thesis
    using assms(3)[OF m] x unfolding m readVariant_rec.simps by (simp add: decodes_check)
qed

lemma skip_step:
  assumes "value_ok gm v" "length (value_octets gm v) \<le> n"
    and "\<And>m x. n = Suc m \<Longrightarrow> type_of_kind (kind x) = Some (value_type v) \<Longrightarrow>
           decodes (skip_switch tg (readSkip_rec tg m) x) (value_octets gm v) ()"
  shows "decodes (readSkip_rec tg n) (value_octets gm v) ()"
proof -
  obtain x bs where x: "value_octets gm v = x # bs" "type_of_kind (kind x) = Some (value_type v)"
    using value_head[OF assms(1)] by blast
  then obtain m where m: "n = Suc m" using assms(2) by (cases n) auto
  show ?thesis
    using assms(3)[OF m x(2)] x unfolding m readSkip_rec.simps by (simp add: decodes_peek)
qed

lemma sint_abs_less: "\<bar>sint (v :: u64)\<bar> < 2 ^ 64"
  using sint_u64_range[of v] by simp

lemma array_loop_Suc:
  assumes "Suc k < 2 ^ 32" "decodes rd a v" "decodes (array_loop rd (of_nat k) (acc @ [v])) b y"
  shows "decodes (array_loop rd (of_nat (Suc k)) acc) (a @ b) y"
proof -
  have "array_loop rd (of_nat (Suc k)) acc = sbind rd (\<lambda>v. array_loop rd (of_nat k) (acc @ [v]))"
    by (rule ext, subst array_loop.simps) (simp only: checkNext_Suc[OF assms(1)] prod.case if_True)
  then show ?thesis
    using decodes_bind[OF assms(2), where f = "\<lambda>v. array_loop rd (of_nat k) (acc @ [v])", OF assms(3)] by simp
qed

lemma struct_loop_Suc:
  assumes "Suc k < 2 ^ 32" "decodes readMemberName a nm" "decodes rd b v"
    "decodes (struct_loop rd (of_nat k) (AList.update nm v acc)) c y"
  shows "decodes (struct_loop rd (of_nat (Suc k)) acc) (a @ b @ c) y"
proof -
  have "struct_loop rd (of_nat (Suc k)) acc =
      sbind readMemberName (\<lambda>nm. sbind rd (\<lambda>v. struct_loop rd (of_nat k) (AList.update nm v acc)))"
    by (rule ext, subst struct_loop.simps) (simp only: checkNext_Suc[OF assms(1)] prod.case if_True)
  moreover have "decodes (sbind readMemberName (\<lambda>nm. sbind rd (\<lambda>v. struct_loop rd (of_nat k) (AList.update nm v acc)))) (a @ b @ c) y"
    by (rule decodes_bind[OF assms(2)], rule decodes_bind[OF assms(3)], rule assms(4))
  ultimately show ?thesis by simp
qed

lemma loops_0: "decodes (array_loop rd 0 acc) [] acc" "decodes (struct_loop rd 0 macc) [] macc"
  by (simp_all add: decodes_def array_loop.simps struct_loop.simps checkNext_0)

lemma value_decodes:
  "value_ok gm v \<Longrightarrow> length (value_octets gm v) \<le> n \<Longrightarrow> decodes (readVariant_rec tg n) (value_octets gm v) v"
  "values_ok gm vs \<Longrightarrow> length (values_octets gm vs) \<le> n \<Longrightarrow> length vs < 2 ^ 32 \<Longrightarrow>
     decodes (array_loop (readVariant_rec tg n) (of_nat (length vs)) acc) (values_octets gm vs) (acc @ vs)"
  "members_ok gm ms \<Longrightarrow> length (members_octets gm ms) \<le> n \<Longrightarrow> length ms < 2 ^ 32 \<Longrightarrow>
     distinct (map fst (macc @ ms)) \<Longrightarrow>
     decodes (struct_loop (readVariant_rec tg n) (of_nat (length ms)) macc) (members_octets gm ms) (macc @ ms)"
proof (induction gm v and gm vs and gm ms arbitrary: n and n acc and n macc rule: value_ok_values_ok_members_ok.induct)
  case (2 gm v)
  show ?case
    by (rule variant_step[OF 2]) (use decodes_map[OF readInt64_decodes[OF sint_abs_less[of v]], of V_Int] in \<open>simp add: variant_switch_def\<close>)
next
  case (3 gm b)
  show ?case
    by (rule variant_step[OF 3]) (use decodes_map[OF readBool_decodes[of b], of V_Bool] in \<open>simp add: variant_switch_def\<close>)
next
  case (4 gm v)
  show ?case
    by (rule variant_step[OF 4]) (use decodes_map[OF readDouble_decodes[of v], of V_Double] in \<open>simp add: variant_switch_def\<close>)
next
  case (5 gm s)
  show ?case
    by (rule variant_step[OF 5]) (use decodes_map[OF readString_decodes[of s], of V_String] 5 in \<open>simp add: variant_switch_def\<close>)
next
  case (6 gm t)
  show ?case
    by (rule variant_step[OF 6]) (use decodes_map[OF readTime_decodes[of gm t tg], of V_Time] 6 in \<open>simp add: variant_switch_def\<close>)
next
  case (7 gm s)
  show ?case
    by (rule variant_step[OF 7]) (use decodes_map[OF readBinary_decodes[of s], of V_Binary] 7 in \<open>simp add: variant_switch_def\<close>)
next
  case (8 gm ms)
  show ?case
  proof (rule variant_step[OF 8(2,3)])
    fix m assume m: "n = Suc m"
    have l: "length ms < 2 ^ 32" "distinct (map fst ([] @ ms))" "members_ok gm ms" using 8(2) by simp_all
    have le: "length (members_octets gm ms) \<le> m"
      using 8(3) m by (simp add: sized_def)
    show "decodes (variant_switch tg (readVariant_rec tg m) (value_type (V_Struct ms))) (value_octets gm (V_Struct ms)) (V_Struct ms)"
      by (simp add: variant_switch_def, rule decodes_bind[OF readStructLength_decodes[OF l(1)]])
         (use decodes_map[OF 8(1)[OF l(3) le l(1,2)], of V_Struct] in simp)
  qed
next
  case (9 gm vs)
  show ?case
  proof (rule variant_step[OF 9(2,3)])
    fix m assume m: "n = Suc m"
    have l: "length vs < 2 ^ 32" "values_ok gm vs" using 9(2) by simp_all
    have le: "length (values_octets gm vs) \<le> m"
      using 9(3) m by (simp add: sized_def)
    show "decodes (variant_switch tg (readVariant_rec tg m) (value_type (V_Array vs))) (value_octets gm (V_Array vs)) (V_Array vs)"
      by (simp add: variant_switch_def, rule decodes_bind[OF readArrayLength_decodes[OF l(1)]])
         (use decodes_map[OF 9(1)[OF l(2) le l(1), of "[]"], of V_Array] in simp)
  qed
next
  case (11 gm v vs)
  have h: "Suc (length vs) < 2 ^ 32" "length vs < 2 ^ 32" "value_ok gm v" "values_ok gm vs"
    "length (value_octets gm v) \<le> n" "length (values_octets gm vs) \<le> n"
    using 11(3-5) by simp_all
  have "decodes (array_loop (readVariant_rec tg n) (of_nat (Suc (length vs))) acc)
          (value_octets gm v @ values_octets gm vs) ((acc @ [v]) @ vs)"
    by (rule array_loop_Suc[OF h(1) 11(1)[OF h(3,5)] 11(2)[OF h(4,6,2)]])
  then show ?case by (simp del: of_nat_Suc)
next
  case (13 gm nm v ms)
  have h: "Suc (length ms) < 2 ^ 32" "length ms < 2 ^ 32" "value_ok gm v" "members_ok gm ms"
    "length (value_octets gm v) \<le> n" "length (members_octets gm ms) \<le> n" "length nm \<le> 255"
    "distinct (map fst ((macc @ [(nm, v)]) @ ms))" "nm \<notin> fst ` set macc"
    using 13(3-6) by auto
  have "decodes (struct_loop (readVariant_rec tg n) (of_nat (Suc (length ms))) macc)
          ((of_nat (length nm) # nm) @ value_octets gm v @ members_octets gm ms) ((macc @ [(nm, v)]) @ ms)"
    by (rule struct_loop_Suc[OF h(1) readMemberName_decodes[OF h(7)] 13(1)[OF h(3,5)]])
       (simp only: AList_update_new[OF h(9)] 13(2)[OF h(4,6,2,8)])
  then show ?case by (simp del: of_nat_Suc)
qed (simp_all add: loops_0)

lemma skip_loop_append:
  assumes "decodes body a ()" "decodes (skip_loop body k) b ()"
  shows "decodes (skip_loop body (Suc k)) (a @ b) ()"
  by (simp, rule decodes_bind[OF assms(1)], rule assms(2))

lemma value_skips:
  "value_ok gm v \<Longrightarrow> length (value_octets gm v) \<le> n \<Longrightarrow> decodes (readSkip_rec tg n) (value_octets gm v) ()"
  "values_ok gm vs \<Longrightarrow> length (values_octets gm vs) \<le> n \<Longrightarrow>
     decodes (skip_loop (readSkip_rec tg n) (length vs)) (values_octets gm vs) ()"
  "members_ok gm ms \<Longrightarrow> length (members_octets gm ms) \<le> n \<Longrightarrow>
     decodes (skip_loop (sbind readMemberName (\<lambda>_. readSkip_rec tg n)) (length ms)) (members_octets gm ms) ()"
proof (induction gm v and gm vs and gm ms arbitrary: n and n and n rule: value_ok_values_ok_members_ok.induct)
  case (2 gm v)
  show ?case
    by (rule skip_step[OF 2]) (use decodes_map[OF readInt64_decodes[OF sint_abs_less[of v]], of "\<lambda>_. ()"] in \<open>simp add: skip_switch_def\<close>)
next
  case (3 gm b)
  show ?case
    by (rule skip_step[OF 3]) (use decodes_map[OF readBool_decodes[of b], of "\<lambda>_. ()"] in \<open>simp add: skip_switch_def\<close>)
next
  case (4 gm v)
  show ?case
    by (rule skip_step[OF 4]) (use decodes_map[OF readDouble_decodes[of v], of "\<lambda>_. ()"] in \<open>simp add: skip_switch_def\<close>)
next
  case (5 gm s)
  show ?case
    by (rule skip_step[OF 5]) (use decodes_map[OF readString_decodes[of s], of "\<lambda>_. ()"] 5 in \<open>simp add: skip_switch_def\<close>)
next
  case (6 gm t)
  show ?case
    by (rule skip_step[OF 6]) (use decodes_map[OF readTime_decodes[of gm t tg], of "\<lambda>_. ()"] 6 in \<open>simp add: skip_switch_def\<close>)
next
  case (7 gm s)
  show ?case
    by (rule skip_step[OF 7]) (use decodes_map[OF readBinary_decodes[of s], of "\<lambda>_. ()"] 7 in \<open>simp add: skip_switch_def\<close>)
next
  case (8 gm ms)
  show ?case
  proof (rule skip_step[OF 8(2,3)])
    fix m x assume m: "n = Suc m" and x: "type_of_kind (kind x) = Some (value_type (V_Struct ms))"
    have l: "length ms < 2 ^ 32" "members_ok gm ms" using 8(2) by simp_all
    have le: "length (members_octets gm ms) \<le> m"
      using 8(3) m by (simp add: sized_def)
    show "decodes (skip_switch tg (readSkip_rec tg m) x) (value_octets gm (V_Struct ms)) ()"
      using x by (simp add: skip_switch_def, intro decodes_bind[OF readStructLength_decodes[OF l(1)]])
         (use 8(1)[OF l(2) le] unat_of_nat_u64[OF l(1)] in simp)
  qed
next
  case (9 gm vs)
  show ?case
  proof (rule skip_step[OF 9(2,3)])
    fix m x assume m: "n = Suc m" and x: "type_of_kind (kind x) = Some (value_type (V_Array vs))"
    have l: "length vs < 2 ^ 32" "values_ok gm vs" using 9(2) by simp_all
    have le: "length (values_octets gm vs) \<le> m"
      using 9(3) m by (simp add: sized_def)
    show "decodes (skip_switch tg (readSkip_rec tg m) x) (value_octets gm (V_Array vs)) ()"
      using x by (simp add: skip_switch_def, intro decodes_bind[OF readArrayLength_decodes[OF l(1)]])
         (use 9(1)[OF l(2) le] unat_of_nat_u64[OF l(1)] in simp)
  qed
next
  case (11 gm v vs)
  have h: "value_ok gm v" "values_ok gm vs" "length (value_octets gm v) \<le> n" "length (values_octets gm vs) \<le> n"
    using 11(3,4) by simp_all
  show ?case
    using skip_loop_append[OF 11(1)[OF h(1,3)] 11(2)[OF h(2,4)]] by simp
next
  case (13 gm nm v ms)
  have h: "value_ok gm v" "members_ok gm ms" "length (value_octets gm v) \<le> n" "length (members_octets gm ms) \<le> n"
    "length nm \<le> 255"
    using 13(3,4) by simp_all
  have "decodes (sbind readMemberName (\<lambda>_. readSkip_rec tg n)) ((of_nat (length nm) # nm) @ value_octets gm v) ()"
    by (rule decodes_bind[OF readMemberName_decodes[OF h(5)]]) (rule 13(1)[OF h(1,3)])
  from skip_loop_append[OF this 13(2)[OF h(2,4)]] show ?case by simp
qed (simp_all add: decodes_return)

section \<open>Round trips\<close>

lemma holds_length: "holds d bs \<Longrightarrow> length bs \<le> length (fd_mem d) - fd_pos d"
  by (auto simp: holds_def)

lemma readVariant_decodes: "value_ok gm v \<Longrightarrow> decodes (readVariant tg) (value_octets gm v) v"
  by (rule decodesI, unfold readVariant_def, rule decodesD[OF value_decodes(1)]) (auto dest: holds_length)

lemma readSkip_decodes: "value_ok gm v \<Longrightarrow> decodes (readSkip tg) (value_octets gm v) ()"
  by (rule decodesI, unfold readSkip_def, rule decodesD[OF value_skips(1)]) (auto dest: holds_length)

text \<open>
  C7: every nested value that the format can carry is written as a sequence of octets that depends
  on the value only; wherever these octets stand between the read position and the end of the
  content, \<^verbatim>\<open>readVariant\<close> returns the value and stops right behind it, and \<^verbatim>\<open>readSkip\<close> stops at the
  same place.
\<close>

theorem fastrpc_value_roundtrip:
  assumes "value_ok gm v" "fe_length_add e = 1" "fd_length_add d = 1" "holds d (value_octets gm v)"
  shows "write_value gm v e = (Inr (), put (value_octets gm v) e) \<and>
         readVariant tg d = (Inr v, adv (length (value_octets gm v)) d) \<and>
         readSkip tg d = (Inr (), adv (length (value_octets gm v)) d)"
  using write_emits(1)[OF assms(1)] decodesD[OF readVariant_decodes[OF assms(1)] assms(3,4)]
    decodesD[OF readSkip_decodes[OF assms(1)] assms(3,4)] assms(2)
  by (simp add: emitsM_def)

definition rpc_sample :: variant where
  "rpc_sample = V_Struct [([105, 100], V_Array [V_Int (- 300), V_Bool True, V_String [97, 98, 99]]), ([], V_Binary [0, 255])]"

lemma sint_minus_300: "sint (- 300 :: u64) = - 300"
  by code_simp

lemma rpc_sample_ok: "value_ok two_days rpc_sample"
  by (simp add: rpc_sample_def sint_minus_300)

lemma rpc_sample_length: "length (value_octets two_days rpc_sample) = 21"
  by (simp add: rpc_sample_def sint_minus_300 int_octets_def sized_def width_def)

theorem fastrpc_value_roundtrip_witness:
  "readVariant two_days_back \<lparr>fd_mem = [9] @ value_octets two_days rpc_sample @ [7, 7], fd_pos = 1, fd_end = 22,
     version_major = 2, version_minor = 0, fd_length_add = 1\<rparr> =
   (Inr rpc_sample, \<lparr>fd_mem = [9] @ value_octets two_days rpc_sample @ [7, 7], fd_pos = 22, fd_end = 22,
     version_major = 2, version_minor = 0, fd_length_add = 1\<rparr>)"
proof -
  let ?d = "\<lparr>fd_mem = [9] @ value_octets two_days rpc_sample @ [7, 7], fd_pos = 1, fd_end = 22,
     version_major = 2, version_minor = 0, fd_length_add = 1\<rparr> :: fdec"
  have "holds ?d (value_octets two_days rpc_sample)" "fe_length_add FastRpcEncoder = 1" "fd_length_add ?d = 1"
    by (simp_all add: holds_def rpc_sample_length FastRpcEncoder_def)
  then show ?thesis
    using fastrpc_value_roundtrip[OF rpc_sample_ok, of FastRpcEncoder ?d two_days_back] by (simp add: adv_def rpc_sample_length)
qed

text \<open>A whole method call, as a client writes it and a server reads it.\<close>

definition write_call :: "gmtime \<Rightarrow> byte list \<Rightarrow> variant list \<Rightarrow> (fenc, unit) smethod" where
  "write_call gm name vs e =
     (case write_values gm vs (writeMethodName name (writeHeader e)) of (r, e') \<Rightarrow> (r, writeMethodEnd e'))"

primrec read_values :: "timegm \<Rightarrow> nat \<Rightarrow> (fdec, variant list) smethod" where
  "read_values tg 0 = sreturn []"
| "read_values tg (Suc n) = sbind (readVariant tg) (\<lambda>v. sbind (read_values tg n) (\<lambda>vs. sreturn (v # vs)))"

definition read_call :: "timegm \<Rightarrow> nat \<Rightarrow> (fdec, int \<times> byte list \<times> variant list \<times> rpc_type) smethod" where
  "read_call tg n = sbind readHeader (\<lambda>k. sbind readMethodName (\<lambda>name.
     sbind (read_values tg n) (\<lambda>vs. sbind readCheckType (\<lambda>t. sreturn (k, name, vs, t)))))"

lemma read_values_decodes: "values_ok gm vs \<Longrightarrow> decodes (read_values tg (length vs)) (values_octets gm vs) vs"
proof (induction vs)
  case (Cons v vs)
  then have v: "value_ok gm v" "values_ok gm vs" by simp_all
  have "decodes (sbind (readVariant tg) (\<lambda>v. sbind (read_values tg (length vs)) (\<lambda>vs. sreturn (v # vs))))
          (value_octets gm v @ values_octets gm vs) (v # vs)"
    by (rule decodes_bind[OF readVariant_decodes[OF v(1)]]) (rule decodes_map[OF Cons.IH[OF v(2)]])
  then show ?case by simp
qed (simp add: decodes_return)

lemma readMethodName_decodes: "length n \<le> 255 \<Longrightarrow> decodes readMethodName (0x68 # of_nat (length n) # n) n"
  unfolding readMethodName_def
  by (intro beyond_decodes decodes_octet)
     (simp only: simp_thms if_False, intro decodes_octet beyond_decodes take_octets_len, simp add: unat_of_nat)

definition call_octets :: "gmtime \<Rightarrow> byte list \<Rightarrow> variant list \<Rightarrow> byte list" where
  "call_octets gm name vs = 0x68 # of_nat (length name) # name @ values_octets gm vs"

definition opened :: "fdec \<Rightarrow> fdec" where
  "opened d = d\<lparr>version_major := 2, version_minor := 0, fd_length_add := 1, fd_pos := 4\<rparr>"

lemma readHeader_call:
  "fd_pos d = 0 \<Longrightarrow> fd_mem d = [0xCA, 0x11, 0x02, 0x00] @ 0x68 # bs \<Longrightarrow> readHeader d = (Inr 0, opened d)"
  by (simp add: readHeader_def sbind_def throw_beyond_def octets_at_def mem_read_def peek_def sreturn_def
      kind_def opened_def mem_get_def)

text \<open>
  C3: a method call written with a name of at most 255 octets and any number of values comes back
  from the decoder: \<^verbatim>\<open>createDecoder\<close> recognises the message, \<^verbatim>\<open>readHeader\<close> announces a call, the name
  and the values are those that were written, in their order, and then the decoder is at the end,
  whatever memory follows the content.
\<close>

theorem fastrpc_call_roundtrip:
  assumes "length name \<le> 255" "values_ok gm vs"
  shows "\<exists>e d d'. write_call gm name vs FastRpcEncoder = (Inr (), e) \<and>
           createDecoder (getContent e) after junk = Some d \<and>
           read_call tg (length vs) d = (Inr (0, name, vs, RT_End), d')"
proof -
  let ?bs = "[0xCA, 0x11, 0x02, 0x00] @ call_octets gm name vs"
  let ?e = "put ?bs FastRpcEncoder" and ?d = "setContent ?bs after junk"
  let ?n = "0x68 # of_nat (length name) # name"
  have w: "write_call gm name vs FastRpcEncoder = (Inr (), ?e)"
    using write_emits(2)[OF assms(2)]
    by (simp add: write_call_def emitsM_def writeHeader_def writeMethodName_def writeMethodEnd_def FastRpcEncoder_def call_octets_def)
  have c: "createDecoder (getContent ?e) after junk = Some ?d"
    by (simp add: createDecoder_def getContent_def FastRpcEncoder_def call_octets_def)
  have h: "readHeader ?d = (Inr 0, opened ?d)"
    by (rule readHeader_call[where bs = "of_nat (length name) # name @ values_octets gm vs @ after"]) (simp_all add: setContent_def call_octets_def)
  have o: "holds (opened ?d) (?n @ values_octets gm vs)"
    by (simp add: holds_def opened_def setContent_def call_octets_def)
  have dec: "decodes (sbind readMethodName (\<lambda>name. sbind (read_values tg (length vs)) (\<lambda>vs. sreturn (name, vs)))) (?n @ values_octets gm vs) (name, vs)"
    by (rule decodes_bind[OF readMethodName_decodes[OF assms(1)]]) (rule decodes_map[OF read_values_decodes[OF assms(2)]])
  let ?d' = "adv (length (?n @ values_octets gm vs)) (opened ?d)"
  have "fd_length_add (opened ?d) = 1" by (simp add: opened_def)
  from decodesD[OF dec this o]
  have r: "sbind readMethodName (\<lambda>name. sbind (read_values tg (length vs)) (\<lambda>vs. sreturn (name, vs))) (opened ?d) = (Inr (name, vs), ?d')" .
  have t: "readCheckType ?d' = (Inr RT_End, ?d')"
    by (simp add: readCheckType_def opened_def setContent_def call_octets_def)
  obtain d1 where d1: "readMethodName (opened ?d) = (Inr name, d1)" "read_values tg (length vs) d1 = (Inr vs, ?d')"
    using r by (auto simp: sbind_eq_Inr sreturn_def)
  have "read_call tg (length vs) ?d = (Inr (0, name, vs, RT_End), ?d')"
    using h d1 t by (simp add: read_call_def sbind_def sreturn_def)
  with w c show ?thesis by blast
qed

definition fresh_decoder :: fdec where
  "fresh_decoder = \<lparr>fd_mem = [], fd_pos = 0, fd_end = 0, version_major = 0, version_minor = 0, fd_length_add = 0\<rparr>"

theorem fastrpc_call_roundtrip_witness:
  "\<exists>e d d'. write_call two_days [97, 46, 98] [rpc_sample, V_Double 7, V_Time 86399000] FastRpcEncoder = (Inr (), e) \<and>
     createDecoder (getContent e) [0] fresh_decoder = Some d \<and>
     read_call two_days_back 3 d = (Inr (0, [97, 46, 98], [rpc_sample, V_Double 7, V_Time 86399000], RT_End), d')"
proof -
  have t: "time_ok two_days 86399000"
    by code_simp
  have "length [97, 46, 98 :: byte] \<le> 255" "values_ok two_days [rpc_sample, V_Double 7, V_Time 86399000]"
    by (simp_all add: rpc_sample_ok t)
  from fastrpc_call_roundtrip[OF this, of "[0]" fresh_decoder two_days_back] show ?thesis
    by (simp add: eval_nat_numeral)
qed

section \<open>Any input\<close>

text \<open>
  A read is fine at a state when it comes to an end there, does not touch the memory and does not
  move the read position back.
\<close>

definition fine :: "(fdec, 'a) smethod \<Rightarrow> fdec \<Rightarrow> bool" where
  "fine m d \<longleftrightarrow> fst (m d) \<noteq> Inl Diverges \<and> fd_mem (snd (m d)) = fd_mem d \<and> fd_pos d \<le> fd_pos (snd (m d))"

lemma fine_bind: "fine m d \<Longrightarrow> (\<And>x d'. m d = (Inr x, d') \<Longrightarrow> fine (f x) d') \<Longrightarrow> fine (sbind m f) d"
  by (cases "m d"; cases "fst (m d)") (force simp: fine_def sbind_def)+

lemma fine_if: "(c d \<Longrightarrow> fine a d) \<Longrightarrow> (\<not> c d \<Longrightarrow> fine b d) \<Longrightarrow> fine (\<lambda>d. if c d then a d else b d) d"
  by (simp add: fine_def)

lemma fine_if': "(c \<Longrightarrow> fine a d) \<Longrightarrow> (\<not> c \<Longrightarrow> fine b d) \<Longrightarrow> fine (if c then a else b) d"
  by simp

lemma fine_let: "fine (f (t d)) d \<Longrightarrow> fine (\<lambda>d. let x = t d in f x d) d"
  by (simp add: fine_def)

lemma fine_let': "fine (f t) d \<Longrightarrow> fine (let x = t in f x) d"
  by simp

lemma fine_prod: "(\<And>a b. p = (a, b) \<Longrightarrow> fine (f a b) d) \<Longrightarrow> fine (case p of (a, b) \<Rightarrow> f a b) d"
  by (cases p) simp

lemma fine_throw: "e \<noteq> Diverges \<Longrightarrow> fine (sthrow e) d" "e \<noteq> Diverges \<Longrightarrow> fine (\<lambda>d. (Inl e, d)) d"
  by (simp_all add: fine_def sthrow_def)

lemma fine_return: "fine (sreturn x) d"
  by (simp add: fine_def sreturn_def)

lemma copy_not_diverges [simp]: "copyPartialLe m a s b n \<noteq> Inl Diverges" "copyLe m a b n \<noteq> Inl Diverges"
  by (simp_all add: copyPartialLe_def copyLe_def mem_read_def mem_write_def)

lemma fine_prims:
  "fine (peek i) d" "fine next_octet d" "fine (octets_at i n) d" "fine (skip_octets n) d" "fine (throw_beyond n w) d"
  "fine (throw_at_end w) d" "fine (throw_short n w) d" "fine (bad w t) d"
  "fine (\<lambda>d. (copyPartialLe m a s b n, d)) d" "fine (\<lambda>d. (copyLe m a b n, d)) d"
  by (auto simp: fine_def peek_def next_octet_def octets_at_def skip_octets_def throw_beyond_def throw_at_end_def
      throw_short_def bad_def sthrow_def mem_get_def mem_read_def)

lemmas fine_intros = fine_bind fine_if fine_if' fine_let fine_let' fine_prod fine_throw fine_return fine_prims

lemma fine_int_loop: "fine (int_loop n i v) d"
  by (induction n arbitrary: i v d) (simp_all add: fine_intros)

lemma fine_sign_extend: "fine (sign_extend n v) d"
  unfolding sign_extend_def by (intro fine_intros) auto

lemma fine_take_octets: "fine (take_octets n) d"
  unfolding take_octets_def by (intro fine_intros)

lemma fine_readGenLength: "fine (readGenLength n) d"
  unfolding readGenLength_def by (intro fine_intros) auto

lemmas fine_more = fine_intros fine_int_loop fine_sign_extend fine_take_octets fine_readGenLength

lemma fine_readInt64: "fine readInt64 d"
  unfolding readInt64_def by (intro fine_more) simp_all

lemma fine_readString: "fine readString d" and fine_readBinary: "fine readBinary d"
  unfolding readString_def readBinary_def by (intro fine_more)+

lemma fine_readBool: "fine readBool d" and fine_readDouble: "fine readDouble d"
  unfolding readBool_def readDouble_def by (intro fine_more)+

lemma fine_readTime: "fine (readTime tg) d"
  unfolding readTime_def by (intro fine_more)

lemma fine_lengths: "fine readStructLength d" "fine readArrayLength d"
  unfolding readStructLength_def readArrayLength_def by (intro fine_more)+

lemma fine_names: "fine readMemberName d" "fine readMethodName d" "fine readMethodResponse d"
  unfolding readMemberName_def readMethodName_def readMethodResponse_def by (intro fine_more)+

lemma fine_readFault: "fine readFaultResponse d"
  unfolding readFaultResponse_def by (intro fine_more fine_readInt64 fine_readString)

lemma fine_readCheckType: "fine readCheckType d"
  unfolding readCheckType_def
  by (intro fine_more) (auto simp: fine_def sreturn_def sthrow_def split: option.splits)

lemmas fine_reads = fine_readInt64 fine_readString fine_readBinary fine_readBool fine_readDouble fine_readTime
  fine_lengths fine_names fine_readFault fine_readCheckType

text \<open>Reading a length consumes an octet of the memory.\<close>

lemma length_consumes:
  "readStructLength d = (Inr n, d') \<Longrightarrow> fd_pos d < length (fd_mem d) \<and> fd_pos d < fd_pos d' \<and> fd_mem d' = fd_mem d"
  "readArrayLength d = (Inr n, d') \<Longrightarrow> fd_pos d < length (fd_mem d) \<and> fd_pos d < fd_pos d' \<and> fd_mem d' = fd_mem d"
proof -
  have "fd_pos d < length (fd_mem d) \<and> fd_pos d < fd_pos d' \<and> fd_mem d' = fd_mem d"
    if m: "sbind (throw_at_end w) (\<lambda>_. sbind next_octet (\<lambda>type.
          if type AND 0xf8 \<noteq> k then bad x type else readGenLength (unat (type AND 7)))) d = (Inr n, d')" for w k x
  proof -
    obtain t d1 where t: "next_octet d = (Inr t, d1)" "readGenLength (unat (t AND 7)) d1 = (Inr n, d')"
      using m by (auto simp: sbind_eq_Inr throw_at_end_def bad_def sthrow_def split: if_splits)
    have "fine (readGenLength (unat (t AND 7))) d1" by (rule fine_readGenLength)
    with t show ?thesis
      by (auto simp: fine_def next_octet_def mem_get_def split: sum.splits if_splits)
  qed
  from this[of "''string''"] show
    "readStructLength d = (Inr n, d') \<Longrightarrow> fd_pos d < length (fd_mem d) \<and> fd_pos d < fd_pos d' \<and> fd_mem d' = fd_mem d"
    "readArrayLength d = (Inr n, d') \<Longrightarrow> fd_pos d < length (fd_mem d) \<and> fd_pos d < fd_pos d' \<and> fd_mem d' = fd_mem d"
    unfolding readStructLength_def readArrayLength_def by blast+
qed

lemma fine_array_loop:
  "(\<And>d. fd_mem d = mem \<Longrightarrow> p \<le> fd_pos d \<Longrightarrow> fine rd d) \<Longrightarrow> fd_mem d = mem \<Longrightarrow> p \<le> fd_pos d \<Longrightarrow>
   fine (array_loop rd count acc) d"
proof (induction rd count acc d rule: array_loop.induct)
  case (1 rd count acc d)
  obtain again count' where c: "checkArrayNext count = (again, count')" by fastforce
  show ?case
  proof (cases again)
    case True
    have "fine rd d" using 1(2-4) by blast
    moreover have "fine (array_loop rd count' (acc @ [v])) d'" if v: "rd d = (Inr v, d')" for v d'
      by (rule 1(1)[OF c[symmetric] True v 1(2)]) (use v \<open>fine rd d\<close> 1(3,4) in \<open>auto simp: fine_def\<close>)
    ultimately have "fine (sbind rd (\<lambda>v. array_loop rd count' (acc @ [v]))) d"
      by (rule fine_bind)
    then show ?thesis
      using c True by (simp add: fine_def array_loop.simps[of rd count acc d])
  next
    case False
    then show ?thesis using c by (simp add: fine_def array_loop.simps)
  qed
qed

lemma fine_struct_loop:
  "(\<And>d. fd_mem d = mem \<Longrightarrow> p \<le> fd_pos d \<Longrightarrow> fine rd d) \<Longrightarrow> fd_mem d = mem \<Longrightarrow> p \<le> fd_pos d \<Longrightarrow>
   fine (struct_loop rd count acc) d"
proof (induction rd count acc d rule: struct_loop.induct)
  case (1 rd count acc d)
  obtain again count' where c: "checkStructNext count = (again, count')" by fastforce
  show ?case
  proof (cases again)
    case True
    have "fine (sbind rd (\<lambda>v. struct_loop rd count' (AList.update nm v acc))) d1" if nm: "readMemberName d = (Inr nm, d1)" for nm d1
    proof -
      have d1: "fd_mem d1 = mem" "p \<le> fd_pos d1"
        using nm fine_names(1)[of d] 1(3,4) by (auto simp: fine_def)
      then have rd: "fine rd d1" using 1(2) by blast
      show ?thesis
        by (rule fine_bind[OF rd], rule 1(1)[OF c[symmetric] True nm _ 1(2)]) (use rd d1 in \<open>auto simp: fine_def\<close>)
    qed
    with fine_names(1)[of d] have "fine (sbind readMemberName (\<lambda>nm. sbind rd (\<lambda>v. struct_loop rd count' (AList.update nm v acc)))) d"
      by (rule fine_bind)
    then show ?thesis
      using c True by (simp add: fine_def struct_loop.simps[of rd count acc d])
  next
    case False
    then show ?thesis using c by (simp add: fine_def struct_loop.simps)
  qed
qed

lemma fine_skip_loop:
  "(\<And>d. fd_mem d = mem \<Longrightarrow> p \<le> fd_pos d \<Longrightarrow> fine body d) \<Longrightarrow> fd_mem d = mem \<Longrightarrow> p \<le> fd_pos d \<Longrightarrow>
   fine (skip_loop body n) d"
proof (induction n arbitrary: d)
  case (Suc n)
  have b: "fine body d" using Suc.prems by blast
  show ?case
    unfolding skip_loop.simps
    by (rule fine_bind[OF b], rule Suc.IH[OF Suc.prems(1)]) (use b Suc.prems in \<open>auto simp: fine_def\<close>)
qed (simp add: fine_return)

lemma fine_map: "fine m d \<Longrightarrow> fine (sbind m (\<lambda>v. sreturn (g v))) d"
  by (rule fine_bind) (auto intro: fine_return)

lemma fine_variant_rec: "length (fd_mem d) - fd_pos d < n \<Longrightarrow> fine (readVariant_rec tg n) d"
proof (induction n arbitrary: d)
  case (Suc n)
  have rec: "fine (readVariant_rec tg n) d''"
    if "fd_pos d < length (fd_mem d)" "fd_pos d < fd_pos d'" "fd_mem d'' = fd_mem d'" "fd_mem d' = fd_mem d" "fd_pos d' \<le> fd_pos d''" for d' d''
    by (rule Suc.IH) (use that Suc.prems in auto)
  have st: "fine (sbind readStructLength (\<lambda>k. sbind (struct_loop (readVariant_rec tg n) k []) (\<lambda>s. sreturn (V_Struct s)))) d"
  proof (rule fine_bind[OF fine_lengths(1)], rule fine_map)
    fix k d' assume "readStructLength d = (Inr k, d')"
    from length_consumes(1)[OF this] show "fine (struct_loop (readVariant_rec tg n) k []) d'"
      by (intro fine_struct_loop[of "fd_mem d'" "fd_pos d'"] rec[of d']) auto
  qed
  have ar: "fine (sbind readArrayLength (\<lambda>k. sbind (array_loop (readVariant_rec tg n) k []) (\<lambda>s. sreturn (V_Array s)))) d"
  proof (rule fine_bind[OF fine_lengths(2)], rule fine_map)
    fix k d' assume "readArrayLength d = (Inr k, d')"
    from length_consumes(2)[OF this] show "fine (array_loop (readVariant_rec tg n) k []) d'"
      by (intro fine_array_loop[of "fd_mem d'" "fd_pos d'"] rec[of d']) auto
  qed
  have "fine (variant_switch tg (readVariant_rec tg n) t) d" for t
    unfolding variant_switch_def
    by (cases t) (simp_all add: st ar fine_map fine_reads fine_intros)
  moreover have "d' = d" if "readCheckType d = (Inr t, d')" for t d'
    using that by (auto simp: readCheckType_def sbind_eq_Inr peek_def sreturn_def sthrow_def split: if_splits option.splits)
  ultimately have "fine (variant_switch tg (readVariant_rec tg n) t) d'" if "readCheckType d = (Inr t, d')" for t d'
    using that by blast
  then show ?case
    unfolding readVariant_rec.simps by (rule fine_bind[OF fine_readCheckType])
qed simp

lemma fine_skip_rec: "length (fd_mem d) - fd_pos d < n \<Longrightarrow> fine (readSkip_rec tg n) d"
proof (induction n arbitrary: d)
  case (Suc n)
  have rec: "fine (readSkip_rec tg n) d''"
    if "fd_pos d < length (fd_mem d)" "fd_pos d < fd_pos d'" "fd_mem d'' = fd_mem d'" "fd_mem d' = fd_mem d" "fd_pos d' \<le> fd_pos d''" for d' d''
    by (rule Suc.IH) (use that Suc.prems in auto)
  have st: "fine (sbind readStructLength (\<lambda>k. skip_loop (sbind readMemberName (\<lambda>_. readSkip_rec tg n)) (unat k))) d"
  proof (rule fine_bind[OF fine_lengths(1)])
    fix k d' assume "readStructLength d = (Inr k, d')"
    note k = length_consumes(1)[OF this]
    show "fine (skip_loop (sbind readMemberName (\<lambda>_. readSkip_rec tg n)) (unat k)) d'"
    proof (rule fine_skip_loop[of "fd_mem d'" "fd_pos d'"])
      fix d2 :: fdec assume "fd_mem d2 = fd_mem d'" "fd_pos d' \<le> fd_pos d2"
      then show "fine (sbind readMemberName (\<lambda>_. readSkip_rec tg n)) d2"
        using k fine_names(1)[of d2] by (intro fine_bind[OF fine_names(1)] rec[of d']) (auto simp: fine_def)
    qed simp_all
  qed
  have ar: "fine (sbind readArrayLength (\<lambda>k. skip_loop (readSkip_rec tg n) (unat k))) d"
  proof (rule fine_bind[OF fine_lengths(2)])
    fix k d' assume "readArrayLength d = (Inr k, d')"
    from length_consumes(2)[OF this] show "fine (skip_loop (readSkip_rec tg n) (unat k)) d'"
      by (intro fine_skip_loop[of "fd_mem d'" "fd_pos d'"] rec[of d']) auto
  qed
  have "fine (skip_switch tg (readSkip_rec tg n) b) d" for b
    unfolding skip_switch_def
    by (auto simp: st ar fine_map fine_reads fine_intros split: option.splits rpc_type.splits)
  then show ?case
    unfolding readSkip_rec.simps
    by (intro fine_bind[OF fine_prims(1)]) (auto simp: peek_def)
qed simp

end
