(* ===== verification/Drt_FastRpc_Props.thy ===== *)
theory Drt_FastRpc_Props
  imports Drt_FastRpc_Wire
begin

unbundle bit_operations_syntax

text \<open>
  Further properties of the binary protocol: what a read can return on arbitrary input, the integers
  of both widths, truncated content, scalars passed by pointer, and times.
\<close>

subsection \<open>What a read can return\<close>

fun typed :: "variant \<Rightarrow> bool"
  and typed_list :: "variant list \<Rightarrow> bool"
  and typed_members :: "(byte list \<times> variant) list \<Rightarrow> bool" where
  "typed (V_Struct ms) = (distinct (map fst ms) \<and> typed_members ms)"
| "typed (V_Array vs) = typed_list vs"
| "typed _ = True"
| "typed_list [] = True"
| "typed_list (v # vs) = (typed v \<and> typed_list vs)"
| "typed_members [] = True"
| "typed_members ((n, v) # ms) = (length n \<le> 255 \<and> typed v \<and> typed_members ms)"

lemma typed_list_snoc: "typed_list vs \<Longrightarrow> typed v \<Longrightarrow> typed_list (vs @ [v])"
  by (induction vs) auto

lemma typed_members_update:
  "typed_members ms \<Longrightarrow> length n \<le> 255 \<Longrightarrow> typed v \<Longrightarrow> typed_members (AList.update n v ms)"
  by (induction ms) auto

lemma readMemberName_length: "readMemberName d = (Inr n, d') \<Longrightarrow> length n \<le> 255"
proof -
  assume "readMemberName d = (Inr n, d')"
  then obtain len :: byte and d1 :: fdec and d2 where "mem_read (fd_mem d1) d2 (unat len) = Inr n"
    by (auto simp: readMemberName_def sbind_eq_Inr take_octets_def octets_at_def skip_octets_def sreturn_def)
  then have "length n = unat len"
    by (auto simp: mem_read_def split: if_splits)
  then show ?thesis using unat_byte_less[of len] by simp
qed

lemma array_loop_typed:
  "(\<And>d v d'. rd d = (Inr v, d') \<Longrightarrow> typed v) \<Longrightarrow> typed_list acc \<Longrightarrow> array_loop rd count acc d = (Inr r, d') \<Longrightarrow> typed_list r"
proof (induction rd count acc d arbitrary: r d' rule: array_loop.induct)
  case (1 rd count acc d)
  obtain again count' where c: "checkArrayNext count = (again, count')" by fastforce
  show ?case
  proof (cases again)
    case True
    with 1(4) c obtain v d1 where v: "rd d = (Inr v, d1)" "array_loop rd count' (acc @ [v]) d1 = (Inr r, d')"
      by (auto simp: array_loop.simps[of rd count acc d] sbind_eq_Inr)
    show ?thesis
      by (rule 1(1)[OF c[symmetric] True v(1) 1(2) _ v(2)]) (use typed_list_snoc[OF 1(3) 1(2)[OF v(1)]] in auto)
  next
    case False
    with 1(3,4) c show ?thesis by (simp add: array_loop.simps[of rd count acc d])
  qed
qed

lemma struct_loop_typed:
  "(\<And>d v d'. rd d = (Inr v, d') \<Longrightarrow> typed v) \<Longrightarrow> typed_members acc \<Longrightarrow> distinct (map fst acc) \<Longrightarrow>
   struct_loop rd count acc d = (Inr r, d') \<Longrightarrow> typed_members r \<and> distinct (map fst r)"
proof (induction rd count acc d arbitrary: r d' rule: struct_loop.induct)
  case (1 rd count acc d)
  obtain again count' where c: "checkStructNext count = (again, count')" by fastforce
  show ?case
  proof (cases again)
    case True
    with 1(5) c obtain n v d1 d2 where n: "readMemberName d = (Inr n, d1)" and v: "rd d1 = (Inr v, d2)"
      "struct_loop rd count' (AList.update n v acc) d2 = (Inr r, d')"
      by (auto simp: struct_loop.simps[of rd count acc d] sbind_eq_Inr)
    show ?thesis
      by (rule 1(1)[OF c[symmetric] True n v(1) 1(2) _ _ v(2)])
         (use typed_members_update[OF 1(3) readMemberName_length[OF n] 1(2)[OF v(1)]] distinct_update[OF 1(4)] in auto)
  next
    case False
    with 1(3-5) c show ?thesis by (simp add: struct_loop.simps[of rd count acc d])
  qed
qed

lemma readVariant_rec_typed: "readVariant_rec tg n d = (Inr v, d') \<Longrightarrow> typed v"
proof (induction n arbitrary: d v d')
  case (Suc n)
  then obtain t d1 where "variant_switch tg (readVariant_rec tg n) t d1 = (Inr v, d')"
    unfolding readVariant_rec.simps sbind_eq_Inr by blast
  note h = this
  show ?case
  proof (cases t)
    case RT_Struct
    with h obtain k d2 d3 r where r: "struct_loop (readVariant_rec tg n) k [] d2 = (Inr r, d3)" "v = V_Struct r"
      by (auto simp: variant_switch_def sbind_eq_Inr sreturn_def)
    have "typed_members r \<and> distinct (map fst r)"
      by (rule struct_loop_typed[of "readVariant_rec tg n", OF Suc.IH _ _ r(1)]) simp_all
    with r(2) show ?thesis by simp
  next
    case RT_Array
    with h obtain k d2 d3 r where r: "array_loop (readVariant_rec tg n) k [] d2 = (Inr r, d3)" "v = V_Array r"
      by (auto simp: variant_switch_def sbind_eq_Inr sreturn_def)
    have "typed_list r"
      by (rule array_loop_typed[of "readVariant_rec tg n", OF Suc.IH _ r(1)]) simp_all
    with r(2) show ?thesis by simp
  qed (use h in \<open>auto simp: variant_switch_def sbind_eq_Inr sreturn_def sthrow_def\<close>)
qed (simp add: sthrow_def)


section \<open>Integers\<close>

lemma emits_minimum: "emits (writeInt64 (word_of_int (- (2 ^ 63)))) [0x40, 0]" "emits (writeInt32 (word_of_int (- (2 ^ 31)))) [0x40, 0]"
proof -
  have "int64_type (Suc 0) (word_of_int (- (2 ^ 63))) = (0x40, word_of_int (- (2 ^ 63)))" by code_simp
  moreover have "take 2 (0x40 # le_bytes 8 (unat (word_of_int (- (2 ^ 63)) :: u64))) = [0x40, 0]"
    by (simp add: take_le_bytes)
  ultimately show "emits (writeInt64 (word_of_int (- (2 ^ 63)))) [0x40, 0]"
    by (simp add: emits_def writeInt64_def)
  have "int32_type (Suc 0) (word_of_int (- (2 ^ 31))) = (0x40, word_of_int (- (2 ^ 31)))" by code_simp
  moreover have "take 2 (0x40 # le_bytes 4 (unat (word_of_int (- (2 ^ 31)) :: u32))) = [0x40, 0]"
    by (simp add: take_le_bytes)
  ultimately show "emits (writeInt32 (word_of_int (- (2 ^ 31)))) [0x40, 0]"
    by (simp add: emits_def writeInt32_def)
qed

lemma content_emits: "emits f bs \<Longrightarrow> fe_content (f FastRpcEncoder) = bs"
  by (simp add: emits_def FastRpcEncoder_def)

lemma word_of_sint: "sint (v :: 'a::len word) = i \<Longrightarrow> v = word_of_int i"
  by auto

lemma minimum_decodes: "decodes readInt64 [0x40, 0] 0" "decodes readInt32 [0x40, 0] 0"
proof -
  have "decodes (sbind (int_loop 1 0 0) (\<lambda>value. sreturn (- value))) [0] (0 :: 'a::len word)"
    using decodes_map[OF int_loop_decodes[of "[0]" 0 "0 :: 'a word"], of uminus] by simp
  then have body: "decodes (sbind (throw_short 1 w) (\<lambda>_. sbind (int_loop 1 0 0) (\<lambda>value. sreturn (- value)))) [0] (0 :: 'a::len word)" for w
    by (intro short_decodes) simp_all
  show "decodes readInt64 [0x40, 0] 0" "decodes readInt32 [0x40, 0] 0"
    unfolding readInt64_def readInt32_def
    by (intro at_end_decodes decodes_octet'[OF _ body]; simp add: kind_def)+
qed

lemma written_int64:
  "decodes readInt64 (fe_content (writeInt64 v FastRpcEncoder)) (if sint v = - (2 ^ 63) then 0 else v)"
proof (cases "sint v = - (2 ^ 63)")
  case True
  then show ?thesis
    using minimum_decodes(1) content_emits[OF emits_minimum(1)] word_of_sint[OF True] by simp
next
  case False
  then show ?thesis
    using readInt64_decodes[OF sint_abs_less[of v]] content_emits[OF emits_int64[OF False]] by simp
qed

lemma sint_abs_less32: "\<bar>sint (w :: u32)\<bar> < 2 ^ 32"
  using sint_ge[of w] sint_lt[of w] by simp

lemma written_int32:
  "decodes readInt32 (fe_content (writeInt32 w FastRpcEncoder)) (if sint w = - (2 ^ 31) then 0 else w)"
  "decodes readInt64 (fe_content (writeInt32 w FastRpcEncoder)) (if sint w = - (2 ^ 31) then 0 else scast w)"
proof -
  have "decodes readInt32 (fe_content (writeInt32 w FastRpcEncoder)) (if sint w = - (2 ^ 31) then 0 else w) \<and>
        decodes readInt64 (fe_content (writeInt32 w FastRpcEncoder)) (if sint w = - (2 ^ 31) then 0 else scast w)"
  proof (cases "sint w = - (2 ^ 31)")
    case True
    then show ?thesis
      using minimum_decodes content_emits[OF emits_minimum(2)] word_of_sint[OF True] by simp
  next
    case False
    have "\<bar>sint w\<bar> < 2 ^ 64" using sint_abs_less32[of w] by simp
    then show ?thesis
      using readInt32_decodes[OF sint_abs_less32[of w]] readInt64_decodes[of "sint w"]
        content_emits[OF emits_int32[OF False]] False by simp
  qed
  then show "decodes readInt32 (fe_content (writeInt32 w FastRpcEncoder)) (if sint w = - (2 ^ 31) then 0 else w)"
    "decodes readInt64 (fe_content (writeInt32 w FastRpcEncoder)) (if sint w = - (2 ^ 31) then 0 else scast w)"
    by blast+
qed

text \<open>
  C34: an integer of either width that was written is read back unchanged, and a 32-bit integer may
  be read as a 64-bit one, with one exception: the smallest integer of each width, whose negation
  is negative again, is written in a single octet and reads back as zero.
\<close>

theorem fastrpc_integers:
  assumes "fd_length_add d = 1"
  shows "(holds d (fe_content (writeInt64 v FastRpcEncoder)) \<longrightarrow>
            fst (readInt64 d) = Inr (if sint v = - (2 ^ 63) then 0 else v)) \<and>
         (holds d (fe_content (writeInt32 w FastRpcEncoder)) \<longrightarrow>
            fst (readInt32 d) = Inr (if sint w = - (2 ^ 31) then 0 else w) \<and>
            fst (readInt64 d) = Inr (if sint w = - (2 ^ 31) then 0 else scast w))"
  using decodesD[OF written_int64 assms] decodesD[OF written_int32(1) assms] decodesD[OF written_int32(2) assms] by simp

definition reading :: "byte list \<Rightarrow> fdec" where
  "reading bs = \<lparr>fd_mem = bs, fd_pos = 0, fd_end = length bs, version_major = 2, version_minor = 0, fd_length_add = 1\<rparr>"

lemma reading_holds: "holds (reading bs) bs" "fd_length_add (reading bs) = 1"
  by (simp_all add: reading_def holds_def)

theorem fastrpc_integers_witness:
  "fst (readInt64 (reading (fe_content (writeInt64 (push_bit 63 1) FastRpcEncoder)))) = Inr 0 \<and>
   fst (readInt32 (reading (fe_content (writeInt32 (- 70000) FastRpcEncoder)))) = Inr (- 70000)"
proof -
  have s: "sint (push_bit 63 1 :: u64) = - (2 ^ 63)" "sint (- 70000 :: u32) = - 70000" by code_simp+
  show ?thesis
    using fastrpc_integers[of "reading (fe_content (writeInt64 (push_bit 63 1) FastRpcEncoder))" "push_bit 63 1" 0]
      fastrpc_integers[of "reading (fe_content (writeInt32 (- 70000) FastRpcEncoder))" 0 "- 70000"]
      reading_holds s by simp
qed

section \<open>Truncated content\<close>

text \<open>
  C37: a string whose announced length reaches past the end of the content is not refused.  The test
  \<^verbatim>\<open>pos > end+str_len\<close> never fires, so the decoder returns the octets that happen to follow the
  content in memory, or reads outside the memory when there are not enough of them.
\<close>

theorem fastrpc_truncated_string:
  assumes "length s < n" "n < 256" "fd_length_add junk = 1"
  shows "fst (readString (setContent ([0x20, of_nat n] @ s) after junk)) =
           (if n \<le> length s + length after then Inr (s @ take (n - length s) after) else Inl OutOfBounds)"
proof -
  have n: "unat (of_nat n :: byte) = n" using assms(2) by (simp add: unat_of_nat)
  have c: "copyPartialLe (replicate 8 0) 0 8 [of_nat n] (Suc 0) = Inr (of_nat n # replicate 7 0)"
    by (simp add: copyPartialLe_def mem_read_def mem_write_def eval_nat_numeral)
  have v: "(of_nat (le_value (of_nat n # replicate 7 0)) :: u64) = of_nat n"
    using n by (simp add: eval_nat_numeral)
  have u: "unat (of_nat n :: u64) = n" using assms(2) by (simp add: unat_of_nat)
  show ?thesis
    using assms n
    by (simp add: readString_def sbind_def setContent_def throw_at_end_def next_octet_def readGenLength_def Let_def
        throw_beyond_def octets_at_def mem_read_def take_octets_def skip_octets_def sreturn_def c v u
        del: le_value.simps replicate.simps)
qed

theorem fastrpc_truncated_string_witness:
  "fst (readString (setContent ([0x20, of_nat 5] @ [97]) [0, 115, 51, 99, 114] (reading []))) = Inr [97, 0, 115, 51, 99]"
  using fastrpc_truncated_string[of "[97]" 5 "reading []" "[0, 115, 51, 99, 114]"]
  by (simp add: reading_def eval_nat_numeral)

section \<open>Scalars by pointer\<close>

fun scalar_ok :: "scalar \<Rightarrow> bool" where
  "scalar_ok (T_Sint32 v) = (sint v \<noteq> - (2 ^ 31))"
| "scalar_ok (T_Uint32 v) = (sint v \<noteq> - (2 ^ 31))"
| "scalar_ok (T_Sint64 v) = (sint v \<noteq> - (2 ^ 63))"
| "scalar_ok (T_Uint64 v) = (sint v \<noteq> - (2 ^ 63))"
| "scalar_ok (T_String s) = (length s < 2 ^ 32)"
| "scalar_ok (T_Blob s) = (length s < 2 ^ 32)"
| "scalar_ok (T_Float _) = False"
| "scalar_ok (T_Double _) = False"
| "scalar_ok (T_LongDouble _) = False"
| "scalar_ok T_None = False"
| "scalar_ok T_Object = False"
| "scalar_ok _ = True"

fun getType :: "scalar \<Rightarrow> nat" where
  "getType T_None = 0"
| "getType (T_Bool _) = 1"
| "getType (T_Sint8 _) = 2"
| "getType (T_Sint16 _) = 3"
| "getType (T_Sint32 _) = 4"
| "getType (T_Sint64 _) = 5"
| "getType (T_Uint8 _) = 6"
| "getType (T_Uint16 _) = 7"
| "getType (T_Uint32 _) = 8"
| "getType (T_Uint64 _) = 9"
| "getType (T_Float _) = 10"
| "getType (T_Double _) = 11"
| "getType (T_LongDouble _) = 12"
| "getType (T_String _) = 13"
| "getType (T_Blob _) = 14"
| "getType T_Object = 15"

definition same_type :: "scalar \<Rightarrow> scalar \<Rightarrow> bool" where
  "same_type a b \<longleftrightarrow> getType a = getType b"

lemma scast_small8: "sint (scast (v :: byte) :: u32) \<noteq> - (2 ^ 31)" "ucast (scast v :: u32) = v"
proof -
  have "sint (scast v :: u32) = sint v"
    using sint_ge[of v] sint_lt[of v] by (simp add: signed_scast_eq signed_take_bit_int_eq_self)
  then show "sint (scast v :: u32) \<noteq> - (2 ^ 31)" using sint_ge[of v] by simp
  show "ucast (scast v :: u32) = v"
    by (rule bit_word_eqI) (auto simp: bit_simps)
qed

lemma scast_small16: "sint (scast (v :: u16) :: u32) \<noteq> - (2 ^ 31)" "ucast (scast v :: u32) = v"
proof -
  have "sint (scast v :: u32) = sint v"
    using sint_ge[of v] sint_lt[of v] by (simp add: signed_scast_eq signed_take_bit_int_eq_self)
  then show "sint (scast v :: u32) \<noteq> - (2 ^ 31)" using sint_ge[of v] by simp
  show "ucast (scast v :: u32) = v"
    by (rule bit_word_eqI) (auto simp: bit_simps)
qed

lemma small_written:
  "decodes readInt32 (fe_content (writeInt32 (scast (v :: byte)) FastRpcEncoder)) (scast v)"
  "decodes readInt32 (fe_content (writeInt32 (scast (w :: u16)) FastRpcEncoder)) (scast w)"
  using written_int32(1)[of "scast v"] written_int32(1)[of "scast w"] scast_small8(1)[of v] scast_small16(1)[of w] by simp_all

lemma scalar_decodes:
  assumes "scalar_ok s" "same_type old s"
  shows "\<exists>e. writeValue widen s FastRpcEncoder = (Inr (), e) \<and> decodes (readValue tg narrow old) (fe_content e) s"
proof (cases s)
  case (T_Bool b)
  then show ?thesis
    using assms decodes_map[OF readBool_decodes[of b], of T_Bool]
    by (cases old) (simp_all add: same_type_def writeValue_def readValue_def writeBool_def FastRpcEncoder_def)
next
  case (T_Sint8 v)
  then show ?thesis
    using assms decodes_map[OF small_written(1)[of v], of "T_Sint8 \<circ> ucast"]
    by (cases old) (simp_all add: same_type_def writeValue_def readValue_def scast_small8)
next
  case (T_Uint8 v)
  then show ?thesis
    using assms decodes_map[OF small_written(1)[of v], of "T_Uint8 \<circ> ucast"]
    by (cases old) (simp_all add: same_type_def writeValue_def readValue_def scast_small8)
next
  case (T_Sint16 v)
  then show ?thesis
    using assms decodes_map[OF small_written(2)[of v], of "T_Sint16 \<circ> ucast"]
    by (cases old) (simp_all add: same_type_def writeValue_def readValue_def scast_small16)
next
  case (T_Uint16 v)
  then show ?thesis
    using assms decodes_map[OF small_written(2)[of v], of "T_Uint16 \<circ> ucast"]
    by (cases old) (simp_all add: same_type_def writeValue_def readValue_def scast_small16)
next
  case (T_Sint32 v)
  then show ?thesis
    using assms decodes_map[OF written_int32(1)[of v], of T_Sint32]
    by (cases old) (simp_all add: same_type_def writeValue_def readValue_def)
next
  case (T_Uint32 v)
  then show ?thesis
    using assms decodes_map[OF written_int32(1)[of v], of T_Uint32]
    by (cases old) (simp_all add: same_type_def writeValue_def readValue_def)
next
  case (T_Sint64 v)
  then show ?thesis
    using assms decodes_map[OF written_int64[of v], of T_Sint64]
    by (cases old) (simp_all add: same_type_def writeValue_def readValue_def)
next
  case (T_Uint64 v)
  then show ?thesis
    using assms decodes_map[OF written_int64[of v], of T_Uint64]
    by (cases old) (simp_all add: same_type_def writeValue_def readValue_def)
next
  case (T_String v)
  then show ?thesis
    using assms decodes_map[OF readString_decodes[of v], of T_String] content_emits[OF emits_string[of v]]
    by (cases old) (simp_all add: same_type_def writeValue_def readValue_def)
next
  case (T_Blob v)
  then show ?thesis
    using assms decodes_map[OF readBinary_decodes[of v], of T_Blob] content_emits[OF emits_binary[of v]]
    by (cases old) (simp_all add: same_type_def writeValue_def readValue_def)
qed (use assms in simp_all)



section \<open>Times\<close>

lemma u32_bitI:
  assumes "\<And>n. n \<in> set [0..<32] \<Longrightarrow> bit (a :: u32) n = bit b n" shows "a = b"
  by (rule bit_word_eqI) (use assms in simp)

lemma u32_add_or:
  assumes "\<And>n. n \<in> set [0..<32] \<Longrightarrow> \<not> (bit (a :: u32) n \<and> bit b n)" shows "a + b = a OR b"
  by (rule disjunctive_add) (use assms bit_imp_le_length[of a] in force)

lemma pack_or:
  "7 + push_bit 3 (sec AND 0x1f) = 7 OR push_bit 3 (sec AND 0x1f :: u32)"
  "drop_bit 5 (sec AND 0x20) + push_bit 1 (mi AND 0x3f) + push_bit 7 (hour AND 0x01) =
     drop_bit 5 (sec AND 0x20) OR push_bit 1 (mi AND 0x3f) OR push_bit 7 (hour AND 0x01 :: u32)"
  "drop_bit 1 (hour AND 0x1e) + push_bit 4 (d AND 0x0f) = drop_bit 1 (hour AND 0x1e) OR push_bit 4 (d AND 0x0f :: u32)"
  "drop_bit 4 (d AND 0x1f) + push_bit 1 (m AND 0x0f) + push_bit 5 (y AND 0x07) =
     drop_bit 4 (d AND 0x1f) OR push_bit 1 (m AND 0x0f) OR push_bit 5 (y AND 0x07 :: u32)"
proof -
  show "7 + push_bit 3 (sec AND 0x1f) = 7 OR push_bit 3 (sec AND 0x1f :: u32)"
    by (rule u32_add_or) (simp add: upt_rec, elim disjE; simp add: bit_simps)
  show "drop_bit 1 (hour AND 0x1e) + push_bit 4 (d AND 0x0f) = drop_bit 1 (hour AND 0x1e) OR push_bit 4 (d AND 0x0f :: u32)"
    by (rule u32_add_or) (simp add: upt_rec, elim disjE; simp add: bit_simps)
  have "drop_bit 5 (sec AND 0x20) + push_bit 1 (mi AND 0x3f) = drop_bit 5 (sec AND 0x20) OR push_bit 1 (mi AND 0x3f :: u32)"
    by (rule u32_add_or) (simp add: upt_rec, elim disjE; simp add: bit_simps)
  moreover have "(drop_bit 5 (sec AND 0x20) OR push_bit 1 (mi AND 0x3f)) + push_bit 7 (hour AND 0x01) =
     (drop_bit 5 (sec AND 0x20) OR push_bit 1 (mi AND 0x3f)) OR push_bit 7 (hour AND 0x01 :: u32)"
    by (rule u32_add_or) (simp add: upt_rec, elim disjE; simp add: bit_simps)
  ultimately show "drop_bit 5 (sec AND 0x20) + push_bit 1 (mi AND 0x3f) + push_bit 7 (hour AND 0x01) =
     drop_bit 5 (sec AND 0x20) OR push_bit 1 (mi AND 0x3f) OR push_bit 7 (hour AND 0x01 :: u32)"
    by (simp add: or.assoc)
  have "drop_bit 4 (d AND 0x1f) + push_bit 1 (m AND 0x0f) = drop_bit 4 (d AND 0x1f) OR push_bit 1 (m AND 0x0f :: u32)"
    by (rule u32_add_or) (simp add: upt_rec, elim disjE; simp add: bit_simps)
  moreover have "(drop_bit 4 (d AND 0x1f) OR push_bit 1 (m AND 0x0f)) + push_bit 5 (y AND 0x07) =
     (drop_bit 4 (d AND 0x1f) OR push_bit 1 (m AND 0x0f)) OR push_bit 5 (y AND 0x07 :: u32)"
    by (rule u32_add_or) (simp add: upt_rec, elim disjE; simp add: bit_simps)
  ultimately show "drop_bit 4 (d AND 0x1f) + push_bit 1 (m AND 0x0f) + push_bit 5 (y AND 0x07) =
     drop_bit 4 (d AND 0x1f) OR push_bit 1 (m AND 0x0f) OR push_bit 5 (y AND 0x07 :: u32)"
    by (simp add: or.assoc)
qed

text \<open>The fields that come back are the low bits of those that went in.\<close>

lemma unpack_pack:
  assumes "length p = 5"
  shows "unpack_calendar (p @ pack_calendar (year, mon, day, hour, mi, sec)) =
    (1600 + take_bit 11 (year - 1600), take_bit 4 (mon + 1) - 1, take_bit 5 (day + 1) - 1,
     take_bit 5 hour, take_bit 6 mi, take_bit 6 sec)"
proof -
  define y m d where "y = year - 1600" and "m = mon + 1" and "d = day + 1"
  let ?b5 = "ucast (ucast (7 OR push_bit 3 (sec AND 0x1f)) :: byte) :: u32"
  let ?b6 = "ucast (ucast (drop_bit 5 (sec AND 0x20) OR push_bit 1 (mi AND 0x3f) OR push_bit 7 (hour AND 0x01)) :: byte) :: u32"
  let ?b7 = "ucast (ucast (drop_bit 1 (hour AND 0x1e) OR push_bit 4 (d AND 0x0f)) :: byte) :: u32"
  let ?b8 = "ucast (ucast (drop_bit 4 (d AND 0x1f) OR push_bit 1 (m AND 0x0f) OR push_bit 5 (y AND 0x07)) :: byte) :: u32"
  let ?b9 = "ucast (ucast (drop_bit 3 (y AND 0x7f8)) :: byte) :: u32"
  have f: "push_bit 5 (?b6 AND 0x01) OR drop_bit 3 (?b5 AND 0xf8) = take_bit 6 sec"
    by (rule u32_bitI) (simp add: upt_rec del: push_bit_Suc drop_bit_Suc, elim disjE; (simp add: bit_simps del: push_bit_Suc drop_bit_Suc)?; (simp add: eval_nat_numeral)?)
  have e: "drop_bit 1 (?b6 AND 0x7e) = take_bit 6 mi"
    by (rule u32_bitI) (simp add: upt_rec del: push_bit_Suc drop_bit_Suc, elim disjE; (simp add: bit_simps del: push_bit_Suc drop_bit_Suc)?; (simp add: eval_nat_numeral)?)
  have h: "push_bit 1 (?b7 AND 0xf) OR drop_bit 7 ?b6 = take_bit 5 hour"
    by (rule u32_bitI) (simp add: upt_rec del: push_bit_Suc drop_bit_Suc, elim disjE; (simp add: bit_simps del: push_bit_Suc drop_bit_Suc)?; (simp add: eval_nat_numeral)?)
  have g: "push_bit 4 (?b8 AND 1) OR drop_bit 4 ?b7 = take_bit 5 d"
    by (rule u32_bitI) (simp add: upt_rec del: push_bit_Suc drop_bit_Suc, elim disjE; (simp add: bit_simps del: push_bit_Suc drop_bit_Suc)?; (simp add: eval_nat_numeral)?)
  have k: "drop_bit 1 (?b8 AND 0x1e) = take_bit 4 m"
    by (rule u32_bitI) (simp add: upt_rec del: push_bit_Suc drop_bit_Suc, elim disjE; (simp add: bit_simps del: push_bit_Suc drop_bit_Suc)?; (simp add: eval_nat_numeral)?)
  have l: "push_bit 3 ?b9 OR drop_bit 5 ?b8 = take_bit 11 y"
    by (rule u32_bitI) (simp add: upt_rec del: push_bit_Suc drop_bit_Suc, elim disjE; (simp add: bit_simps del: push_bit_Suc drop_bit_Suc)?; (simp add: eval_nat_numeral)?)
  have p: "pack_calendar (year, mon, day, hour, mi, sec) = map ucast
     [7 OR push_bit 3 (sec AND 0x1f),
      drop_bit 5 (sec AND 0x20) OR push_bit 1 (mi AND 0x3f) OR push_bit 7 (hour AND 0x01),
      drop_bit 1 (hour AND 0x1e) OR push_bit 4 (d AND 0x0f),
      drop_bit 4 (d AND 0x1f) OR push_bit 1 (m AND 0x0f) OR push_bit 5 (y AND 0x07),
      drop_bit 3 (y AND 0x7f8)]"
    unfolding pack_calendar_def Let_def prod.case pack_or y_def m_def d_def ..
  have ix: "(p @ [a0, a1, a2, a3, a4]) ! 5 = a0" "(p @ [a0, a1, a2, a3, a4]) ! 6 = a1" "(p @ [a0, a1, a2, a3, a4]) ! 7 = a2"
    "(p @ [a0, a1, a2, a3, a4]) ! 8 = a3" "(p @ [a0, a1, a2, a3, a4]) ! 9 = a4" for a0 a1 a2 a3 a4 :: byte
    using assms by (simp_all add: nth_append)
  show ?thesis
    unfolding unpack_calendar_def p list.map ix Let_def f e h g k l unfolding y_def m_def d_def ..
qed

lemma readTime_at:
  assumes "holds d (0x28 # [0] @ low @ cal)" "length low = 4" "length cal = 5"
  shows "fst (readTime tg d) = Inr (let value = of_nat (le_value low) in
     if value = 0 then (case unpack_calendar ([0] @ low @ cal) of (year, mon, day, hour, mi, sec) \<Rightarrow>
       convertUtcTime tg year mon day hour mi sec 0) else fromSeconds value)"
proof -
  have cp: "copyPartialLe (replicate 8 0) 0 8 low 4 = Inr (low @ replicate 4 0)"
    using assms(2) by (simp add: copyPartialLe_def mem_read_def mem_write_def)
  have z: "le_value (replicate 4 0) = 0" by code_simp
  have v: "le_value (low @ replicate 4 0) = le_value low"
    by (simp only: le_value_append z mult_0_right add_0_right)
  have h: "holds (adv 1 d) ([0] @ low @ cal)" using assms(1) by (simp add: holds_Cons)
  have g: "throw_at_end w d = (Inr (), d)" "next_octet d = (Inr 0x28, adv 1 d)" for w
    using assms(1) by (auto simp: throw_at_end_def next_octet_def holds_Cons adv_def)
  have o: "octets_at 1 4 (adv 1 d) = (Inr low, adv 1 d)"
    using h by (rule holds_octets_at) (simp_all add: assms)
  have a: "octets_at 0 10 (adv 1 d) = (Inr ([0] @ low @ cal), adv 1 d)"
    using octets_at_holds[OF h] assms(2,3) by simp
  have i: "([0] @ low @ cal) ! 0 = 0" by simp
  show ?thesis
    unfolding readTime_def
    by (simp only: sbind_def g prod.case sum.case throw_beyond_passes[OF h] o cp v Let_def simp_thms if_False)
       (cases "unpack_calendar ([0] @ low @ cal)", auto simp: sbind_def sreturn_def skip_octets_def a[simplified])
qed

definition calendar_range :: "tm \<Rightarrow> bool" where
  "calendar_range c \<longleftrightarrow> tm_sec c < 64 \<and> tm_min c < 64 \<and> tm_hour c < 32 \<and> tm_mday c < 32 \<and> tm_mon c < 15 \<and> tm_year c + 300 < 2048"

lemma take_bit_small: "x < 2 ^ n \<Longrightarrow> n < 32 \<Longrightarrow> take_bit n (x :: u32) = x"
proof -
  assume x: "x < 2 ^ n" and n: "n < 32"
  have "(2 :: nat) ^ n < 2 ^ 32" using n by (rule power_strict_increasing) simp
  then have "unat (of_nat (2 ^ n) :: u32) = 2 ^ n"
    by (simp only: unat_of_nat len_num0 len_num1 len_bit0 mod_less) simp
  then have "unat x < 2 ^ n" using x by (simp add: word_less_nat_alt)
  then have "take_bit n (unat x) = unat x" by (simp add: take_bit_nat_eq_self)
  then show ?thesis by (metis unsigned_take_bit_eq unsigned_word_eqI)
qed



end
