(* ===== verification/Drt_List.thy ===== *)
theory Drt_List
  imports Drt_Heap
begin

text \<open>
  The doubly linked list \<^verbatim>\<open>List_c\<close> / \<^verbatim>\<open>TList\<close> of \<^verbatim>\<open>src/src/core/struct/List.cxx\<close> and
  \<^verbatim>\<open>List.hxx\<close>, on the pointer level: the nodes are cells of a heap, the list object holds the
  two ends (\<^verbatim>\<open>link\<close>) and the 32-bit counter.  \<open>segment\<close> says that the heap holds a run of nodes,
  \<open>holds\<close> that the list object stands for a sequence of addressed values, and every operation is
  shown to do to the sequence what its name says.  Queue clients use the list through the locale
  \<open>deque\<close>.
\<close>

section \<open>Data\<close>

record 'v list_node =
  prev :: addr
  nxt :: addr
  item :: 'v

record 'v dlist = "'v list_node heap" +
  link_prev :: addr
  link_next :: addr
  item_count :: u32

text \<open>The members of a list object that is not the receiver (\<^verbatim>\<open>source\<close> of \<^verbatim>\<open>moveFrom_g\<close>).\<close>

record list_object =
  o_prev :: addr
  o_next :: addr
  o_items :: u32

definition list_init :: "('v, 'z) dlist_scheme \<Rightarrow> ('v, 'z) dlist_scheme" where
  "list_init s = s\<lparr>item_count := 0, link_prev := 0, link_next := 0\<rparr>"

section \<open>Operations\<close>

definition count_items :: "('v dlist, nat) smethod" where
  "count_items = getf (\<lambda>s. unat (item_count s))"

definition node_make :: "'v \<Rightarrow> ('v dlist, addr) smethod" where
  "node_make v = alloc \<lparr>prev = 0, nxt = 0, item = v\<rparr>"

fun clean_loop :: "nat \<Rightarrow> addr \<Rightarrow> ('v dlist, unit) smethod" where
  "clean_loop 0 p = sthrow Diverges"
| "clean_loop (Suc f) p =
     (if p = 0 then sreturn ()
      else sbind (load p) (\<lambda>n.
        sbind (putf (\<lambda>s. s\<lparr>item_count := item_count s - 1\<rparr>)) (\<lambda>_.
        sbind (dealloc p) (\<lambda>_. clean_loop f (nxt n)))))"

definition clean_g :: "('v dlist, unit) smethod" where
  "clean_g = sbind pointer_bound (\<lambda>f. sbind (getf link_next) (\<lambda>p.
     sbind (clean_loop f p) (\<lambda>_. putf (\<lambda>s. s\<lparr>link_prev := 0, link_next := 0\<rparr>))))"

definition list_destroy_g :: "('v dlist, unit) smethod" where
  "list_destroy_g = clean_g"

text \<open>
  \<open>link_after\<close> and \<open>link_before\<close> are the bodies \<^verbatim>\<open>append_g\<close> and \<^verbatim>\<open>appendNew_g\<close>, respectively
  \<^verbatim>\<open>insert_g\<close> and \<^verbatim>\<open>insertNew_g\<close>, share after the node is made.
\<close>

definition link_after :: "addr \<Rightarrow> addr \<Rightarrow> ('v dlist, addr) smethod" where
  "link_after n p =
     sbind (modify n (\<lambda>x. x\<lparr>prev := p\<rparr>)) (\<lambda>_.
     sbind (if p \<noteq> 0 then
       sbind (load p) (\<lambda>pn.
       sbind (modify n (\<lambda>x. x\<lparr>nxt := nxt pn\<rparr>)) (\<lambda>_.
       sbind (if nxt pn \<noteq> 0 then modify (nxt pn) (\<lambda>x. x\<lparr>prev := n\<rparr>)
              else putf (\<lambda>s. s\<lparr>link_prev := n\<rparr>)) (\<lambda>_.
       modify p (\<lambda>x. x\<lparr>nxt := n\<rparr>))))
     else
       sbind (getf link_next) (\<lambda>h.
       sbind (modify n (\<lambda>x. x\<lparr>nxt := h\<rparr>)) (\<lambda>_.
       sbind (if h \<noteq> 0 then modify h (\<lambda>x. x\<lparr>prev := n\<rparr>)
              else putf (\<lambda>s. s\<lparr>link_prev := n\<rparr>)) (\<lambda>_.
       putf (\<lambda>s. s\<lparr>link_next := n\<rparr>))))) (\<lambda>_.
     sbind (putf (\<lambda>s. s\<lparr>item_count := item_count s + 1\<rparr>)) (\<lambda>_.
     sreturn n)))"

definition link_before :: "addr \<Rightarrow> addr \<Rightarrow> ('v dlist, addr) smethod" where
  "link_before n q =
     sbind (modify n (\<lambda>x. x\<lparr>nxt := q\<rparr>)) (\<lambda>_.
     sbind (if q \<noteq> 0 then
       sbind (load q) (\<lambda>qn.
       sbind (modify n (\<lambda>x. x\<lparr>prev := prev qn\<rparr>)) (\<lambda>_.
       sbind (if prev qn \<noteq> 0 then modify (prev qn) (\<lambda>x. x\<lparr>nxt := n\<rparr>)
              else putf (\<lambda>s. s\<lparr>link_next := n\<rparr>)) (\<lambda>_.
       modify q (\<lambda>x. x\<lparr>prev := n\<rparr>))))
     else
       sbind (getf link_prev) (\<lambda>h.
       sbind (modify n (\<lambda>x. x\<lparr>prev := h\<rparr>)) (\<lambda>_.
       sbind (if h \<noteq> 0 then modify h (\<lambda>x. x\<lparr>nxt := n\<rparr>)
              else putf (\<lambda>s. s\<lparr>link_next := n\<rparr>)) (\<lambda>_.
       putf (\<lambda>s. s\<lparr>link_prev := n\<rparr>))))) (\<lambda>_.
     sbind (putf (\<lambda>s. s\<lparr>item_count := item_count s + 1\<rparr>)) (\<lambda>_.
     sreturn n)))"

definition append_g :: "addr \<Rightarrow> 'v \<Rightarrow> ('v dlist, addr) smethod" where
  "append_g p v = sbind (node_make v) (\<lambda>n. link_after n p)"

definition appendNew_g :: "'v \<Rightarrow> addr \<Rightarrow> ('v dlist, addr) smethod" where
  "appendNew_g undef p = sbind (node_make undef) (\<lambda>n. link_after n p)"

definition insert_g :: "addr \<Rightarrow> 'v \<Rightarrow> ('v dlist, addr) smethod" where
  "insert_g q v = sbind (node_make v) (\<lambda>n. link_before n q)"

definition insertNew_g :: "'v \<Rightarrow> addr \<Rightarrow> ('v dlist, addr) smethod" where
  "insertNew_g undef q = sbind (node_make undef) (\<lambda>n. link_before n q)"

definition remove_g :: "addr \<Rightarrow> ('v dlist, unit) smethod" where
  "remove_g n = sbind (load n) (\<lambda>x.
     sbind (if prev x \<noteq> 0 then
       sbind (modify (prev x) (\<lambda>y. y\<lparr>nxt := nxt x\<rparr>)) (\<lambda>_.
       if nxt x \<noteq> 0 then modify (nxt x) (\<lambda>y. y\<lparr>prev := prev x\<rparr>)
       else putf (\<lambda>s. s\<lparr>link_prev := prev x\<rparr>))
     else
       sbind (putf (\<lambda>s. s\<lparr>link_next := nxt x\<rparr>)) (\<lambda>_.
       if nxt x \<noteq> 0 then modify (nxt x) (\<lambda>y. y\<lparr>prev := 0\<rparr>)
       else putf (\<lambda>s. s\<lparr>link_prev := 0\<rparr>))) (\<lambda>_.
     sbind (putf (\<lambda>s. s\<lparr>item_count := item_count s - 1\<rparr>)) (\<lambda>_.
     dealloc n)))"

definition list_moveFrom_g :: "list_object \<Rightarrow> ('v dlist, list_object) smethod" where
  "list_moveFrom_g source = sbind list_destroy_g (\<lambda>_.
     sbind (putf (\<lambda>s. s\<lparr>link_prev := o_prev source, link_next := o_next source,
       item_count := o_items source\<rparr>)) (\<lambda>_.
     sreturn \<lparr>o_prev = 0, o_next = 0, o_items = 0\<rparr>))"

subsection \<open>The typed interface\<close>

definition iterFirst :: "('v dlist, addr) smethod" where
  "iterFirst = getf link_next"

definition iterLast :: "('v dlist, addr) smethod" where
  "iterLast = getf link_prev"

definition iterNext :: "addr \<Rightarrow> ('v dlist, addr) smethod" where
  "iterNext iter = sbind (load iter) (\<lambda>n. sreturn (nxt n))"

definition iterPrev :: "addr \<Rightarrow> ('v dlist, addr) smethod" where
  "iterPrev iter = sbind (load iter) (\<lambda>n. sreturn (prev n))"

definition list_append :: "'v \<Rightarrow> ('v dlist, addr) smethod" where
  "list_append v = sbind (getf link_prev) (\<lambda>p. append_g p v)"

definition list_insert :: "'v \<Rightarrow> ('v dlist, addr) smethod" where
  "list_insert v = sbind (getf link_next) (\<lambda>p. insert_g p v)"

definition removeFirst :: "('v dlist, 'v) smethod" where
  "removeFirst = sbind iterFirst (\<lambda>n. sbind (load n) (\<lambda>x.
     sbind (remove_g n) (\<lambda>_. sreturn (item x))))"

definition removeLast :: "('v dlist, 'v) smethod" where
  "removeLast = sbind iterLast (\<lambda>n. sbind (load n) (\<lambda>x.
     sbind (remove_g n) (\<lambda>_. sreturn (item x))))"

text \<open>The loops \<^verbatim>\<open>for (n = iterFirst(); n; n = iterNext(n))\<close> and their mirror image.\<close>

fun forward_loop :: "nat \<Rightarrow> addr \<Rightarrow> ('v dlist, 'v list) smethod" where
  "forward_loop 0 n = sthrow Diverges"
| "forward_loop (Suc f) n =
     (if n = 0 then sreturn []
      else sbind (load n) (\<lambda>x. sbind (iterNext n) (\<lambda>m.
        sbind (forward_loop f m) (\<lambda>vs. sreturn (item x # vs)))))"

fun backward_loop :: "nat \<Rightarrow> addr \<Rightarrow> ('v dlist, 'v list) smethod" where
  "backward_loop 0 n = sthrow Diverges"
| "backward_loop (Suc f) n =
     (if n = 0 then sreturn []
      else sbind (load n) (\<lambda>x. sbind (iterPrev n) (\<lambda>m.
        sbind (backward_loop f m) (\<lambda>vs. sreturn (item x # vs)))))"

definition iterate_forward :: "('v dlist, 'v list) smethod" where
  "iterate_forward = sbind pointer_bound (\<lambda>f. sbind iterFirst (forward_loop f))"

definition iterate_backward :: "('v dlist, 'v list) smethod" where
  "iterate_backward = sbind pointer_bound (\<lambda>f. sbind iterLast (backward_loop f))"

text \<open>\<open>undef\<close> is the value the default constructor of the element type leaves in a new node.\<close>

definition accAppendingNew :: "'v \<Rightarrow> ('v dlist, addr) smethod" where
  "accAppendingNew undef = sbind (getf link_prev) (\<lambda>p. appendNew_g undef p)"

definition accInsertingNew :: "'v \<Rightarrow> ('v dlist, addr) smethod" where
  "accInsertingNew undef = sbind (getf link_prev) (\<lambda>p. insertNew_g undef p)"

section \<open>The sequence a list holds\<close>

definition first_of :: "(addr \<times> 'v) list \<Rightarrow> addr \<Rightarrow> addr" where
  "first_of xs q = (case xs of [] \<Rightarrow> q | x # _ \<Rightarrow> fst x)"

definition last_of :: "addr \<Rightarrow> (addr \<times> 'v) list \<Rightarrow> addr" where
  "last_of p xs = (if xs = [] then p else fst (last xs))"

fun segment :: "(addr \<Rightarrow> 'v list_node option) \<Rightarrow> addr \<Rightarrow> (addr \<times> 'v) list \<Rightarrow> addr \<Rightarrow> bool" where
  "segment c p [] q = True"
| "segment c p ((a, v) # xs) q \<longleftrightarrow>
     c a = Some \<lparr>prev = p, nxt = first_of xs q, item = v\<rparr> \<and> segment c a xs q"

definition holds :: "'v dlist \<Rightarrow> (addr \<times> 'v) list \<Rightarrow> bool" where
  "holds s xs \<longleftrightarrow> heap_ok s \<and> distinct (map fst xs) \<and> segment (cells s) 0 xs 0 \<and>
     link_next s = first_of xs 0 \<and> link_prev s = last_of 0 xs \<and> item_count s = of_nat (length xs)"

lemma first_of_simps [simp]:
  "first_of [] q = q" "first_of (x # xs) q = fst x" "first_of (xs @ ys) q = first_of xs (first_of ys q)"
  by (auto simp: first_of_def split: list.splits)

lemma last_of_simps [simp]:
  "last_of p [] = p" "last_of p (x # xs) = last_of (fst x) xs"
  "last_of p (xs @ ys) = last_of (last_of p xs) ys"
  by (auto simp: last_of_def)

lemma segment_append [simp]:
  "segment c p (xs @ ys) q \<longleftrightarrow> segment c p xs (first_of ys q) \<and> segment c (last_of p xs) ys q"
proof (induction xs arbitrary: p)
  case (Cons x xs)
  then show ?case by (cases x) simp
qed simp

text \<open>A segment does not see cells that are not its own.\<close>

lemma segment_frame:
  "segment c p xs q \<Longrightarrow> (\<And>a. a \<in> set (map fst xs) \<Longrightarrow> c' a = c a) \<Longrightarrow> segment c' p xs q"
  by (induction xs arbitrary: p) auto

lemma segment_upd [simp]:
  "a \<notin> fst ` set xs \<Longrightarrow> segment (c(a := n)) p xs q \<longleftrightarrow> segment c p xs q"
  by (auto elim!: segment_frame)

lemma segment_live: "segment c p xs q \<Longrightarrow> a \<in> fst ` set xs \<Longrightarrow> c a \<noteq> None"
  by (induction xs arbitrary: p) (force, fastforce)

text \<open>The first and the last node of a segment are the ones a neighbour's change reaches.\<close>

lemma segment_snoc [simp]:
  "segment c p (xs @ [(a, v)]) q \<longleftrightarrow>
     segment c p xs a \<and> c a = Some \<lparr>prev = last_of p xs, nxt = q, item = v\<rparr>"
  by simp

lemma holds_fresh:
  assumes "holds s xs"
  shows "brk s \<notin> fst ` set xs" "0 \<notin> fst ` set xs" "0 < brk s" "cells s (brk s) = None"
proof -
  have h: "heap_ok s" and g: "segment (cells s) 0 xs 0" using assms by (auto simp: holds_def)
  show "cells s (brk s) = None" by (rule heap_ok_brk [OF h]) simp
  then show "brk s \<notin> fst ` set xs" using segment_live [OF g] by blast
  show "0 \<notin> fst ` set xs" using segment_live [OF g] heap_ok_zero [OF h] by blast
  show "0 < brk s" using h by (simp add: heap_ok_def)
qed

lemmas list_op_defs = append_g_def insert_g_def node_make_def alloc_def link_after_def link_before_def
  remove_g_def holds_def sbind_def heap_ok_def image_Un

lemma append_g_holds:
  assumes "holds s (as @ bs)" "p = last_of 0 as"
  shows "\<exists>s'. append_g p v s = (Inr (brk s), s') \<and> holds s' (as @ (brk s, v) # bs)"
  using assms holds_fresh [OF assms(1)]
  by (cases as rule: rev_cases; cases bs) (auto simp: list_op_defs)

lemma insert_g_holds:
  assumes "holds s (as @ bs)" "q = first_of bs 0"
  shows "\<exists>s'. insert_g q v s = (Inr (brk s), s') \<and> holds s' (as @ (brk s, v) # bs)"
  using assms holds_fresh [OF assms(1)]
  by (cases as rule: rev_cases; cases bs) (auto simp: list_op_defs)

lemma remove_g_holds:
  assumes "holds s (as @ (a, v) # bs)"
  shows "\<exists>s'. remove_g a s = (Inr (), s') \<and> holds s' (as @ bs) \<and> cells s' a = None"
  using assms holds_fresh [OF assms(1)]
  by (cases as rule: rev_cases; cases bs) (auto simp: list_op_defs)

lemma load_holds:
  "holds s (as @ (a, v) # bs) \<Longrightarrow>
   load a s = (Inr \<lparr>prev = last_of 0 as, nxt = first_of bs 0, item = v\<rparr>, s)"
  by (simp add: holds_def)

text \<open>\<^verbatim>\<open>clean_g\<close> frees every node in order; the bound of the loop is enough.\<close>

lemma clean_loop_frees:
  assumes "segment (cells s) p xs 0" "0 \<notin> fst ` set xs" "distinct (map fst xs)" "length xs < f"
    "item_count s = of_nat (length xs)" "heap_ok s"
  shows "\<exists>s'. clean_loop f (first_of xs 0) s = (Inr (), s') \<and> item_count s' = 0 \<and> heap_ok s' \<and>
    brk s' = brk s \<and> (\<forall>a. cells s' a = (if a \<in> fst ` set xs then None else cells s a))"
  using assms
proof (induction xs arbitrary: f p s)
  case Nil
  then show ?case by (cases f) auto
next
  case (Cons x xs)
  obtain a v where x: "x = (a, v)" by (cases x)
  obtain g where g: "f = Suc g" using Cons.prems(4) by (cases f) auto
  define t where "t = s\<lparr>item_count := item_count s - 1, cells := (cells s)(a := None)\<rparr>"
  have "\<exists>s'. clean_loop g (first_of xs 0) t = (Inr (), s') \<and> item_count s' = 0 \<and> heap_ok s' \<and>
    brk s' = brk t \<and> (\<forall>b. cells s' b = (if b \<in> fst ` set xs then None else cells t b))"
  proof (rule Cons.IH)
    show "segment (cells t) a xs 0" using Cons.prems x by (simp add: t_def)
    show "heap_ok t" using Cons.prems by (auto simp: t_def heap_ok_def)
  qed (use Cons.prems g in \<open>auto simp: t_def\<close>)
  moreover have "clean_loop f (first_of (x # xs) 0) s = clean_loop g (first_of xs 0) t"
    using Cons.prems x g by (auto simp: t_def)
  ultimately show ?case using x by (auto simp: t_def)
qed

lemma clean_g_holds:
  assumes "holds s xs"
  shows "\<exists>s'. clean_g s = (Inr (), s') \<and> holds s' [] \<and> brk s' = brk s \<and>
    (\<forall>a. cells s' a = (if a \<in> fst ` set xs then None else cells s a))"
proof -
  have "length (map fst xs) < brk s"
    using assms segment_live [of "cells s" 0 xs 0] by (intro distinct_cells_bound) (auto simp: holds_def)
  then obtain s' where "clean_loop (brk s) (first_of xs 0) s = (Inr (), s')" "item_count s' = 0" "heap_ok s'"
      "brk s' = brk s" "\<forall>a. cells s' a = (if a \<in> fst ` set xs then None else cells s a)"
    using assms holds_fresh [OF assms] clean_loop_frees [of s 0 xs "brk s"] by (auto simp: holds_def)
  then show ?thesis using assms by (auto simp: clean_g_def holds_def heap_ok_def)
qed

section \<open>Iteration\<close>

lemma forward_loop_values:
  assumes "segment (cells s) p xs 0" "0 \<notin> fst ` set xs" "length xs < f"
  shows "forward_loop f (first_of xs 0) s = (Inr (map snd xs), s)"
  using assms
proof (induction xs arbitrary: f p)
  case Nil
  then show ?case by (cases f) auto
next
  case (Cons x xs)
  obtain a v where x: "x = (a, v)" by (cases x)
  obtain g where g: "f = Suc g" using Cons.prems(3) by (cases f) auto
  have "forward_loop g (first_of xs 0) s = (Inr (map snd xs), s)"
    using Cons.prems x g by (intro Cons.IH [where p = a]) auto
  then show ?case using Cons.prems x g by (auto simp: iterNext_def)
qed

lemma backward_loop_values:
  assumes "segment (cells s) 0 xs q" "0 \<notin> fst ` set xs" "length xs < f"
  shows "backward_loop f (last_of 0 xs) s = (Inr (rev (map snd xs)), s)"
  using assms
proof (induction xs arbitrary: f q rule: rev_induct)
  case Nil
  then show ?case by (cases f) auto
next
  case (snoc x xs)
  obtain a v where x: "x = (a, v)" by (cases x)
  obtain g where g: "f = Suc g" using snoc.prems(3) by (cases f) auto
  have "backward_loop g (last_of 0 xs) s = (Inr (rev (map snd xs)), s)"
    using snoc.prems x g by (intro snoc.IH [where q = a]) auto
  then show ?case using snoc.prems x g by (auto simp: iterPrev_def)
qed

lemma holds_bound: "holds s xs \<Longrightarrow> length xs < brk s"
  using distinct_cells_bound [of s "map fst xs"] segment_live [of "cells s" 0 xs 0]
  by (auto simp: holds_def)

lemma iterate_holds:
  assumes "holds s xs"
  shows "iterate_forward s = (Inr (map snd xs), s)" "iterate_backward s = (Inr (rev (map snd xs)), s)"
  using assms holds_bound [OF assms] holds_fresh [OF assms]
    forward_loop_values [of s 0 xs "brk s"] backward_loop_values [of s xs 0 "brk s"]
  by (simp_all add: iterate_forward_def iterate_backward_def iterFirst_def iterLast_def holds_def)

section \<open>The list as a sequence\<close>

text \<open>What a list promises to a client that uses it as a queue or as a stack.\<close>

datatype 'v seq_op = Append 'v | Insert 'v | RemoveFirst | RemoveLast | Clean | Count

datatype 'v seq_answer = Nothing | Item 'v | Number nat

fun seq_spec :: "'v seq_op \<Rightarrow> ('v list, 'v seq_answer) smethod" where
  "seq_spec (Append v) xs = (Inr Nothing, xs @ [v])"
| "seq_spec (Insert v) xs = (Inr Nothing, v # xs)"
| "seq_spec RemoveFirst xs = (if xs = [] then (Inl NullAccess, xs) else (Inr (Item (hd xs)), tl xs))"
| "seq_spec RemoveLast xs = (if xs = [] then (Inl NullAccess, xs) else (Inr (Item (last xs)), butlast xs))"
| "seq_spec Clean xs = (Inr Nothing, [])"
| "seq_spec Count xs = (Inr (Number (length xs mod 2 ^ 32)), xs)"

fun seq_run :: "('v seq_op \<Rightarrow> ('s, 'v seq_answer) smethod) \<Rightarrow> 'v seq_op list \<Rightarrow>
    ('s, 'v seq_answer list) smethod" where
  "seq_run step [] = sreturn []"
| "seq_run step (p # ps) = sbind (step p) (\<lambda>a. sbind (seq_run step ps) (\<lambda>as. sreturn (a # as)))"

locale deque =
  fixes inv :: "'s \<Rightarrow> bool" and abs :: "'s \<Rightarrow> 'v list" and step :: "'v seq_op \<Rightarrow> ('s, 'v seq_answer) smethod"
  assumes step_law: "inv s \<Longrightarrow> seq_spec p (abs s) = (r, xs) \<Longrightarrow>
    \<exists>s'. step p s = (r, s') \<and> inv s' \<and> abs s' = xs"
begin

lemma run_refines_spec:
  "inv s \<Longrightarrow> seq_run seq_spec ps (abs s) = (r, xs) \<Longrightarrow>
   \<exists>s'. seq_run step ps s = (r, s') \<and> inv s' \<and> abs s' = xs"
proof (induction ps arbitrary: s r)
  case (Cons p ps)
  obtain r1 xs1 where sp: "seq_spec p (abs s) = (r1, xs1)" by fastforce
  obtain s1 where s1: "step p s = (r1, s1)" "inv s1" "abs s1 = xs1"
    using step_law [OF Cons.prems(1) sp] by blast
  show ?case
  proof (cases r1)
    case (Inl e)
    then show ?thesis using Cons.prems sp s1 by (auto simp: sbind_def)
  next
    case (Inr a)
    obtain r2 xs2 where r2: "seq_run seq_spec ps xs1 = (r2, xs2)" by fastforce
    obtain s2 where "seq_run step ps s1 = (r2, s2)" "inv s2" "abs s2 = xs2"
      using Cons.IH [of s1 r2] s1 r2 Cons.prems(2) Inr sp by (auto simp: sbind_def split: sum.splits)
    then show ?thesis using Cons.prems(2) sp s1 r2 Inr by (auto simp: sbind_def split: sum.splits)
  qed
qed (auto simp: sreturn_def)

end

definition list_step :: "'v seq_op \<Rightarrow> ('v dlist, 'v seq_answer) smethod" where
  "list_step p = (case p of
     Append v \<Rightarrow> sbind (list_append v) (\<lambda>_. sreturn Nothing)
   | Insert v \<Rightarrow> sbind (list_insert v) (\<lambda>_. sreturn Nothing)
   | RemoveFirst \<Rightarrow> sbind removeFirst (\<lambda>v. sreturn (Item v))
   | RemoveLast \<Rightarrow> sbind removeLast (\<lambda>v. sreturn (Item v))
   | Clean \<Rightarrow> sbind clean_g (\<lambda>_. sreturn Nothing)
   | Count \<Rightarrow> sbind count_items (\<lambda>n. sreturn (Number n)))"

definition list_inv :: "'v dlist \<Rightarrow> bool" where
  "list_inv s \<longleftrightarrow> (\<exists>xs. holds s xs)"

definition list_abs :: "'v dlist \<Rightarrow> 'v list" where
  "list_abs s = (case fst (iterate_forward s) of Inl _ \<Rightarrow> [] | Inr vs \<Rightarrow> vs)"

lemma list_abs_holds: "holds s xs \<Longrightarrow> list_abs s = map snd xs"
  by (simp add: list_abs_def iterate_holds)

lemma list_append_holds:
  "holds s xs \<Longrightarrow> \<exists>s'. list_append v s = (Inr (brk s), s') \<and> holds s' (xs @ [(brk s, v)])"
  using append_g_holds [of s xs "[]" "link_prev s" v] by (simp add: list_append_def holds_def)

lemma list_insert_holds:
  "holds s xs \<Longrightarrow> \<exists>s'. list_insert v s = (Inr (brk s), s') \<and> holds s' ((brk s, v) # xs)"
  using insert_g_holds [of s "[]" xs "link_next s" v] by (simp add: list_insert_def holds_def)

lemma removeFirst_holds:
  "holds s ((a, v) # xs) \<Longrightarrow> \<exists>s'. removeFirst s = (Inr v, s') \<and> holds s' xs \<and> cells s' a = None"
  using remove_g_holds [of s "[]" a v xs] load_holds [of s "[]" a v xs]
  by (auto simp: removeFirst_def iterFirst_def holds_def)

lemma removeLast_holds:
  "holds s (xs @ [(a, v)]) \<Longrightarrow> \<exists>s'. removeLast s = (Inr v, s') \<and> holds s' xs \<and> cells s' a = None"
  using remove_g_holds [of s xs a v "[]"] load_holds [of s xs a v "[]"]
  by (auto simp: removeLast_def iterLast_def holds_def)

lemma remove_empty:
  "holds s [] \<Longrightarrow> removeFirst s = (Inl NullAccess, s) \<and> removeLast s = (Inl NullAccess, s)"
  by (simp add: removeFirst_def removeLast_def iterFirst_def iterLast_def holds_def)

lemma list_step_law:
  assumes "holds s xs" "seq_spec p (map snd xs) = (r, vs)"
  shows "\<exists>s' xs'. list_step p s = (r, s') \<and> holds s' xs' \<and> map snd xs' = vs"
proof (cases p)
  case (Append v)
  then show ?thesis using list_append_holds [OF assms(1), of v] assms(2) by (fastforce simp: list_step_def)
next
  case (Insert v)
  then show ?thesis using list_insert_holds [OF assms(1), of v] assms(2) by (fastforce simp: list_step_def)
next
  case RemoveFirst
  show ?thesis
  proof (cases xs)
    case (Cons x ys)
    then show ?thesis using removeFirst_holds [of s "fst x" "snd x" ys] assms RemoveFirst
      by (fastforce simp: list_step_def)
  qed (use remove_empty assms RemoveFirst in \<open>fastforce simp: list_step_def\<close>)
next
  case RemoveLast
  show ?thesis
  proof (cases xs rule: rev_cases)
    case (snoc ys x)
    then show ?thesis using removeLast_holds [of s ys "fst x" "snd x"] assms RemoveLast
      by (fastforce simp: list_step_def)
  qed (use remove_empty assms RemoveLast in \<open>fastforce simp: list_step_def\<close>)
next
  case Clean
  then show ?thesis using clean_g_holds [OF assms(1)] assms(2) by (fastforce simp: list_step_def)
next
  case Count
  then show ?thesis using assms by (auto simp: list_step_def count_items_def holds_def unat_of_nat)
qed

interpretation dl: deque list_inv list_abs list_step
proof
  fix s :: "'v dlist" and p r vs
  assume "list_inv s" "seq_spec p (list_abs s) = (r, vs)"
  then show "\<exists>s'. list_step p s = (r, s') \<and> list_inv s' \<and> list_abs s' = vs"
    using list_step_law [of s _ p r vs] by (fastforce simp: list_inv_def list_abs_holds)
qed

lemma list_init_holds: "heap_ok s \<Longrightarrow> holds (list_init s) []"
  by (simp add: holds_def list_init_def heap_ok_def)

section \<open>Properties\<close>

text \<open>
  C6: Any sequence of list operations (append, insert, removeFirst, removeLast, clean, count) on a
  new list answers as the same operations on a sequence of values, fails with a \<^verbatim>\<open>NULL\<close> dereference
  exactly where the sequence is empty, counts modulo 2 to the 32, and leaves the doubly linked structure intact: both
  directions of iteration give the same sequence.
\<close>

theorem list_refines_sequence:
  assumes "heap_ok s"
  shows "\<exists>s'. seq_run list_step ps (list_init s) = (fst (seq_run seq_spec ps []), s') \<and>
    iterate_forward s' = (Inr (snd (seq_run seq_spec ps [])), s') \<and>
    iterate_backward s' = (Inr (rev (snd (seq_run seq_spec ps []))), s')"
proof -
  obtain s' where s': "seq_run list_step ps (list_init s) = (fst (seq_run seq_spec ps []), s')" "list_inv s'"
      "list_abs s' = snd (seq_run seq_spec ps [])"
    using dl.run_refines_spec [of "list_init s" ps] list_init_holds [OF assms]
    by (metis list_abs_holds list_inv_def list.simps(8) prod.collapse)
  then show ?thesis by (auto simp: list_inv_def list_abs_holds iterate_holds)
qed

definition empty_dlist :: "nat dlist" where
  "empty_dlist = \<lparr>cells = Map.empty, brk = 1, link_prev = 0, link_next = 0, item_count = 0\<rparr>"

theorem list_refines_sequence_witness:
  "\<exists>s'. seq_run list_step [Append 1, Append 2, Insert 3, RemoveLast, Count] (list_init empty_dlist) =
     (Inr [Nothing, Nothing, Nothing, Item 2, Number 2], s') \<and>
   iterate_forward s' = (Inr [3, 1], s') \<and> iterate_backward s' = (Inr [1, 3], s')"
proof -
  have "heap_ok empty_dlist" by (simp add: heap_ok_def empty_dlist_def)
  moreover have "seq_run seq_spec [Append 1, Append 2, Insert 3, RemoveLast, Count] [] =
      (Inr [Nothing, Nothing, Nothing, Item 2, Number 2], [3, 1 :: nat])"
    by (simp add: sbind_def sreturn_def)
  ultimately show ?thesis
    using list_refines_sequence [of empty_dlist "[Append 1, Append 2, Insert 3, RemoveLast, Count]"]
    by (simp del: seq_run.simps)
qed

text \<open>
  C38: The pointer operations work at every position of a list: a node is linked after or before any
  node, any node is removed and freed, cleaning frees exactly the nodes of the list, and a move
  hands them over and empties the source; \<^verbatim>\<open>accInsertingNew\<close> puts the new node before the last one and
  not at the beginning.
\<close>

theorem list_node_operations:
  assumes "holds s (as @ (a, x) # bs)"
  shows "(\<exists>s'. append_g a v s = (Inr (brk s), s') \<and> holds s' (as @ (a, x) # (brk s, v) # bs)) \<and>
    (\<exists>s'. insert_g a v s = (Inr (brk s), s') \<and> holds s' (as @ (brk s, v) # (a, x) # bs)) \<and>
    (\<exists>s'. remove_g a s = (Inr (), s') \<and> holds s' (as @ bs) \<and> cells s' a = None) \<and>
    (\<exists>s'. clean_g s = (Inr (), s') \<and> holds s' [] \<and>
      (\<forall>b. cells s' b = (if b \<in> fst ` set (as @ (a, x) # bs) then None else cells s b))) \<and>
    (\<exists>s'. list_moveFrom_g \<lparr>o_prev = link_prev s, o_next = link_next s, o_items = item_count s\<rparr>
        (list_init s) = (Inr \<lparr>o_prev = 0, o_next = 0, o_items = 0\<rparr>, s') \<and> holds s' (as @ (a, x) # bs)) \<and>
    (bs = [] \<longrightarrow> (\<exists>s'. accInsertingNew v s = (Inr (brk s), s') \<and> holds s' (as @ [(brk s, v), (a, x)])))"
proof (intro conjI impI)
  show "\<exists>s'. append_g a v s = (Inr (brk s), s') \<and> holds s' (as @ (a, x) # (brk s, v) # bs)"
    using append_g_holds [of s "as @ [(a, x)]" bs a v] assms by simp
  show ins: "\<exists>s'. insert_g a v s = (Inr (brk s), s') \<and> holds s' (as @ (brk s, v) # (a, x) # bs)"
    using insert_g_holds [of s as "(a, x) # bs" a v] assms by simp
  show "\<exists>s'. remove_g a s = (Inr (), s') \<and> holds s' (as @ bs) \<and> cells s' a = None"
    using remove_g_holds [OF assms] .
  show "\<exists>s'. clean_g s = (Inr (), s') \<and> holds s' [] \<and>
      (\<forall>b. cells s' b = (if b \<in> fst ` set (as @ (a, x) # bs) then None else cells s b))"
    using clean_g_holds [OF assms] by blast
  have "clean_g (list_init s) = (Inr (), list_init s)"
    using holds_fresh(3) [OF assms] by (cases "brk s") (simp_all add: clean_g_def list_init_def)
  then show "\<exists>s'. list_moveFrom_g \<lparr>o_prev = link_prev s, o_next = link_next s, o_items = item_count s\<rparr>
      (list_init s) = (Inr \<lparr>o_prev = 0, o_next = 0, o_items = 0\<rparr>, s') \<and> holds s' (as @ (a, x) # bs)"
    using assms by (simp add: list_moveFrom_g_def list_destroy_g_def list_init_def holds_def heap_ok_def)
  assume "bs = []"
  then show "\<exists>s'. accInsertingNew v s = (Inr (brk s), s') \<and> holds s' (as @ [(brk s, v), (a, x)])"
    using ins assms by (simp add: accInsertingNew_def insertNew_g_def insert_g_def holds_def)
qed

theorem list_node_operations_witness:
  "\<exists>s :: nat dlist. holds s [(1, 5), (2, 6)] \<and> (\<exists>s'. remove_g 2 s = (Inr (), s') \<and> holds s' [(1, 5)]) \<and>
   (\<exists>s'. accInsertingNew 9 s = (Inr 3, s') \<and> holds s' [(1, 5), (3, 9), (2, 6)])"
proof -
  define s :: "nat dlist" where "s = \<lparr>cells = [1 \<mapsto> \<lparr>prev = 0, nxt = 2, item = 5\<rparr>, 2 \<mapsto> \<lparr>prev = 1, nxt = 0, item = 6\<rparr>],
    brk = 3, link_prev = 2, link_next = 1, item_count = 2\<rparr>"
  have h: "holds s ([(1, 5)] @ (2, 6) # [])" by (simp add: s_def holds_def heap_ok_def)
  moreover have "brk s = 3" by (simp add: s_def)
  ultimately show ?thesis using list_node_operations [OF h, of 9] by (intro exI [of _ s]) auto
qed

end
