(* ===== verification/Drt_Thread.thy ===== *)
theory Drt_Thread
  imports Drt_Prelude "HOL-Library.Sublist"
begin

text \<open>
  The message box of a thread (\<^verbatim>\<open>src/src/core/thread/Thread.cxx\<close>, \<^verbatim>\<open>Thread.msg.hxx\<close>) and the
  sleep/wake protocol of \<^verbatim>\<open>src/src/core/msg/unix/MsgSync_unix.cxx\<close>.  A chain of messages linked by
  \<^verbatim>\<open>next\<close> is the list of its messages from the head on; \<^verbatim>\<open>add_msg\<close> holds the newest message first
  and is emptied by its owner with one atomic exchange.  The sequential part gives the functions,
  the concurrent part a step relation whose steps are the single accesses to the shared members.
\<close>

section \<open>Data\<close>

record 'p message =
  mtype :: byte
  mserial :: u64
  body :: 'p

definition SYNCED :: byte where "SYNCED = 0x20"
definition ANSWERED :: byte where "ANSWERED = 0x40"
definition NOCALL :: byte where "NOCALL = 2"

record 'p thread =
  cur_msg :: "'p message list"
  add_msg :: "'p message list"
  waiting_for_msg :: bool
  serial_level :: u32
  serial_pend :: "u64 list"

definition new_thread :: "'p thread" where
  "new_thread = \<lparr>cur_msg = [], add_msg = [], waiting_for_msg = False, serial_level = 0, serial_pend = []\<rparr>"

definition resetAnswer :: "u32 \<Rightarrow> 'p message \<Rightarrow> 'p message" where
  "resetAnswer serial msg = msg\<lparr>mtype := NOCALL OR ANSWERED, mserial := scast serial AND (push_bit 56 1 - 1)\<rparr>"

definition is_answer :: "'p message \<Rightarrow> bool" where
  "is_answer msg \<longleftrightarrow> mtype msg AND ANSWERED \<noteq> 0"

definition is_synced :: "'p message \<Rightarrow> bool" where
  "is_synced msg \<longleftrightarrow> mtype msg AND SYNCED \<noteq> 0"

section \<open>Serials of synchronous messages\<close>

text \<open>
  \<^verbatim>\<open>1<<(serial%LONG_BIT)\<close> shifts an \<^verbatim>\<open>int\<close>: the result is converted to \<^verbatim>\<open>unsigned long\<close> with its
  sign, and a count of 32 and more is undefined.
\<close>

definition int_bit :: "nat \<Rightarrow> u64 result" where
  "int_bit k = (if k < 32 then Inr (scast (push_bit k 1 :: u32)) else Inl Undefined)"

definition word_at :: "nat \<Rightarrow> ('p thread, u64) smethod" where
  "word_at i s = (mem_get (serial_pend s) i, s)"

definition mark_answer :: "nat \<Rightarrow> ('p thread, unit) smethod" where
  "mark_answer serial = sbind (word_at (serial div 64)) (\<lambda>w. \<lambda>s.
     case int_bit (serial mod 64) of Inl e \<Rightarrow> (Inl e, s)
     | Inr b \<Rightarrow> (Inr (), s\<lparr>serial_pend := (serial_pend s)[serial div 64 := w OR b]\<rparr>))"

definition answered :: "nat \<Rightarrow> ('p thread, bool) smethod" where
  "answered serial = sbind (word_at (serial div 64)) (\<lambda>w. \<lambda>s.
     case int_bit (serial mod 64) of Inl e \<Rightarrow> (Inl e, s) | Inr b \<Rightarrow> (Inr (w AND b \<noteq> 0), s))"

text \<open>\<open>junk\<close> is the content of the word \<^verbatim>\<open>Alloc::regrow\<close> adds.\<close>

definition createMessageSerial :: "u64 \<Rightarrow> ('p thread, u32) smethod" where
  "createMessageSerial junk s = (let serial = unat (serial_level s); s1 = s\<lparr>serial_level := serial_level s + 1\<rparr>;
     s2 = (if serial mod 64 = 0
       then s1\<lparr>serial_pend := take (unat ((serial_level s + 64) div 8) div 8) (serial_pend s @ [junk])\<rparr> else s1) in
     (case mem_get (serial_pend s2) (serial div 64) of Inl e \<Rightarrow> (Inl e, s2)
      | Inr w \<Rightarrow> (Inr (serial_level s), s2\<lparr>serial_pend :=
          (serial_pend s2)[serial div 64 := w AND NOT (push_bit (serial mod 64) 1)]\<rparr>)))"

section \<open>Sending and receiving\<close>

text \<open>\<open>push_message\<close> is the successful \<^verbatim>\<open>cmpxchg\<close> of \<^verbatim>\<open>addMessage_lr\<close>.\<close>

definition push_message :: "'p message \<Rightarrow> 'p thread \<Rightarrow> 'p thread" where
  "push_message msg s = s\<lparr>add_msg := msg # add_msg s\<rparr>"

definition addMessage_lr :: "'p message \<Rightarrow> 'p thread \<Rightarrow> 'p thread" where
  "addMessage_lr msg s = (let s1 = push_message msg s in
     if waiting_for_msg s1 then s1\<lparr>waiting_for_msg := False\<rparr> else s1)"

definition addAnswer :: "u32 \<Rightarrow> 'p message \<Rightarrow> 'p thread \<Rightarrow> 'p thread" where
  "addAnswer serial fresh = addMessage_lr (resetAnswer serial fresh)"

text \<open>
  The loop that is to turn the chain over.  Its arguments are \<^verbatim>\<open>o\<close> and \<^verbatim>\<open>msg\<close>, as chains; \<^verbatim>\<open>o\<close> is
  never assigned in the loop.
\<close>

fun turn_loop :: "'p message list \<Rightarrow> 'p message list \<Rightarrow> 'p message list" where
  "turn_loop ob [] = []"
| "turn_loop ob (msg # n) = (if n = [] then msg # ob else turn_loop ob n)"

definition take_added :: "'p thread \<Rightarrow> 'p thread" where
  "take_added s = s\<lparr>cur_msg := turn_loop [] (add_msg s), add_msg := []\<rparr>"

datatype 'p outcome = Again | Message "'p message" | Sleep | Answered

definition wait_any_iter :: "('p thread, 'p outcome) smethod" where
  "wait_any_iter s = (case cur_msg s of
     msg # n \<Rightarrow> (let s1 = s\<lparr>cur_msg := n\<rparr> in
       if is_answer msg then sbind (mark_answer (unat (mserial msg))) (\<lambda>_. sreturn Again) s1
       else (Inr (Message msg), s1))
   | [] \<Rightarrow> (if add_msg s \<noteq> [] then (Inr Again, take_added s) else (Inr Sleep, s)))"

text \<open>
  \<^verbatim>\<open>eval\<close> runs the code the message carries; it is the parameter \<open>ev\<close>, which may clear \<^verbatim>\<open>SYNCED\<close>.  The answers
  are the messages sent back to their creators.
\<close>

definition evaluate :: "('p message \<Rightarrow> 'p message) \<Rightarrow> 'p message \<Rightarrow> 'p message list" where
  "evaluate ev msg = (let m = ev msg in if is_synced m then [m\<lparr>mtype := mtype m OR ANSWERED\<rparr>] else [])"

definition process_iter :: "('p message \<Rightarrow> 'p message) \<Rightarrow> int \<Rightarrow>
    ('p thread, 'p outcome \<times> 'p message list) smethod" where
  "process_iter ev wait_answer = sbind
     (if wait_answer \<ge> 0 then answered (nat wait_answer) else sreturn False) (\<lambda>done.
     if done then sreturn (Answered, []) else (\<lambda>s. case cur_msg s of
       msg # n \<Rightarrow> (let s1 = s\<lparr>cur_msg := n\<rparr> in
         if is_answer msg then
           sbind (if mserial msg \<noteq> push_bit 56 1 - 1 then mark_answer (unat (mserial msg)) else sreturn ())
             (\<lambda>_. sreturn (Again, [])) s1
         else (Inr (Again, evaluate ev msg), s1))
     | [] \<Rightarrow> (if add_msg s \<noteq> [] then (Inr (Again, []), take_added s) else (Inr (Sleep, []), s))))"

definition process_one_iter :: "('p message \<Rightarrow> 'p message) \<Rightarrow>
    ('p thread, 'p outcome \<times> 'p message list) smethod" where
  "process_one_iter ev s = (case cur_msg s of
     msg # n \<Rightarrow> (let s1 = s\<lparr>cur_msg := n\<rparr> in
       if is_answer msg then sbind (mark_answer (unat (mserial msg))) (\<lambda>_. sreturn (Message msg, [])) s1
       else (Inr (Message msg, evaluate ev msg), s1))
   | [] \<Rightarrow> (if add_msg s \<noteq> [] then (Inr (Again, []), take_added s) else (Inr (Sleep, []), s)))"

text \<open>
  \<open>poll\<close> is \<^verbatim>\<open>waitAnyMessageTimeout(0)\<close> while no other thread sends: the loop is left with a message or, where it
  would sleep, with \<^verbatim>\<open>NULL\<close>.  Every turn shortens the two chains or moves one of them.
\<close>

fun poll_loop :: "nat \<Rightarrow> ('p thread, 'p message option) smethod" where
  "poll_loop 0 = sthrow Diverges"
| "poll_loop (Suc f) = sbind wait_any_iter (\<lambda>r. case r of
     Again \<Rightarrow> poll_loop f | Message m \<Rightarrow> sreturn (Some m) | _ \<Rightarrow> sreturn None)"

definition poll :: "('p thread, 'p message option) smethod" where
  "poll s = poll_loop (length (cur_msg s) + length (add_msg s) + 3) s"

section \<open>The sleep/wake protocol\<close>

text \<open>
  One receiver in \<^verbatim>\<open>waitAnyMessageTimeout(-1)\<close> with no sockets registered, and any number of senders in
  \<^verbatim>\<open>addMessage_lr\<close>.  The stages of the receiver are those of \<^verbatim>\<open>threadSleep\<close>: outside, holding
  \<^verbatim>\<open>sync_mutex\<close> before \<^verbatim>\<open>msg_setWaiting\<close>, after the test of \<^verbatim>\<open>add_msg\<close>, after the assignment of
  \<^verbatim>\<open>waiting_for_msg\<close>, and blocked in \<^verbatim>\<open>pthread_cond_wait\<close>, which gives the mutex back.  The stages of a
  sender are: outside, after the exchange, after \<^verbatim>\<open>waiting_for_msg\<close> was read as true, and before
  \<^verbatim>\<open>threadWake\<close>.  \<open>sent\<close> and \<open>received\<close> record the order of the exchanges and of the returned messages.
\<close>

datatype rstage = RLoop | RLocked | RTested | RReady | RBlocked
datatype sstage = SIdle | SPushed | SSeen | SWaking

record ('i, 'p) wstate =
  box :: "'p thread"
  rstage :: rstage
  sstage :: "'i \<Rightarrow> sstage"
  locked :: bool
  sent :: "'p message list"
  received :: "'p message list"

inductive wstep :: "('i, 'p) wstate \<Rightarrow> ('i, 'p) wstate \<Rightarrow> bool" where
  send: "sstage w i = SIdle \<Longrightarrow>
    wstep w (w\<lparr>box := push_message m (box w), sstage := (sstage w)(i := SPushed), sent := sent w @ [m]\<rparr>)"
| see: "sstage w i = SPushed \<Longrightarrow> waiting_for_msg (box w) \<Longrightarrow> wstep w (w\<lparr>sstage := (sstage w)(i := SSeen)\<rparr>)"
| pass: "sstage w i = SPushed \<Longrightarrow> \<not> waiting_for_msg (box w) \<Longrightarrow>
    wstep w (w\<lparr>sstage := (sstage w)(i := SIdle)\<rparr>)"
| clear: "sstage w i = SSeen \<Longrightarrow>
    wstep w (w\<lparr>box := (box w)\<lparr>waiting_for_msg := False\<rparr>, sstage := (sstage w)(i := SWaking)\<rparr>)"
| wake: "sstage w i = SWaking \<Longrightarrow> \<not> locked w \<Longrightarrow>
    wstep w (w\<lparr>box := (box w)\<lparr>waiting_for_msg := False\<rparr>, sstage := (sstage w)(i := SIdle),
      rstage := (if rstage w = RBlocked then RLoop else rstage w)\<rparr>)"
| turn: "rstage w = RLoop \<Longrightarrow> wait_any_iter (box w) = (Inr Again, b) \<Longrightarrow> wstep w (w\<lparr>box := b\<rparr>)"
| receive: "rstage w = RLoop \<Longrightarrow> wait_any_iter (box w) = (Inr (Message m), b) \<Longrightarrow>
    wstep w (w\<lparr>box := b, received := received w @ [m]\<rparr>)"
| lock: "rstage w = RLoop \<Longrightarrow> wait_any_iter (box w) = (Inr Sleep, b) \<Longrightarrow> \<not> locked w \<Longrightarrow>
    wstep w (w\<lparr>rstage := RLocked, locked := True\<rparr>)"
| retry: "rstage w = RLocked \<Longrightarrow> add_msg (box w) \<noteq> [] \<Longrightarrow> wstep w (w\<lparr>rstage := RLoop, locked := False\<rparr>)"
| test: "rstage w = RLocked \<Longrightarrow> add_msg (box w) = [] \<Longrightarrow> wstep w (w\<lparr>rstage := RTested\<rparr>)"
| announce: "rstage w = RTested \<Longrightarrow>
    wstep w (w\<lparr>box := (box w)\<lparr>waiting_for_msg := True\<rparr>, rstage := RReady\<rparr>)"
| block: "rstage w = RReady \<Longrightarrow> wstep w (w\<lparr>rstage := RBlocked, locked := False\<rparr>)"

inductive_cases wstepE: "wstep w w'"

definition wstart :: "('i, 'p) wstate" where
  "wstart = \<lparr>box = new_thread, rstage = RLoop, sstage = (\<lambda>_. SIdle), locked = False, sent = [], received = []\<rparr>"

text \<open>The state in which the receiver sleeps although a message has been sent.\<close>

definition wlost :: "'p message \<Rightarrow> ('i, 'p) wstate" where
  "wlost m = wstart\<lparr>box := new_thread\<lparr>add_msg := [m], waiting_for_msg := True\<rparr>, rstage := RBlocked, sent := [m]\<rparr>"

lemma wlost_reachable: "wstep\<^sup>*\<^sup>* (wstart :: ('i, 'p) wstate) (wlost m)"
proof -
  let ?a = "wstart\<lparr>rstage := RLocked, locked := True\<rparr> :: ('i, 'p) wstate"
  let ?b = "?a\<lparr>rstage := RTested\<rparr>"
  fix i :: 'i
  let ?c = "?b\<lparr>box := push_message m (box ?b), sstage := (sstage ?b)(i := SPushed), sent := sent ?b @ [m]\<rparr>"
  let ?d = "?c\<lparr>sstage := (sstage ?c)(i := SIdle)\<rparr>"
  let ?e = "?d\<lparr>box := (box ?d)\<lparr>waiting_for_msg := True\<rparr>, rstage := RReady\<rparr>"
  let ?f = "?e\<lparr>rstage := RBlocked, locked := False\<rparr>"
  have 1: "wstep wstart ?a" by (rule wstep.lock) (simp_all add: wstart_def wait_any_iter_def new_thread_def)
  have 2: "wstep ?a ?b" by (rule wstep.test) (simp_all add: wstart_def new_thread_def)
  have 3: "wstep ?b ?c" by (rule wstep.send) (simp add: wstart_def)
  have 4: "wstep ?c ?d" by (rule wstep.pass) (simp_all add: wstart_def new_thread_def push_message_def)
  have 5: "wstep ?d ?e" by (rule wstep.announce) simp
  have 6: "wstep ?e ?f" by (rule wstep.block) simp
  have "?f = wlost m" by (simp add: wlost_def wstart_def new_thread_def push_message_def fun_upd_idem)
  then show ?thesis using 1 2 3 4 5 6 by (metis (no_types, lifting) converse_rtranclp_into_rtranclp rtranclp.rtrancl_refl)
qed

lemma turn_loop_last: "turn_loop [] ms = (if ms = [] then [] else [last ms])"
  by (induction ms) auto

lemma add_messages:
  "add_msg (fold addMessage_lr ms s) = rev ms @ add_msg s \<and> cur_msg (fold addMessage_lr ms s) = cur_msg s"
  by (induction ms arbitrary: s) (simp_all add: addMessage_lr_def push_message_def Let_def)

lemma poll_empty: "cur_msg s = [] \<Longrightarrow> add_msg s = [] \<Longrightarrow> poll s = (Inr None, s)"
  by (simp add: poll_def wait_any_iter_def numeral_3_eq_3 sbind_def sreturn_def)

lemma poll_first:
  assumes "cur_msg s = []" "add_msg s \<noteq> []" "\<not> is_answer (last (add_msg s))"
  shows "poll s = (Inr (Some (last (add_msg s))), s\<lparr>cur_msg := [], add_msg := []\<rparr>)"
  using assms by (simp add: poll_def wait_any_iter_def numeral_3_eq_3 sbind_def take_added_def
      turn_loop_last sreturn_def)

lemma wait_any_iter_order:
  assumes "wait_any_iter s = (r, t)"
  shows "subseq ((case r of Inr (Message m) \<Rightarrow> [m] | _ \<Rightarrow> []) @ cur_msg t @ rev (add_msg t))
    (cur_msg s @ rev (add_msg s))"
proof (cases "cur_msg s = [] \<and> add_msg s \<noteq> []")
  case True
  then obtain m ms where "rev (add_msg s) = m # ms" by (cases "rev (add_msg s)") auto
  then show ?thesis using True assms
    by (auto simp: wait_any_iter_def take_added_def turn_loop_last last_rev [of "add_msg s", symmetric]
        simp flip: hd_rev)
next
  case False
  then show ?thesis using assms
    by (auto simp: wait_any_iter_def mark_answer_def word_at_def sbind_def sreturn_def Let_def
        split: list.splits if_splits sum.splits)
qed

lemma wstep_order:
  assumes "wstep w w'" "subseq (received w @ cur_msg (box w) @ rev (add_msg (box w))) (sent w)"
  shows "subseq (received w' @ cur_msg (box w') @ rev (add_msg (box w'))) (sent w')"
  using assms
proof cases
  case (send i m)
  then show ?thesis using list_emb_append_mono [OF assms(2), of "[m]" "[m]"] by (simp add: push_message_def)
next
  case (turn b)
  have "subseq (received w @ cur_msg b @ rev (add_msg b)) (received w @ cur_msg (box w) @ rev (add_msg (box w)))"
    using wait_any_iter_order [OF turn(3)] list_emb_append_mono [OF subseq_order.order_refl] by simp
  then show ?thesis using subseq_order.order_trans [OF _ assms(2)] turn(1) by simp
next
  case (receive m b)
  have "subseq (received w @ [m] @ cur_msg b @ rev (add_msg b))
      (received w @ cur_msg (box w) @ rev (add_msg (box w)))"
    using wait_any_iter_order [OF receive(3)] list_emb_append_mono [OF subseq_order.order_refl] by simp
  then show ?thesis using subseq_order.order_trans [OF _ assms(2)] receive(1) by simp
qed (use assms(2) in auto)

section \<open>Properties\<close>

definition plain :: "nat \<Rightarrow> nat message" where
  "plain n = \<lparr>mtype = NOCALL, mserial = 0, body = n\<rparr>"

text \<open>
  C11: Whatever the interleaving of senders and receiver, no message is received twice or out of the order in which the
  messages were put into the box: what was received followed by what is still in the two chains is a
  subsequence of what was sent.
\<close>

theorem thread_box_order:
  assumes "wstep\<^sup>*\<^sup>* wstart w"
  shows "subseq (received w @ cur_msg (box w) @ rev (add_msg (box w))) (sent w)"
  using assms
proof (induction rule: rtranclp_induct)
  case base
  then show ?case by (simp add: wstart_def new_thread_def)
next
  case (step w w')
  then show ?case using wstep_order by blast
qed

theorem thread_box_order_witness:
  "subseq (received (wlost (plain 7) :: (nat, nat) wstate) @ cur_msg (box (wlost (plain 7) :: (nat, nat) wstate)) @
     rev (add_msg (box (wlost (plain 7) :: (nat, nat) wstate)))) (sent (wlost (plain 7) :: (nat, nat) wstate))"
  using thread_box_order [OF wlost_reachable [where 'i = nat], of "plain 7"] .

text \<open>
  C15: When several messages are sent before their receiver looks, it receives the first one only; the others are
  lost, because the loop that is to turn the chain over never assigns its accumulator.
\<close>

theorem thread_keeps_one_message:
  assumes "cur_msg s = []" "add_msg s = []" "ms \<noteq> []" "\<not> is_answer (hd ms)"
  shows "\<exists>t. poll (fold addMessage_lr ms s) = (Inr (Some (hd ms)), t) \<and> poll t = (Inr None, t)"
proof -
  let ?t = "fold addMessage_lr ms s"
  have "add_msg ?t = rev ms" "cur_msg ?t = []" using add_messages [of ms s] assms by auto
  then show ?thesis using assms poll_first [of ?t] by (auto simp: last_rev poll_empty)
qed

theorem thread_keeps_one_message_witness:
  "\<exists>t. poll (fold addMessage_lr [plain 1, plain 2, plain 3] new_thread) = (Inr (Some (plain 1)), t) \<and>
   poll t = (Inr None, t)"
  using thread_keeps_one_message [of new_thread "[plain 1, plain 2, plain 3]"]
  by (simp add: new_thread_def plain_def is_answer_def NOCALL_def ANSWERED_def)

text \<open>
  C16: A message sent between the receiver's test of \<^verbatim>\<open>add_msg\<close> and its assignment of \<^verbatim>\<open>waiting_for_msg\<close> wakes
  nobody: a state is reachable in which every sender is done, the message is in the box, and the
  receiver sleeps until another message is sent.
\<close>

theorem thread_lost_wakeup:
  "wstep\<^sup>*\<^sup>* (wstart :: ('i, 'p) wstate) (wlost m) \<and> rstage (wlost m :: ('i, 'p) wstate) = RBlocked \<and>
   add_msg (box (wlost m :: ('i, 'p) wstate)) = [m] \<and> sstage (wlost m :: ('i, 'p) wstate) = (\<lambda>_. SIdle) \<and>
   (\<forall>w'. wstep (wlost m :: ('i, 'p) wstate) w' \<longrightarrow> (\<exists>m'. sent w' = [m, m']))"
proof (intro conjI allI impI)
  show "wstep\<^sup>*\<^sup>* (wstart :: ('i, 'p) wstate) (wlost m)" by (rule wlost_reachable)
  fix w' :: "('i, 'p) wstate"
  assume "wstep (wlost m) w'"
  then show "\<exists>m'. sent w' = [m, m']" by cases (auto simp: wlost_def wstart_def)
qed (simp_all add: wlost_def wstart_def)

theorem thread_lost_wakeup_witness:
  "rstage (wlost (plain 7) :: (nat, nat) wstate) = RBlocked \<and> add_msg (box (wlost (plain 7) :: (nat, nat) wstate)) = [plain 7] \<and>
   wstep\<^sup>*\<^sup>* (wstart :: (nat, nat) wstate) (wlost (plain 7))"
  using thread_lost_wakeup [of "plain 7", where 'i = nat] by (simp add: wlost_def)

text \<open>
  Serials of synchronous messages: an answer to a serial whose place in its word is below 31 is recorded for that serial and
  no other one below 31; place 31 sets all the bits from 31 to 63 of the word; from place 32 on the shift is
  undefined.
\<close>

theorem thread_serial_answers:
  assumes "serial div 64 < length (serial_pend s)"
  shows "(serial mod 64 < 31 \<longrightarrow> (\<exists>t. mark_answer serial s = (Inr (), t) \<and> answered serial t = (Inr True, t) \<and>
      (\<forall>j. j mod 64 < 31 \<longrightarrow> j \<noteq> serial \<longrightarrow> fst (answered j t) = fst (answered j s)))) \<and>
    (serial mod 64 = 31 \<longrightarrow> (\<exists>t. mark_answer serial s = (Inr (), t) \<and>
      (\<forall>k. 31 \<le> k \<and> k < 64 \<longrightarrow> bit (serial_pend t ! (serial div 64)) k))) \<and>
    (32 \<le> serial mod 64 \<longrightarrow> mark_answer serial s = (Inl Undefined, s) \<and> answered serial s = (Inl Undefined, s))"
proof -
  have e: "int_bit k = Inr x \<Longrightarrow> bit x n = (n < 64 \<and> min 31 n = k)" for k x n
    by (auto simp: int_bit_def bit_simps split: if_splits)
  have b: "int_bit k = Inr (2 ^ k)" if "k < 31" for k
    using that by (auto simp: int_bit_def intro!: bit_word_eqI) (auto simp: bit_simps)
  have o: "bit (w OR 2 ^ k :: u64) j = (bit w j \<or> j = k)" if "k < 31" for w j k
    using that by (auto simp: bit_simps)
  have "j div 64 \<noteq> serial div 64 \<or> j mod 64 \<noteq> serial mod 64" if "j \<noteq> serial" for j
    using that by (metis div_mult_mod_eq)
  then have 1: "serial mod 64 < 31 \<longrightarrow> (\<exists>t. mark_answer serial s = (Inr (), t) \<and> answered serial t = (Inr True, t) \<and>
      (\<forall>j. j mod 64 < 31 \<longrightarrow> j \<noteq> serial \<longrightarrow> fst (answered j t) = fst (answered j s)))"
    using assms by (auto simp: mark_answer_def answered_def word_at_def sbind_def b o nth_list_update mem_get_def
        and_exp_eq_0_iff_not_bit)
  have 2: "serial mod 64 = 31 \<longrightarrow> (\<exists>t. mark_answer serial s = (Inr (), t) \<and>
      (\<forall>k. 31 \<le> k \<and> k < 64 \<longrightarrow> bit (serial_pend t ! (serial div 64)) k))"
    using assms e [of 31] by (auto simp: mark_answer_def word_at_def sbind_def bit_or_iff split: sum.splits)
      (auto simp: int_bit_def)
  have 3: "32 \<le> serial mod 64 \<longrightarrow> mark_answer serial s = (Inl Undefined, s) \<and> answered serial s = (Inl Undefined, s)"
    using assms by (auto simp: mark_answer_def answered_def word_at_def sbind_def int_bit_def)
  show ?thesis using 1 2 3 by blast
qed

definition two_words :: "nat thread" where
  "two_words = new_thread\<lparr>serial_level := 128, serial_pend := [0, 0]\<rparr>"

theorem thread_serial_answers_witness:
  "(\<exists>t. mark_answer 70 two_words = (Inr (), t) \<and> answered 70 t = (Inr True, t)) \<and>
   (\<exists>t. mark_answer 31 two_words = (Inr (), t) \<and> bit (serial_pend t ! 0) 40) \<and>
   mark_answer 40 two_words = (Inl Undefined, two_words)"
  using thread_serial_answers [of 70 two_words] thread_serial_answers [of 31 two_words]
    thread_serial_answers [of 40 two_words] by (auto simp: two_words_def)

end
