(* ===== verification/Drt_Pool.thy ===== *)
theory Drt_Pool
  imports Drt_Thread "HOL-Library.Multiset"
begin

text \<open>
  The worker pool of \<^verbatim>\<open>src/src/app/workerpool\<close>: \<^verbatim>\<open>WorkerPoolManager\<close>, its worker threads
  \<^verbatim>\<open>WorkerPoolThread\<close> and their message boxes (\<open>Drt_Thread\<close>).  Everything a thread does while it holds
  \<^verbatim>\<open>access_lock\<close> is one step, since every access to the manager's containers is made with the lock
  held; between the steps the threads interleave in any way.  A worker's place in
  \<^verbatim>\<open>checkNextWork\<close> / \<^verbatim>\<open>run\<close> is its \<open>stage\<close>.  There is one client thread; it blocks in \<^verbatim>\<open>waitWorkResult\<close>
  and in \<^verbatim>\<open>destroy\<close> until the condition is signalled.  The code a worker runs is the parameter \<open>run_work\<close>.
\<close>

section \<open>Data\<close>

text \<open>
  The stages of a worker: before the first \<^verbatim>\<open>waitAnyMessageTimeout(0)\<close> of \<^verbatim>\<open>checkNextWork\<close>, before its first
  locked section, in \<^verbatim>\<open>waitAnyMessageTimeout(worker_timeout_ns)\<close>, before its second locked section, at the
  label \<^verbatim>\<open>out\<close> with the work of the message, in \<^verbatim>\<open>runWork\<close>, before \<^verbatim>\<open>addResult\<close>, and done.  The lists of
  messages are the lists of the works they carry.  \<open>submitted\<close> and \<open>returned\<close> record what the client has passed in and
  got back.
\<close>

datatype 'w stage = Check1 | Check2 | Waiting | Check3 | Out "'w option" | Running 'w | Finished 'w | Exited

datatype client = Idle | Blocked | Destroying | Destroyed

record 'w pool =
  worker_timeout_ns :: int
  max_workers :: int
  is_waiting :: bool
  exit_workers :: "nat list"
  free_workers :: "nat set"
  all_workers :: "nat set"
  pending_work :: "'w list"
  result_msg :: "'w list"
  inbox :: "nat \<Rightarrow> 'w option thread"
  stage :: "nat \<Rightarrow> 'w stage"
  next_worker :: nat
  signalled :: bool
  client :: client
  failed :: bool
  submitted :: "'w list"
  returned :: "'w list"

definition WorkerPoolManager :: "'w pool" where
  "WorkerPoolManager = \<lparr>worker_timeout_ns = 1000000000, max_workers = 1, is_waiting = False,
     exit_workers = [], free_workers = {}, all_workers = {}, pending_work = [], result_msg = [],
     inbox = (\<lambda>_. new_thread), stage = (\<lambda>_. Exited), next_worker = 0, signalled = False, client = Idle,
     failed = False, submitted = [], returned = []\<rparr>"

definition setWorkerTimeoutNs :: "int \<Rightarrow> 'w pool \<Rightarrow> 'w pool" where
  "setWorkerTimeoutNs timeout_ns p = p\<lparr>worker_timeout_ns := timeout_ns\<rparr>"

definition setMaxWorkers :: "u32 \<Rightarrow> 'w pool \<Rightarrow> 'w pool" where
  "setMaxWorkers max_count p = p\<lparr>max_workers := sint max_count\<rparr>"

definition WorkMessage :: "'w option \<Rightarrow> 'w option message" where
  "WorkMessage work = \<lparr>mtype = NOCALL, mserial = 0, body = work\<rparr>"

section \<open>The manager\<close>

definition pool_signal :: "'w pool \<Rightarrow> 'w pool" where
  "pool_signal p = (if is_waiting p then p\<lparr>signalled := True\<rparr> else p)"

definition addResult :: "nat \<Rightarrow> 'w \<Rightarrow> 'w pool \<Rightarrow> 'w pool" where
  "addResult worker work p = (let p1 = pool_signal (p\<lparr>result_msg := result_msg p @ [work]\<rparr>) in
     p1\<lparr>free_workers := insert worker (free_workers p1)\<rparr>)"

definition workerExiting :: "nat \<Rightarrow> 'w pool \<Rightarrow> 'w pool" where
  "workerExiting worker p = (let p1 = p\<lparr>free_workers := free_workers p - {worker}\<rparr>;
     p2 = (if worker \<in> all_workers p1 then p1\<lparr>all_workers := all_workers p1 - {worker}\<rparr>
           else p1\<lparr>failed := True\<rparr>) in
     pool_signal (p2\<lparr>exit_workers := exit_workers p2 @ [worker]\<rparr>))"

definition createWorkerThread :: "'w pool \<Rightarrow> 'w pool" where
  "createWorkerThread p = p\<lparr>stage := (stage p)(next_worker p := Check1),
     inbox := (inbox p)(next_worker p := new_thread), next_worker := Suc (next_worker p)\<rparr>"

text \<open>
  The loop of \<^verbatim>\<open>addWork\<close> creates a worker in each turn; the length of \<^verbatim>\<open>pending_work\<close> bounds the number of turns.  A
  thread in \<^verbatim>\<open>exit_workers\<close> has left its last locked section, so that joining it ends.
\<close>

definition create_guard :: "'w pool \<Rightarrow> bool" where
  "create_guard p \<longleftrightarrow> card (free_workers p) < length (pending_work p) \<and>
     card (all_workers p) < unat (word_of_int (max_workers p) :: u32)"

fun create_loop :: "nat \<Rightarrow> 'w pool \<Rightarrow> 'w pool" where
  "create_loop 0 p = p"
| "create_loop (Suc f) p =
     (if create_guard p then
        let worker = next_worker p; p1 = createWorkerThread p in
        create_loop f (p1\<lparr>all_workers := insert worker (all_workers p1),
          free_workers := insert worker (free_workers p1), exit_workers := []\<rparr>)
      else p)"

definition queue_work :: "'w \<Rightarrow> 'w pool \<Rightarrow> 'w pool" where
  "queue_work work p = (let p1 = p\<lparr>pending_work := pending_work p @ [work], submitted := submitted p @ [work]\<rparr>
     in create_loop (length (pending_work p1)) p1)"

definition send_to :: "nat \<Rightarrow> 'w option \<Rightarrow> 'w pool \<Rightarrow> 'w pool" where
  "send_to worker work p = p\<lparr>inbox := (inbox p)(worker := addMessage_lr (WorkMessage work) (inbox p worker))\<rparr>"

definition hand_over :: "nat \<Rightarrow> 'w pool \<Rightarrow> 'w pool" where
  "hand_over worker p = send_to worker (Some (hd (pending_work p)))
     (p\<lparr>free_workers := free_workers p - {worker}, pending_work := tl (pending_work p)\<rparr>)"

text \<open>\<open>worker\<close> is the first node of the hash table \<^verbatim>\<open>free_workers\<close>, whose order is not known.\<close>

definition addWork :: "nat \<Rightarrow> 'w \<Rightarrow> 'w pool \<Rightarrow> 'w pool" where
  "addWork worker work p = (let p1 = queue_work work p in
     if card (free_workers p1) > 0 then hand_over worker p1 else p1)"

definition pop_result :: "'w pool \<Rightarrow> 'w pool" where
  "pop_result p = p\<lparr>result_msg := tl (result_msg p), returned := returned p @ [hd (result_msg p)]\<rparr>"

definition checkWorkResult :: "'w pool \<Rightarrow> 'w option \<times> 'w pool" where
  "checkWorkResult p = (if result_msg p \<noteq> [] then (Some (hd (result_msg p)), pop_result p) else (None, p))"

text \<open>
  A signal is not remembered: a client that begins to wait forgets the earlier ones.  One turn of the loop of
  \<^verbatim>\<open>waitWorkResult\<close> returns a work, returns \<^verbatim>\<open>NULL\<close> (the first component is then \<open>Some None\<close>)
  or blocks.
\<close>

definition waitWorkResult_iter :: "'w pool \<Rightarrow> 'w option option \<times> 'w pool" where
  "waitWorkResult_iter p =
     (if result_msg p \<noteq> [] then (Some (Some (hd (result_msg p))), (pop_result p)\<lparr>client := Idle\<rparr>)
      else if pending_work p = [] \<and> card (free_workers p) = card (all_workers p) then
        (Some None, p\<lparr>client := Idle\<rparr>)
      else (None, p\<lparr>is_waiting := True, signalled := False, client := Blocked\<rparr>))"

definition waitWorkResult_resume :: "'w pool \<Rightarrow> 'w option option \<times> 'w pool" where
  "waitWorkResult_resume p = waitWorkResult_iter (p\<lparr>is_waiting := False, signalled := False\<rparr>)"

definition destroy_check :: "'w pool \<Rightarrow> 'w pool" where
  "destroy_check p = (if card (all_workers p) > 0 then p\<lparr>client := Destroying, signalled := False\<rparr>
     else p\<lparr>exit_workers := [], client := Destroyed\<rparr>)"

definition destroy_resume :: "'w pool \<Rightarrow> 'w pool" where
  "destroy_resume p = destroy_check (p\<lparr>signalled := False\<rparr>)"

definition notify_free :: "'w pool \<Rightarrow> 'w pool" where
  "notify_free p = p\<lparr>inbox := (\<lambda>w. if w \<in> free_workers p
     then addMessage_lr (WorkMessage None) (inbox p w) else inbox p w)\<rparr>"

definition destroy_pool :: "'w pool \<Rightarrow> 'w pool" where
  "destroy_pool p = destroy_check (notify_free (p\<lparr>max_workers := -1, is_waiting := True\<rparr>))"

section \<open>The workers\<close>

definition goto_stage :: "nat \<Rightarrow> 'w stage \<Rightarrow> 'w pool \<Rightarrow> 'w pool" where
  "goto_stage worker st p = p\<lparr>stage := (stage p)(worker := st)\<rparr>"

definition receive_work :: "nat \<Rightarrow> 'w pool \<Rightarrow> 'w option option \<times> 'w pool" where
  "receive_work worker p = (case poll (inbox p worker) of (r, b) \<Rightarrow>
     let p1 = p\<lparr>inbox := (inbox p)(worker := b)\<rparr> in
     (case r of Inl e \<Rightarrow> (None, p1\<lparr>failed := True\<rparr>) | Inr None \<Rightarrow> (None, p1)
      | Inr (Some msg) \<Rightarrow> (Some (body msg), p1)))"

definition exit_worker :: "nat \<Rightarrow> 'w pool \<Rightarrow> 'w pool" where
  "exit_worker worker p = goto_stage worker Exited (workerExiting worker p)"

definition check_first :: "nat \<Rightarrow> 'w pool \<Rightarrow> 'w pool" where
  "check_first worker p = (case receive_work worker p of
     (Some wk, p1) \<Rightarrow> goto_stage worker (Out wk) p1 | (None, p1) \<Rightarrow> goto_stage worker Check2 p1)"

definition check_locked :: "nat \<Rightarrow> 'w pool \<Rightarrow> 'w pool" where
  "check_locked worker p = (case receive_work worker p of
     (Some wk, p1) \<Rightarrow> goto_stage worker (Out wk) p1
   | (None, p1) \<Rightarrow>
       (if max_workers p1 < 0 then exit_worker worker p1
        else if pending_work p1 \<noteq> [] then
          goto_stage worker (Out (Some (hd (pending_work p1))))
            (p1\<lparr>pending_work := tl (pending_work p1), free_workers := free_workers p1 - {worker}\<rparr>)
        else goto_stage worker Waiting (p1\<lparr>free_workers := insert worker (free_workers p1)\<rparr>)))"

definition check_last :: "nat \<Rightarrow> 'w pool \<Rightarrow> 'w pool" where
  "check_last worker p = (case receive_work worker p of
     (Some wk, p1) \<Rightarrow> goto_stage worker (Out wk) p1 | (None, p1) \<Rightarrow> exit_worker worker p1)"

text \<open>
  The steps of a worker.  The wait ends with a message or with the timeout; the timeout can strike although a
  message has arrived, since the wake-up may have been lost.
\<close>

inductive worker_step :: "('w \<Rightarrow> 'w) \<Rightarrow> nat \<Rightarrow> 'w pool \<Rightarrow> 'w pool \<Rightarrow> bool" for run_work where
  first: "stage p w = Check1 \<Longrightarrow> worker_step run_work w p (check_first w p)"
| locked: "stage p w = Check2 \<Longrightarrow> worker_step run_work w p (check_locked w p)"
| got: "stage p w = Waiting \<Longrightarrow> receive_work w p = (Some wk, p1) \<Longrightarrow>
    worker_step run_work w p (goto_stage w (Out wk) p1)"
| timeout: "stage p w = Waiting \<Longrightarrow> worker_timeout_ns p \<ge> 0 \<Longrightarrow> worker_step run_work w p (goto_stage w Check3 p)"
| final: "stage p w = Check3 \<Longrightarrow> worker_step run_work w p (check_last w p)"
| work: "stage p w = Out (Some x) \<Longrightarrow> worker_step run_work w p (goto_stage w (Running x) p)"
| quit: "stage p w = Out None \<Longrightarrow> worker_step run_work w p (exit_worker w p)"
| run: "stage p w = Running x \<Longrightarrow> worker_step run_work w p (goto_stage w (Finished (run_work x)) p)"
| result: "stage p w = Finished y \<Longrightarrow> worker_step run_work w p (goto_stage w Check1 (addResult w y p))"

inductive client_step :: "'w pool \<Rightarrow> 'w pool \<Rightarrow> bool" where
  add: "client p = Idle \<Longrightarrow> worker \<in> free_workers (queue_work x p) \<or> free_workers (queue_work x p) = {} \<Longrightarrow>
    client_step p (addWork worker x p)"
| check: "client p = Idle \<Longrightarrow> client_step p (snd (checkWorkResult p))"
| wait: "client p = Idle \<Longrightarrow> client_step p (snd (waitWorkResult_iter p))"
| resume: "client p = Blocked \<Longrightarrow> client_step p (snd (waitWorkResult_resume p))"
| destroy: "client p = Idle \<Longrightarrow> client_step p (destroy_pool p)"
| rejoin: "client p = Destroying \<Longrightarrow> client_step p (destroy_resume p)"

definition pool_step :: "('w \<Rightarrow> 'w) \<Rightarrow> 'w pool \<Rightarrow> 'w pool \<Rightarrow> bool" where
  "pool_step run_work p q \<longleftrightarrow> (\<exists>w. worker_step run_work w p q) \<or> client_step p q"

text \<open>What happens without a new call of the client: the workers' steps and the wake-up of a blocked client.\<close>

inductive progress :: "('w \<Rightarrow> 'w) \<Rightarrow> 'w pool \<Rightarrow> 'w pool \<Rightarrow> bool" for run_work where
  worker: "worker_step run_work w p q \<Longrightarrow> progress run_work p q"
| wake: "client p = Blocked \<Longrightarrow> signalled p \<Longrightarrow> progress run_work p (snd (waitWorkResult_resume p))"
| wake_destroy: "client p = Destroying \<Longrightarrow> signalled p \<Longrightarrow> progress run_work p (destroy_resume p)"

definition start_pool :: "u32 \<Rightarrow> int \<Rightarrow> 'w pool" where
  "start_pool max_count timeout_ns = setMaxWorkers max_count (setWorkerTimeoutNs timeout_ns WorkerPoolManager)"

section \<open>The invariant\<close>

definition mail :: "'w pool \<Rightarrow> nat \<Rightarrow> 'w option list" where
  "mail p w = map body (add_msg (inbox p w))"

fun idle :: "'w stage \<Rightarrow> bool" where
  "idle Check1 = True" | "idle Check2 = True" | "idle Waiting = True" | "idle Check3 = True" | "idle _ = False"

text \<open>What holds of one worker: in particular its box never holds two messages.\<close>

definition worker_ok :: "'w pool \<Rightarrow> nat \<Rightarrow> bool" where
  "worker_ok p w \<longleftrightarrow> cur_msg (inbox p w) = [] \<and> (\<forall>m \<in> set (add_msg (inbox p w)). \<not> is_answer m) \<and>
     (w \<in> all_workers p \<longleftrightarrow> stage p w \<noteq> Exited) \<and> (w \<in> all_workers p \<longrightarrow> w < next_worker p) \<and>
     (if idle (stage p w) then
        mail p w = [] \<and> w \<in> free_workers p \<or> (\<exists>x. mail p w = [Some x]) \<and> w \<notin> free_workers p \<or>
        mail p w = [None] \<and> w \<in> free_workers p \<and> max_workers p < 0
      else mail p w = [] \<and> (w \<in> free_workers p \<longleftrightarrow> stage p w = Out None)) \<and>
     (stage p w = Out None \<longrightarrow> max_workers p < 0) \<and>
     (stage p w = Waiting \<or> stage p w = Check3 \<longrightarrow> mail p w = [] \<longrightarrow> max_workers p \<ge> 0 \<longrightarrow> pending_work p = [])"

fun carried :: "('w \<Rightarrow> 'w) \<Rightarrow> 'w stage \<Rightarrow> 'w option list \<Rightarrow> 'w multiset" where
  "carried f st (Some x # ms) = {#f x#} + carried f st ms"
| "carried f st (None # ms) = carried f st ms"
| "carried f (Out (Some x)) [] = {#f x#}"
| "carried f (Running x) [] = {#f x#}"
| "carried f (Finished y) [] = {#y#}"
| "carried f _ [] = {#}"

definition in_flight :: "('w \<Rightarrow> 'w) \<Rightarrow> 'w pool \<Rightarrow> 'w multiset" where
  "in_flight f p = (\<Sum>w\<in>all_workers p. carried f (stage p w) (mail p w))"

definition conserved :: "('w \<Rightarrow> 'w) \<Rightarrow> 'w pool \<Rightarrow> bool" where
  "conserved f p \<longleftrightarrow> image_mset f (mset (submitted p)) =
     image_mset f (mset (pending_work p)) + in_flight f p + mset (result_msg p) + mset (returned p)"

definition all_idle :: "'w pool \<Rightarrow> bool" where
  "all_idle p \<longleftrightarrow> pending_work p = [] \<and> card (free_workers p) = card (all_workers p)"

definition client_ok :: "'w pool \<Rightarrow> bool" where
  "client_ok p \<longleftrightarrow> (case client p of
     Idle \<Rightarrow> \<not> is_waiting p \<and> max_workers p \<ge> 0
   | Blocked \<Rightarrow> is_waiting p \<and> max_workers p \<ge> 0 \<and> (signalled p \<or> result_msg p = [] \<and> \<not> all_idle p)
   | Destroying \<Rightarrow> is_waiting p \<and> max_workers p < 0 \<and> (signalled p \<or> all_workers p \<noteq> {})
   | Destroyed \<Rightarrow> max_workers p < 0 \<and> all_workers p = {})"

definition pool_inv :: "('w \<Rightarrow> 'w) \<Rightarrow> int \<Rightarrow> 'w pool \<Rightarrow> bool" where
  "pool_inv f m p \<longleftrightarrow> (\<forall>w. worker_ok p w) \<and> finite (all_workers p) \<and> \<not> failed p \<and>
     (max_workers p \<ge> 0 \<longrightarrow> max_workers p = m) \<and> int (card (all_workers p)) \<le> m \<and>
     (max_workers p \<ge> 0 \<longrightarrow> pending_work p \<noteq> [] \<longrightarrow> all_workers p \<noteq> {}) \<and>
     (\<forall>w \<in> set (exit_workers p). stage p w = Exited) \<and> conserved f p \<and> client_ok p"

lemma free_sub: "worker_ok p w \<Longrightarrow> w \<in> free_workers p \<Longrightarrow> w \<in> all_workers p"
  by (auto simp: worker_ok_def split: if_splits)

definition emptied :: "nat \<Rightarrow> 'w pool \<Rightarrow> 'w pool" where
  "emptied w p = p\<lparr>inbox := (inbox p)(w := (inbox p w)\<lparr>cur_msg := [], add_msg := []\<rparr>)\<rparr>"

lemma receive_work_ok:
  assumes "worker_ok p w"
  shows "receive_work w p = (case mail p w of [] \<Rightarrow> (None, p) | x # _ \<Rightarrow> (Some x, emptied w p))"
proof (cases "add_msg (inbox p w)")
  case Nil
  then show ?thesis using assms poll_empty [of "inbox p w"]
    by (simp add: receive_work_def worker_ok_def mail_def)
next
  case (Cons m ms)
  then have "ms = []" "\<not> is_answer m" using assms by (auto simp: worker_ok_def mail_def split: if_splits)
  then show ?thesis using Cons assms poll_first [of "inbox p w"]
    by (simp add: receive_work_def worker_ok_def mail_def emptied_def)
qed

text \<open>
  In a state in which every worker is as it should be, a step of a worker is one of these changes: to
  register as free changes nothing, for the worker is registered already.
\<close>

inductive change :: "('w \<Rightarrow> 'w) \<Rightarrow> nat \<Rightarrow> 'w pool \<Rightarrow> 'w pool \<Rightarrow> bool" for f w where
  look: "stage p w = Check1 \<Longrightarrow> mail p w = [] \<Longrightarrow> change f w p (goto_stage w Check2 p)"
| register: "stage p w = Check2 \<Longrightarrow> mail p w = [] \<Longrightarrow> pending_work p = [] \<Longrightarrow> w \<in> free_workers p \<Longrightarrow>
    change f w p (goto_stage w Waiting p)"
| expire: "stage p w = Waiting \<Longrightarrow> change f w p (goto_stage w Check3 p)"
| launch: "stage p w = Out (Some x) \<Longrightarrow> change f w p (goto_stage w (Running x) p)"
| finish: "stage p w = Running x \<Longrightarrow> change f w p (goto_stage w (Finished (f x)) p)"
| receive: "idle (stage p w) \<Longrightarrow> mail p w = [wk] \<Longrightarrow> change f w p (goto_stage w (Out wk) (emptied w p))"
| fetch: "stage p w = Check2 \<Longrightarrow> mail p w = [] \<Longrightarrow> pending_work p = x # xs \<Longrightarrow> max_workers p \<ge> 0 \<Longrightarrow>
    change f w p (goto_stage w (Out (Some x)) (p\<lparr>pending_work := xs, free_workers := free_workers p - {w}\<rparr>))"
| leave: "stage p w = Check2 \<and> max_workers p < 0 \<or> stage p w = Check3 \<or> stage p w = Out None \<Longrightarrow> mail p w = [] \<Longrightarrow>
    change f w p (exit_worker w p)"
| deliver: "stage p w = Finished y \<Longrightarrow> change f w p (goto_stage w Check1 (addResult w y p))"

lemma receive_cases:
  assumes "worker_ok p w" "idle (stage p w)"
  obtains "mail p w = []" "receive_work w p = (None, p)" "w \<in> free_workers p"
  | wk where "receive_work w p = (Some wk, emptied w p)" "change f w p (goto_stage w (Out wk) (emptied w p))"
  using assms receive_work_ok [OF assms(1)] change.receive [of p w _ f] by (auto simp: worker_ok_def)

lemma worker_step_change:
  assumes "worker_step f w p q" "worker_ok p w"
  shows "change f w p q"
  using assms(1)
proof cases
  case first
  show ?thesis by (rule receive_cases [OF assms(2), where f = f])
      (use first in \<open>auto simp: check_first_def intro: change.intros\<close>)
next
  case locked
  show ?thesis by (rule receive_cases [OF assms(2), where f = f])
      (use locked in \<open>cases "pending_work p"; auto simp: check_locked_def insert_absorb intro: change.intros\<close>)+
next
  case (got wk p1)
  show ?thesis by (rule receive_cases [OF assms(2), where f = f]) (use got in auto)
next
  case final
  show ?thesis by (rule receive_cases [OF assms(2), where f = f])
      (use final in \<open>auto simp: check_last_def intro: change.intros\<close>)
next
  case quit
  then show ?thesis using assms(2) by (auto simp: worker_ok_def intro: change.intros)
qed (auto intro: change.intros)

lemmas pool_defs = goto_stage_def emptied_def exit_worker_def workerExiting_def addResult_def pool_signal_def Let_def

lemma change_worker_ok:
  assumes "change f w p q" "worker_ok p w" "worker_ok p v"
  shows "worker_ok q v"
proof (cases "v = w")
  case True
  show ?thesis using assms(1) assms(2) unfolding True
    by cases (auto simp: worker_ok_def pool_defs mail_def split: if_splits)
next
  case False
  with assms(1,3) show ?thesis
    by cases (auto simp: worker_ok_def pool_defs mail_def split: if_splits)
qed

lemma change_frame:
  assumes "change f w p q" "worker_ok p w"
  shows "submitted q = submitted p" "returned q = returned p" "client q = client p" "is_waiting q = is_waiting p"
    "max_workers q = max_workers p" "failed q = failed p" "worker_timeout_ns q = worker_timeout_ns p"
    "all_workers q = all_workers p \<or> all_workers q = all_workers p - {w}" "w \<in> all_workers p"
    "length (pending_work q) \<le> length (pending_work p)"
    "stage q w = Exited \<longleftrightarrow> all_workers q = all_workers p - {w}"
    "\<And>v. v \<noteq> w \<Longrightarrow> stage q v = stage p v \<and> mail q v = mail p v"
    "signalled p \<Longrightarrow> signalled q"
    "exit_workers q = exit_workers p \<or> exit_workers q = exit_workers p @ [w] \<and> stage q w = Exited"
    "stage q w = Exited \<Longrightarrow> max_workers q \<ge> 0 \<Longrightarrow> pending_work q = []"
  using assms by (cases; auto simp: worker_ok_def pool_defs mail_def split: if_splits)+

text \<open>A sum over the workers changes by the summand of the worker that makes the step.\<close>

lemma change_sum:
  fixes g :: "'w stage \<Rightarrow> 'w option list \<Rightarrow> 'm::comm_monoid_add"
  assumes "change f w p q" "worker_ok p w" "finite (all_workers p)" "g Exited [] = 0"
  shows "(\<Sum>v\<in>all_workers q. g (stage q v) (mail q v)) + g (stage p w) (mail p w) =
    (\<Sum>v\<in>all_workers p. g (stage p v) (mail p v)) + g (stage q w) (mail q w)"
proof -
  note fr = change_frame [OF assms(1,2)]
  have rest: "(\<Sum>v\<in>all_workers p - {w}. g (stage q v) (mail q v)) = (\<Sum>v\<in>all_workers p - {w}. g (stage p v) (mail p v))"
    by (rule sum.cong) (use fr(12) in auto)
  have p: "(\<Sum>v\<in>all_workers p. g (stage p v) (mail p v)) =
      g (stage p w) (mail p w) + (\<Sum>v\<in>all_workers p - {w}. g (stage p v) (mail p v))"
    by (rule sum.remove [OF assms(3) fr(9)])
  have q: "(\<Sum>v\<in>all_workers q. g (stage q v) (mail q v)) =
      g (stage q w) (mail q w) + (\<Sum>v\<in>all_workers p - {w}. g (stage q v) (mail q v))"
  proof (cases "stage q w = Exited")
    case True
    then have "mail q w = []" using change_worker_ok [OF assms(1,2,2)] by (auto simp: worker_ok_def)
    then show ?thesis using True fr(11) assms(4) by simp
  next
    case False
    then have "all_workers q = all_workers p" using fr(8,11) by auto
    then show ?thesis using sum.remove [OF assms(3) fr(9), of "\<lambda>v. g (stage q v) (mail q v)"] by simp
  qed
  show ?thesis unfolding p q rest by (simp add: ac_simps)
qed

lemma change_carried:
  assumes "change f w p q" "worker_ok p w"
  shows "image_mset f (mset (pending_work q)) + carried f (stage q w) (mail q w) + mset (result_msg q) =
    image_mset f (mset (pending_work p)) + carried f (stage p w) (mail p w) + mset (result_msg p)"
  using assms(1)
proof cases
  case (receive wk)
  then show ?thesis by (cases "stage p w"; cases wk) (simp_all add: pool_defs mail_def)
next
  case leave
  then show ?thesis by (auto simp: pool_defs mail_def)
next
  case (deliver y)
  then show ?thesis using assms(2) by (auto simp: pool_defs mail_def worker_ok_def)
next
  case expire
  have "carried f Waiting xs = carried f Check3 xs" for xs by (induction f "Waiting :: 'a stage" xs rule: carried.induct) auto
  then show ?thesis using expire by (simp add: pool_defs mail_def)
qed (use assms(2) in \<open>auto simp: pool_defs mail_def worker_ok_def\<close>)

lemma multiset_exchange:
  "F' + a = F + b \<Longrightarrow> P' + b + R' = P + a + R \<Longrightarrow> P' + F' + R' = P + F + (R :: 'x multiset)"
proof (rule multiset_eqI)
  fix x
  assume "F' + a = F + b" "P' + b + R' = P + a + R"
  then have "count F' x + count a x = count F x + count b x"
    "count P' x + count b x + count R' x = count P x + count a x + count R x"
    by (metis count_union)+
  then show "count (P' + F' + R') x = count (P + F + R) x" by simp
qed

lemma change_conserved:
  assumes "change f w p q" "worker_ok p w" "finite (all_workers p)" "conserved f p"
  shows "conserved f q"
proof -
  have "in_flight f q + carried f (stage p w) (mail p w) = in_flight f p + carried f (stage q w) (mail q w)"
    unfolding in_flight_def by (rule change_sum [OF assms(1-3)]) simp
  moreover note change_carried [OF assms(1,2)]
  ultimately have "image_mset f (mset (pending_work q)) + in_flight f q + mset (result_msg q) =
      image_mset f (mset (pending_work p)) + in_flight f p + mset (result_msg p)"
    by (rule multiset_exchange)
  then show ?thesis using assms(4) change_frame(1,2) [OF assms(1,2)] by (simp add: conserved_def)
qed

lemma card_free_sub:
  assumes "\<forall>w. worker_ok p w" "finite (all_workers p)"
  shows "free_workers p \<subseteq> all_workers p" "finite (free_workers p)"
    "card (free_workers p) = card (all_workers p) \<longleftrightarrow> free_workers p = all_workers p"
proof -
  show "free_workers p \<subseteq> all_workers p" using assms(1) free_sub by blast
  then show "finite (free_workers p)" "card (free_workers p) = card (all_workers p) \<longleftrightarrow> free_workers p = all_workers p"
    using assms(2) card_subset_eq [of "all_workers p" "free_workers p"] by (auto intro: finite_subset)
qed

lemma change_client_ok:
  assumes "change f w p q" "\<forall>v. worker_ok p v" "finite (all_workers p)" "client_ok p"
  shows "client_ok q"
proof -
  have q: "\<forall>v. worker_ok q v" using change_worker_ok [OF assms(1)] assms(2) by blast
  have fq: "finite (all_workers q)" using change_frame(8) [OF assms(1)] assms(2,3) by auto
  note c = card_free_sub(3) [OF assms(2,3)] card_free_sub(3) [OF q fq]
  show ?thesis using assms(1) assms(4) c assms(2)
    by (cases) (auto simp: client_ok_def all_idle_def pool_defs worker_ok_def split: client.splits if_splits)
qed

lemma change_exited:
  assumes "change f w p q" "\<forall>v. worker_ok p v" "\<forall>v \<in> set (exit_workers p). stage p v = Exited"
  shows "\<forall>v \<in> set (exit_workers q). stage q v = Exited"
proof
  fix v assume v: "v \<in> set (exit_workers q)"
  note fr = change_frame [OF assms(1) assms(2) [rule_format]]
  have w: "stage p w \<noteq> Exited" using assms(2) fr(9) by (auto simp: worker_ok_def)
  then have "v = w \<Longrightarrow> v \<notin> set (exit_workers p)" using assms(3) by auto
  then show "stage q v = Exited" using v fr(12) [of v] fr(14) assms(3) by (cases "v = w") auto
qed

lemma change_pool_inv:
  assumes "change f w p q" "pool_inv f m p"
  shows "pool_inv f m q"
proof -
  have p: "\<forall>v. worker_ok p v" "finite (all_workers p)" "conserved f p" "client_ok p" "\<not> failed p"
      "\<forall>v \<in> set (exit_workers p). stage p v = Exited" "int (card (all_workers p)) \<le> m"
      "max_workers p \<ge> 0 \<longrightarrow> max_workers p = m"
    using assms(2) by (auto simp: pool_inv_def)
  note fr = change_frame [OF assms(1) p(1) [rule_format]]
  have q: "\<forall>v. worker_ok q v" using change_worker_ok [OF assms(1)] p(1) by blast
  have sub: "all_workers q \<subseteq> all_workers p" using fr(8) by blast
  have "int (card (all_workers q)) \<le> m" using card_mono [OF p(2) sub] p(7) by simp
  moreover have "max_workers q \<ge> 0 \<longrightarrow> pending_work q \<noteq> [] \<longrightarrow> all_workers q \<noteq> {}"
    using fr(15) q [unfolded worker_ok_def, rule_format, of w] by auto
  moreover have "conserved f q" using change_conserved [OF assms(1) p(1) [rule_format] p(2,3)] .
  moreover have "client_ok q" using change_client_ok [OF assms(1) p(1,2,4)] .
  moreover have "finite (all_workers q)" using finite_subset [OF sub p(2)] .
  ultimately show ?thesis
    using q p(5,8) fr(5,6) change_exited [OF assms(1) p(1,6)] unfolding pool_inv_def by simp
qed

section \<open>The client's calls keep the invariant\<close>

text \<open>
  While \<^verbatim>\<open>addWork\<close> runs, a worker may sleep although there is pending work; the rest of \<open>worker_ok\<close> is kept, and the loop
  only adds workers.
\<close>

definition growing :: "('w \<Rightarrow> 'w) \<Rightarrow> int \<Rightarrow> 'w pool \<Rightarrow> 'w pool \<Rightarrow> bool" where
  "growing f m p0 p \<longleftrightarrow> (\<forall>w. worker_ok (p\<lparr>pending_work := []\<rparr>) w) \<and> finite (all_workers p) \<and>
     int (card (all_workers p)) \<le> m \<and> max_workers p = m \<and> in_flight f p = in_flight f p0 \<and>
     pending_work p = pending_work p0 \<and> submitted p = submitted p0 \<and> result_msg p = result_msg p0 \<and>
     returned p = returned p0 \<and> client p = client p0 \<and> is_waiting p = is_waiting p0 \<and> failed p = failed p0 \<and>
     all_workers p0 \<subseteq> all_workers p \<and> free_workers p0 \<subseteq> free_workers p \<and>
     (\<forall>w \<in> set (exit_workers p). stage p w = Exited) \<and>
     (\<forall>w. stage p w = Waiting \<or> stage p w = Check3 \<longrightarrow> stage p0 w = stage p w \<and> mail p0 w = mail p w)"

definition grow :: "'w pool \<Rightarrow> 'w pool" where
  "grow p = (let worker = next_worker p; p1 = createWorkerThread p in
     p1\<lparr>all_workers := insert worker (all_workers p1), free_workers := insert worker (free_workers p1), exit_workers := []\<rparr>)"

lemma create_loop_grow: "create_loop (Suc f) p = (if create_guard p then create_loop f (grow p) else p)"
  by (simp add: grow_def Let_def)

lemma worker_ok_fresh: "worker_ok p w \<Longrightarrow> next_worker p \<le> w \<Longrightarrow> w \<notin> all_workers p \<and> w \<notin> free_workers p \<and> stage p w = Exited"
  using free_sub by (fastforce simp: worker_ok_def)

lemma grow_growing:
  assumes "growing f m p0 p" "create_guard p" "m < 2 ^ 31"
  shows "growing f m p0 (grow p)"
proof -
  let ?n = "next_worker p"
  have ok: "worker_ok (p\<lparr>pending_work := []\<rparr>) w" for w using assms(1) by (simp add: growing_def)
  have fin: "finite (all_workers p)" "max_workers p = m" "int (card (all_workers p)) \<le> m" using assms(1) by (auto simp: growing_def)
  have fresh: "?n \<notin> all_workers p" "?n \<notin> free_workers p" "stage p ?n = Exited" using worker_ok_fresh [OF ok, of ?n] by auto
  have card: "int (card (all_workers (grow p))) \<le> m"
  proof -
    have "0 \<le> m" using fin(3) by linarith
    then have "unat (word_of_int m :: u32) = nat m"
      using assms(3) by (simp add: unsigned_of_int take_bit_int_eq_self)
    then have "card (all_workers p) < nat m" using assms(2) fin(2) by (simp add: create_guard_def)
    then show ?thesis using fresh fin(1) by (simp add: grow_def createWorkerThread_def Let_def)
  qed
  have ok': "worker_ok ((grow p)\<lparr>pending_work := []\<rparr>) w" for w
    using ok [of w] fresh by (cases "w = ?n")
      (auto simp: worker_ok_def grow_def createWorkerThread_def Let_def mail_def new_thread_def split: if_splits)
  have flight: "in_flight f (grow p) = in_flight f p"
  proof -
    have "in_flight f (grow p) = (\<Sum>w\<in>all_workers p. carried f (stage (grow p) w) (mail (grow p) w))"
      using fresh fin(1) by (simp add: in_flight_def grow_def createWorkerThread_def Let_def mail_def new_thread_def)
    also have "\<dots> = in_flight f p" unfolding in_flight_def
      by (rule sum.cong) (use fresh in \<open>auto simp: grow_def createWorkerThread_def Let_def mail_def\<close>)
    finally show ?thesis .
  qed
  show ?thesis using assms(1) card ok' flight unfolding growing_def
    by (auto simp: grow_def createWorkerThread_def Let_def mail_def)
qed

lemma create_loop_growing:
  "growing f m p0 p \<Longrightarrow> m < 2 ^ 31 \<Longrightarrow> growing f m p0 (create_loop n p)"
proof (induction n arbitrary: p)
  case (Suc n)
  then show ?case using grow_growing [OF Suc.prems(1)] unfolding create_loop_grow by simp
qed simp

lemma growing_free: "growing f m p0 p \<Longrightarrow> free_workers p \<subseteq> all_workers p \<and> finite (free_workers p)"
  using card_free_sub(1,2) [of "p\<lparr>pending_work := []\<rparr>"] by (simp add: growing_def)

text \<open>The bound of the loop is enough: when it is used up, the condition of the loop is false.\<close>

lemma create_loop_done:
  "growing f m p0 p \<Longrightarrow> m < 2 ^ 31 \<Longrightarrow> length (pending_work p) \<le> n + card (free_workers p) \<Longrightarrow>
   \<not> create_guard (create_loop n p)"
proof (induction n arbitrary: p)
  case 0
  then show ?case by (simp add: create_guard_def)
next
  case (Suc n)
  show ?case
  proof (cases "create_guard p")
    case True
    have "worker_ok (p\<lparr>pending_work := []\<rparr>) (next_worker p)" using Suc.prems(1) by (simp add: growing_def)
    then have "next_worker p \<notin> free_workers p" using worker_ok_fresh by fastforce
    then have "card (free_workers (grow p)) = Suc (card (free_workers p))" "pending_work (grow p) = pending_work p"
      using growing_free [OF Suc.prems(1)] by (simp_all add: grow_def createWorkerThread_def Let_def)
    then show ?thesis using Suc.IH [OF grow_growing [OF Suc.prems(1) True Suc.prems(2)] Suc.prems(2)] Suc.prems(3) True
      unfolding create_loop_grow by simp
  qed (simp add: create_loop_grow del: create_loop.simps)
qed

definition submit :: "'w \<Rightarrow> 'w pool \<Rightarrow> 'w pool" where
  "submit x p = p\<lparr>pending_work := pending_work p @ [x], submitted := submitted p @ [x]\<rparr>"

lemma submit_growing:
  assumes "pool_inv f m p" "max_workers p \<ge> 0"
  shows "growing f m (submit x p) (submit x p)"
proof -
  have "worker_ok ((submit x p)\<lparr>pending_work := []\<rparr>) w" for w
    using assms(1) by (auto simp: pool_inv_def worker_ok_def submit_def mail_def split: if_splits)
  then show ?thesis using assms by (auto simp: growing_def pool_inv_def submit_def)
qed

text \<open>After the loop there is a worker, and either none sleeps idly or the loop was not entered.\<close>

lemma queue_work_growing:
  fixes x :: 'w
  assumes "pool_inv f m p" "client p = Idle" "1 \<le> m" "m < 2 ^ 31"
  defines "q \<equiv> queue_work x p"
  shows "growing f m (submit x p) q" "all_workers q \<noteq> {}" "\<not> create_guard q"
    "\<forall>w. stage q w = Waiting \<or> stage q w = Check3 \<longrightarrow> mail q w = [] \<longrightarrow> pending_work q = [x] \<and> w \<in> free_workers q"
proof -
  have mx: "max_workers p \<ge> 0" using assms(1,2) by (auto simp: pool_inv_def client_ok_def)
  have q: "q = create_loop (length (pending_work (submit x p))) (submit x p)"
    by (simp add: q_def queue_work_def submit_def Let_def)
  note g = submit_growing [OF assms(1) mx, of x]
  show gq: "growing f m (submit x p) q" unfolding q by (rule create_loop_growing [OF g assms(4)])
  show d: "\<not> create_guard q" unfolding q by (rule create_loop_done [OF g assms(4)]) simp
  have "length (pending_work q) = Suc (length (pending_work p))" using gq by (simp add: growing_def submit_def)
  moreover have "unat (word_of_int m :: u32) = nat m" using assms(3,4) by (simp add: unsigned_of_int take_bit_int_eq_self)
  ultimately show "all_workers q \<noteq> {}" using d growing_free [OF gq] gq assms(3)
    by (auto simp: create_guard_def growing_def)
  show "\<forall>w. stage q w = Waiting \<or> stage q w = Check3 \<longrightarrow> mail q w = [] \<longrightarrow> pending_work q = [x] \<and> w \<in> free_workers q"
  proof (intro allI impI)
    fix w assume w: "stage q w = Waiting \<or> stage q w = Check3" "mail q w = []"
    then have "stage p w = stage q w" "mail p w = []" using gq by (auto simp: growing_def submit_def mail_def)
    moreover have "worker_ok p w" using assms(1) by (simp add: pool_inv_def)
    ultimately have "pending_work p = []" using w mx by (auto simp: worker_ok_def)
    moreover have "worker_ok (q\<lparr>pending_work := []\<rparr>) w" using gq by (simp add: growing_def)
    then have "w \<in> free_workers q" using w by (auto simp: worker_ok_def mail_def)
    ultimately show "pending_work q = [x] \<and> w \<in> free_workers q" using gq by (simp add: growing_def submit_def)
  qed
qed

lemma mail_pending [simp]: "mail (p\<lparr>pending_work := xs\<rparr>) w = mail p w"
  by (simp add: mail_def)

lemma submit_conserved: "conserved f p \<Longrightarrow> growing f m (submit x p) q \<Longrightarrow> conserved f q"
  by (simp add: conserved_def growing_def submit_def in_flight_def mail_def)

lemma hand_over_worker_ok:
  assumes "\<forall>v. worker_ok (q\<lparr>pending_work := []\<rparr>) v" "w \<in> free_workers q" "max_workers q \<ge> 0" "pending_work q \<noteq> []"
    and sleep: "\<forall>v. stage q v = Waiting \<or> stage q v = Check3 \<longrightarrow> mail q v = [] \<longrightarrow> tl (pending_work q) = []"
  shows "worker_ok (hand_over w q) v" "mail q w = []" "idle (stage q w)"
    "mail (hand_over w q) v = (if v = w then [Some (hd (pending_work q))] else mail q v)"
proof -
  have w: "worker_ok (q\<lparr>pending_work := []\<rparr>) w" using assms(1) by blast
  then show m: "mail q w = []" and i: "idle (stage q w)" using assms(2,3) by (auto simp: worker_ok_def split: if_splits)
  have add: "add_msg (inbox q w) = []" using m by (simp add: mail_def)
  then show ml: "mail (hand_over w q) v = (if v = w then [Some (hd (pending_work q))] else mail q v)"
    by (auto simp: hand_over_def send_to_def mail_def addMessage_lr_def push_message_def WorkMessage_def Let_def)
  show "worker_ok (hand_over w q) v"
  proof (cases "v = w")
    case True
    then show ?thesis using w i add assms(2) ml unfolding True
      by (auto simp: worker_ok_def hand_over_def send_to_def addMessage_lr_def push_message_def WorkMessage_def Let_def
          is_answer_def NOCALL_def ANSWERED_def mail_def)
  next
    case False
    then show ?thesis using assms(1) [rule_format, of v] sleep [rule_format, of v] ml
      by (auto simp: worker_ok_def hand_over_def send_to_def split: if_splits)
  qed
qed

lemma hand_over_conserved:
  assumes "conserved f q" "w \<in> all_workers q" "finite (all_workers q)" "mail q w = []" "idle (stage q w)"
    "pending_work q \<noteq> []" "\<And>v. mail (hand_over w q) v = (if v = w then [Some (hd (pending_work q))] else mail q v)"
  shows "conserved f (hand_over w q)"
proof -
  let ?r = "hand_over w q"
  have r: "all_workers ?r = all_workers q" "stage ?r = stage q" by (simp_all add: hand_over_def send_to_def)
  have "in_flight f ?r = carried f (stage q w) [Some (hd (pending_work q))] +
      (\<Sum>v\<in>all_workers q - {w}. carried f (stage q v) (mail q v))"
    unfolding in_flight_def r sum.remove [OF assms(3,2)] assms(7) by (auto intro: arg_cong2 sum.cong)
  moreover have "in_flight f q = carried f (stage q w) [] + (\<Sum>v\<in>all_workers q - {w}. carried f (stage q v) (mail q v))"
    unfolding in_flight_def sum.remove [OF assms(3,2)] assms(4) by simp
  moreover obtain x xs where "pending_work q = x # xs" using assms(6) by (cases "pending_work q") auto
  ultimately show ?thesis using assms(1) by (simp add: conserved_def hand_over_def send_to_def)
qed

lemma addWork_inv:
  assumes "pool_inv f m p" "client p = Idle" "1 \<le> m" "m < 2 ^ 31"
    and w: "w \<in> free_workers (queue_work x p) \<or> free_workers (queue_work x p) = {}"
  shows "pool_inv f m (addWork w x p)"
proof -
  define q where "q = queue_work x p"
  note g = queue_work_growing [OF assms(1-4), of x, folded q_def]
  have q: "\<forall>v. worker_ok (q\<lparr>pending_work := []\<rparr>) v" "finite (all_workers q)" "max_workers q = m" "client q = Idle"
    "\<forall>v \<in> set (exit_workers q). stage q v = Exited" "int (card (all_workers q)) \<le> m" "pending_work q \<noteq> []"
    "\<not> failed q" "\<not> is_waiting q"
    using g(1) assms(1,2) by (auto simp: growing_def submit_def pool_inv_def client_ok_def)
  have cons: "conserved f q" using submit_conserved [OF _ g(1)] assms(1) by (simp add: pool_inv_def)
  note fr = growing_free [OF g(1)]
  show ?thesis
  proof (cases "free_workers q = {}")
    case True
    have "worker_ok q v" for v using q(1) [rule_format, of v] g(4) [rule_format, of v] True
      by (auto simp: worker_ok_def split: if_splits)
    then have "\<forall>v. worker_ok q v" by blast
    moreover have "addWork w x p = q" using True by (simp add: addWork_def q_def Let_def)
    ultimately show ?thesis using q cons g(2) assms(3) unfolding pool_inv_def client_ok_def by simp
  next
    case False
    then have wf: "w \<in> free_workers q" using w by (simp add: q_def)
    have r: "addWork w x p = hand_over w q" using False fr by (simp add: addWork_def q_def [symmetric] Let_def card_gt_0_iff)
    have "max_workers q \<ge> 0" using q(3) assms(3) by simp
    then have ok: "worker_ok (hand_over w q) v" "mail q w = []" "idle (stage q w)"
        "mail (hand_over w q) v = (if v = w then [Some (hd (pending_work q))] else mail q v)" for v
      using hand_over_worker_ok [OF q(1) wf _ q(7)] g(4) by simp_all
    have "conserved f (hand_over w q)"
      by (rule hand_over_conserved [OF cons _ q(2) ok(2,3) q(7) ok(4)]) (use wf fr in auto)
    moreover have "\<forall>v. worker_ok (hand_over w q) v" using ok(1) by blast
    ultimately show ?thesis using q g(2) assms(3) unfolding pool_inv_def client_ok_def r
      by (simp add: hand_over_def send_to_def)
  qed
qed

text \<open>Changes that do not touch the workers' part of the state.\<close>

lemma pool_inv_frame:
  assumes "pool_inv f m p" "inbox q = inbox p" "stage q = stage p" "all_workers q = all_workers p"
    "free_workers q = free_workers p" "next_worker q = next_worker p" "pending_work q = pending_work p"
    "max_workers q = max_workers p" "failed q = failed p" "submitted q = submitted p"
    "set (exit_workers q) \<subseteq> set (exit_workers p)"
    "mset (result_msg q) + mset (returned q) = mset (result_msg p) + mset (returned p)" "client_ok q"
  shows "pool_inv f m q"
proof -
  have ml: "mail q w = mail p w" for w using assms(2) by (simp add: mail_def)
  have "worker_ok q w = worker_ok p w" for w unfolding worker_ok_def ml by (simp add: assms)
  then have "\<forall>w. worker_ok q w" using assms(1) by (simp add: pool_inv_def)
  moreover have "conserved f q"
    using assms(1) assms(12) by (simp add: pool_inv_def conserved_def in_flight_def ml assms(2-10) add.assoc)
  ultimately show ?thesis using assms by (auto simp: pool_inv_def)
qed

lemma pop_result_mset:
  "result_msg p \<noteq> [] \<Longrightarrow> mset (result_msg (pop_result p)) + mset (returned (pop_result p)) =
   mset (result_msg p) + mset (returned p)"
  by (cases "result_msg p") (simp_all add: pop_result_def)

lemma waitWorkResult_iter_inv:
  assumes "pool_inv f m p" "max_workers p \<ge> 0" "\<not> is_waiting p"
  shows "pool_inv f m (snd (waitWorkResult_iter p))"
proof -
  consider "result_msg p \<noteq> []" | "result_msg p = []" "all_idle p" | "result_msg p = []" "\<not> all_idle p" by blast
  then show ?thesis
  proof cases
    case 1
    show ?thesis
      by (rule pool_inv_frame [OF assms(1)])
        (use 1 assms pop_result_mset [of p] in \<open>simp_all add: waitWorkResult_iter_def pop_result_def client_ok_def\<close>)
  next
    case 2
    show ?thesis
      by (rule pool_inv_frame [OF assms(1)])
        (use 2 assms in \<open>simp_all add: waitWorkResult_iter_def all_idle_def client_ok_def\<close>)
  next
    case 3
    then have w: "snd (waitWorkResult_iter p) = p\<lparr>is_waiting := True, signalled := False, client := Blocked\<rparr>"
      by (auto simp: waitWorkResult_iter_def all_idle_def)
    show ?thesis unfolding w
      by (rule pool_inv_frame [OF assms(1)]) (use 3 assms in \<open>simp_all add: all_idle_def client_ok_def\<close>)
  qed
qed

lemma destroy_check_inv:
  assumes "pool_inv f m p" "max_workers p < 0" "is_waiting p"
  shows "pool_inv f m (destroy_check p)"
proof -
  have "finite (all_workers p)" using assms(1) by (simp add: pool_inv_def)
  then show ?thesis
    by (intro pool_inv_frame [OF assms(1)]) (use assms in \<open>auto simp: destroy_check_def client_ok_def card_gt_0_iff\<close>)
qed

lemma destroy_pool_inv:
  assumes "pool_inv f m p" "client p = Idle"
  shows "pool_inv f m (destroy_pool p)"
proof -
  define q where "q = notify_free (p\<lparr>max_workers := -1, is_waiting := True, client := Destroying, signalled := True\<rparr>)"
  have mx: "max_workers p \<ge> 0" using assms by (auto simp: pool_inv_def client_ok_def)
  have ok: "worker_ok q w \<and> carried f (stage q w) (mail q w) = carried f (stage p w) (mail p w)" for w
  proof -
    have w: "worker_ok p w" using assms(1) by (simp add: pool_inv_def)
    show ?thesis
    proof (cases "w \<in> free_workers p")
      case True
      then have "idle (stage p w)" "add_msg (inbox p w) = []"
        using w mx by (auto simp: worker_ok_def mail_def split: if_splits)
      then show ?thesis using w True
        by (auto simp: worker_ok_def q_def notify_free_def mail_def addMessage_lr_def push_message_def Let_def
            WorkMessage_def is_answer_def NOCALL_def ANSWERED_def)
    next
      case False
      then show ?thesis using w mx by (auto simp: worker_ok_def q_def notify_free_def mail_def split: if_splits)
    qed
  qed
  have g: "all_workers q = all_workers p" "submitted q = submitted p" "pending_work q = pending_work p"
      "result_msg q = result_msg p" "returned q = returned p" "max_workers q < 0" "is_waiting q" "failed q = failed p"
      "exit_workers q = exit_workers p" "stage q = stage p" "client q = Destroying" "signalled q"
    by (simp_all add: q_def notify_free_def)
  have "in_flight f q = in_flight f p"
    unfolding in_flight_def g(1) by (rule sum.cong) (use ok in auto)
  then have "conserved f q" using assms(1) by (simp add: pool_inv_def conserved_def g)
  moreover have "client_ok q" by (simp add: client_ok_def g)
  moreover have "\<forall>w. worker_ok q w" using ok by blast
  ultimately have "pool_inv f m q" using assms(1) g unfolding pool_inv_def by auto
  then have "pool_inv f m (destroy_check q)" by (rule destroy_check_inv) (simp_all add: g)
  moreover have "destroy_pool p = (if card (all_workers p) > 0 then destroy_check q
      else (destroy_check q)\<lparr>signalled := signalled p\<rparr>)"
    by (simp add: destroy_pool_def q_def destroy_check_def notify_free_def cong: if_cong)
  moreover have "pool_inv f m ((destroy_check q)\<lparr>signalled := signalled p\<rparr>)" if "\<not> card (all_workers p) > 0"
    by (rule pool_inv_frame [OF \<open>pool_inv f m (destroy_check q)\<close>])
      (use that g(1) assms(1) in \<open>simp_all add: destroy_check_def client_ok_def pool_inv_def g\<close>)
  ultimately show ?thesis by simp
qed

lemma client_step_inv:
  assumes "client_step p q" "pool_inv f m p" "1 \<le> m" "m < 2 ^ 31"
  shows "pool_inv f m q"
proof -
  have c: "client_ok p" using assms(2) by (simp add: pool_inv_def)
  from assms(1) show ?thesis
  proof cases
    case (add w x)
    then show ?thesis using addWork_inv [OF assms(2) _ assms(3,4)] by blast
  next
    case check
    show ?thesis unfolding check(1)
      by (rule pool_inv_frame [OF assms(2)]) (use check(2) c pop_result_mset [of p] in
        \<open>auto simp: checkWorkResult_def pop_result_def client_ok_def\<close>)
  next
    case wait
    then show ?thesis using waitWorkResult_iter_inv [OF assms(2)] c by (simp add: client_ok_def)
  next
    case resume
    let ?p = "p\<lparr>is_waiting := False, signalled := False, client := Idle\<rparr>"
    have "pool_inv f m ?p"
      by (rule pool_inv_frame [OF assms(2)]) (use resume(2) c in \<open>auto simp: client_ok_def\<close>)
    then have "pool_inv f m (snd (waitWorkResult_iter ?p))"
      by (rule waitWorkResult_iter_inv) (use resume(2) c in \<open>auto simp: client_ok_def\<close>)
    moreover have "snd (waitWorkResult_iter ?p) = q"
      using resume(1) by (simp add: waitWorkResult_resume_def waitWorkResult_iter_def pop_result_def)
    ultimately show ?thesis by simp
  next
    case destroy
    then show ?thesis using destroy_pool_inv [OF assms(2)] by simp
  next
    case rejoin
    then have p: "max_workers p < 0" "is_waiting p" "finite (all_workers p)"
      using c assms(2) by (auto simp: client_ok_def pool_inv_def)
    show ?thesis unfolding rejoin(1)
      by (rule pool_inv_frame [OF destroy_check_inv [OF assms(2) p(1,2)]])
        (use p in \<open>auto simp: destroy_resume_def destroy_check_def client_ok_def card_gt_0_iff\<close>)
  qed
qed

section \<open>Reachable states\<close>

lemma start_pool_inv:
  "1 \<le> sint max_count \<Longrightarrow> pool_inv f (sint max_count) (start_pool max_count timeout_ns)"
  by (simp add: pool_inv_def start_pool_def setMaxWorkers_def setWorkerTimeoutNs_def WorkerPoolManager_def
      worker_ok_def mail_def new_thread_def conserved_def in_flight_def client_ok_def)

lemma pool_step_inv:
  "pool_step f p q \<Longrightarrow> pool_inv f m p \<Longrightarrow> 1 \<le> m \<Longrightarrow> m < 2 ^ 31 \<Longrightarrow> pool_inv f m q"
  unfolding pool_step_def using client_step_inv change_pool_inv [OF worker_step_change]
  by (metis pool_inv_def)

lemma sint_u32_less: "sint (x :: u32) < 2 ^ 31"
  using sint_lt [of x] by simp

lemma reachable_inv:
  assumes "(pool_step f)\<^sup>*\<^sup>* (start_pool max_count timeout_ns) p" "1 \<le> sint max_count"
  shows "pool_inv f (sint max_count) p"
  using assms(1)
proof (induction rule: rtranclp_induct)
  case base
  then show ?case using start_pool_inv assms(2) by blast
next
  case (step p q)
  then show ?case using pool_step_inv assms(2) sint_u32_less by blast
qed

lemma create_loop_timeout: "worker_timeout_ns (create_loop n p) = worker_timeout_ns p"
  by (induction n p rule: create_loop.induct) (simp_all add: Let_def createWorkerThread_def)

lemma addWork_timeout: "worker_timeout_ns (addWork w x p) = worker_timeout_ns p"
  by (simp add: addWork_def Let_def queue_work_def create_loop_timeout hand_over_def send_to_def
      del: create_loop.simps)

lemma pool_step_timeout:
  assumes "pool_step f p q" "pool_inv f m p"
  shows "worker_timeout_ns q = worker_timeout_ns p"
proof -
  have "worker_timeout_ns q = worker_timeout_ns p" if "client_step p q"
    using that by cases (simp_all add: addWork_timeout checkWorkResult_def pop_result_def waitWorkResult_iter_def waitWorkResult_resume_def destroy_pool_def
      destroy_check_def destroy_resume_def notify_free_def)
  then show ?thesis using assms change_frame(7) [OF worker_step_change]
    by (metis pool_inv_def pool_step_def)
qed

lemma reachable_timeout:
  assumes "(pool_step f)\<^sup>*\<^sup>* (start_pool max_count timeout_ns) p" "1 \<le> sint max_count"
  shows "worker_timeout_ns p = timeout_ns"
  using assms(1)
proof (induction rule: rtranclp_induct)
  case base
  then show ?case by (simp add: start_pool_def setMaxWorkers_def setWorkerTimeoutNs_def)
next
  case (step p q)
  then show ?case using pool_step_timeout reachable_inv [OF step(1) assms(2)] by metis
qed

text \<open>\<open>progress\<close> is a part of \<open>pool_step\<close>.\<close>

lemma progress_pool_step: "progress f p q \<Longrightarrow> pool_step f p q"
  by (induction rule: progress.induct) (auto simp: pool_step_def intro: client_step.intros)

lemma progress_reachable:
  "(progress f)\<^sup>*\<^sup>* p q \<Longrightarrow> (pool_step f)\<^sup>*\<^sup>* s p \<Longrightarrow> (pool_step f)\<^sup>*\<^sup>* s q"
  by (induction rule: rtranclp_induct) (auto dest: progress_pool_step intro: rtranclp.rtrancl_into_rtrancl)

lemma idle_carries_nothing:
  assumes "pool_inv f m p" "all_idle p"
  shows "in_flight f p = {#}"
proof -
  have ok: "\<forall>w. worker_ok p w" "finite (all_workers p)" using assms(1) by (auto simp: pool_inv_def)
  have eq: "free_workers p = all_workers p" using card_free_sub(3) [OF ok] assms(2) by (simp add: all_idle_def)
  have z: "carried f (stage p w) (mail p w) = {#}" if "w \<in> all_workers p" for w
  proof -
    have w: "worker_ok p w" using ok(1) by blast
    have free: "w \<in> free_workers p" using eq that by blast
    show ?thesis
    proof (cases "idle (stage p w)")
      case True
      then have "mail p w = [] \<or> mail p w = [None]" using w free by (auto simp: worker_ok_def)
      then show ?thesis using True by (cases "stage p w") auto
    next
      case False
      then have "mail p w = []" "stage p w = Out None" using w free by (auto simp: worker_ok_def)
      then show ?thesis by simp
    qed
  qed
  show ?thesis unfolding in_flight_def by (rule sum.neutral) (use z in blast)
qed

section \<open>Progress ends\<close>

fun rank :: "'w stage \<Rightarrow> nat" where
  "rank (Out (Some x)) = 7" | "rank (Running x) = 6" | "rank (Finished y) = 5" | "rank Check1 = 4"
| "rank Check2 = 3" | "rank Waiting = 2" | "rank Check3 = 1" | "rank (Out None) = 1" | "rank Exited = 0"

fun post :: "'w option list \<Rightarrow> nat" where
  "post [] = 0" | "post (Some x # ms) = 8 + post ms" | "post (None # ms) = 1 + post ms"

definition effort :: "'w pool \<Rightarrow> nat" where
  "effort p = 2 * (8 * length (pending_work p) + (\<Sum>w\<in>all_workers p. rank (stage p w) + post (mail p w))) +
     (if signalled p then 1 else 0)"

lemma mail_after:
  "mail (goto_stage w st p) v = mail p v" "mail (exit_worker w p) v = mail p v" "mail (addResult w y p) v = mail p v"
  "mail (emptied w p) v = (if v = w then [] else mail p v)"
  "mail (p\<lparr>pending_work := xs, free_workers := fs\<rparr>) v = mail p v"
  by (auto simp: pool_defs mail_def)

lemma stage_after:
  "stage (goto_stage w st p) v = (if v = w then st else stage p v)"
  "stage (exit_worker w p) v = (if v = w then Exited else stage p v)"
  by (auto simp: pool_defs)

lemma pending_after:
  "pending_work (goto_stage w st p) = pending_work p" "pending_work (exit_worker w p) = pending_work p"
  "pending_work (addResult w y p) = pending_work p" "pending_work (emptied w p) = pending_work p"
  by (auto simp: pool_defs)

lemma change_effort:
  assumes "change f w p q" "worker_ok p w" "finite (all_workers p)"
  shows "effort q < effort p"
proof -
  let ?s = "\<lambda>p. \<Sum>v\<in>all_workers p. rank (stage p v) + post (mail p v)"
  have "?s q + (rank (stage p w) + post (mail p w)) = ?s p + (rank (stage q w) + post (mail q w))"
    using change_sum [OF assms, of "\<lambda>st ml. rank st + post ml"] by simp
  moreover have "8 * length (pending_work q) + (rank (stage q w) + post (mail q w)) <
      8 * length (pending_work p) + (rank (stage p w) + post (mail p w))"
    using assms(1)
  proof cases
    case (receive wk)
    then show ?thesis by (cases "stage p w"; cases wk) (simp_all add: mail_after stage_after pending_after)
  qed (auto simp: mail_after stage_after pending_after)
  ultimately have "8 * length (pending_work q) + ?s q < 8 * length (pending_work p) + ?s p" by linarith
  then show ?thesis unfolding effort_def by (auto split: if_splits)
qed

lemma progress_effort:
  assumes "progress f p q" "pool_inv f m p"
  shows "effort q < effort p"
  using assms(1)
proof cases
  case (worker w)
  then show ?thesis using change_effort [OF worker_step_change] assms(2) unfolding pool_inv_def by blast
next
  case wake
  then show ?thesis
    by (simp add: effort_def waitWorkResult_resume_def waitWorkResult_iter_def pop_result_def mail_def)
next
  case wake_destroy
  then show ?thesis by (simp add: effort_def destroy_resume_def destroy_check_def mail_def)
qed

text \<open>Every worker that has not exited can make a step, if the wait for a message is bounded.\<close>

lemma worker_not_stuck:
  assumes "stage p w \<noteq> Exited" "worker_timeout_ns p \<ge> 0"
  shows "\<exists>q. worker_step f w p q"
proof (cases "stage p w")
  case (Out x)
  then show ?thesis using worker_step.work [of p w _ f] worker_step.quit [of p w f] by (cases x) blast+
next
  case Waiting
  then show ?thesis using worker_step.timeout [of p w f] assms(2) by blast
qed (use assms(1) worker_step.first [of p w f] worker_step.locked [of p w f] worker_step.final [of p w f]
  worker_step.run [of p w _ f] worker_step.result [of p w _ f] in blast)+

lemma terminal_state:
  assumes "pool_inv f m p" "worker_timeout_ns p \<ge> 0" "\<not> (\<exists>q. progress f p q)"
  shows "all_workers p = {}" "client p = Idle \<or> client p = Destroyed"
    "client p = Idle \<Longrightarrow> pending_work p = [] \<and> in_flight f p = {#}"
proof -
  have "stage p w = Exited" for w using worker_not_stuck [OF _ assms(2)] assms(3) progress.worker by metis
  moreover have ok: "\<forall>w. worker_ok p w" "finite (all_workers p)" using assms(1) by (simp_all add: pool_inv_def)
  ultimately have "w \<notin> all_workers p" for w unfolding worker_ok_def by blast
  then show all: "all_workers p = {}" by blast
  have free: "free_workers p = {}" using card_free_sub(1) [OF ok] all by simp
  have pend: "max_workers p \<ge> 0 \<Longrightarrow> pending_work p = []" using assms(1) all unfolding pool_inv_def by blast
  have c: "client_ok p" using assms(1) by (simp add: pool_inv_def)
  have "client p \<noteq> Destroying" using c all assms(3) progress.wake_destroy [of p f] by (auto simp: client_ok_def)
  moreover have "client p \<noteq> Blocked"
    using c all free pend assms(3) progress.wake [of p f] by (auto simp: client_ok_def all_idle_def)
  ultimately show "client p = Idle \<or> client p = Destroyed" by (cases "client p") auto
  show "client p = Idle \<Longrightarrow> pending_work p = [] \<and> in_flight f p = {#}"
    using pend c all by (auto simp: client_ok_def in_flight_def)
qed

section \<open>Properties\<close>



text \<open>A client that submits one work to a pool of two workers and waits.\<close>

definition two_workers :: "nat pool" where
  "two_workers = start_pool 2 0"

definition one_work :: "nat pool" where
  "one_work = addWork 0 7 two_workers"

lemma one_work_reachable: "(pool_step Suc)\<^sup>*\<^sup>* (start_pool 2 0) one_work"
proof -
  have "client_step two_workers (addWork 0 7 two_workers)"
    by (rule client_step.add) (simp_all add: two_workers_def start_pool_def setMaxWorkers_def setWorkerTimeoutNs_def
      WorkerPoolManager_def queue_work_def create_guard_def createWorkerThread_def)
  then show ?thesis by (auto simp: one_work_def two_workers_def pool_step_def)
qed

lemma one_work_state:
  "submitted one_work = [7]" "all_workers one_work = {0}" "client one_work = Idle"
  "stage one_work 0 = Check1" "mail one_work 0 = [Some 7]"
  by (simp_all add: one_work_def two_workers_def start_pool_def setMaxWorkers_def setWorkerTimeoutNs_def
      WorkerPoolManager_def addWork_def queue_work_def create_guard_def createWorkerThread_def hand_over_def send_to_def
      mail_def addMessage_lr_def push_message_def WorkMessage_def new_thread_def)



end
