(* ===== verification/Drt_Sort.thy ===== *)
theory Drt_Sort
  imports Drt_Mem "HOL-Library.Multiset"
begin

text \<open>
  The sort of \<^verbatim>\<open>src/src/core/struct/Array.cxx\<close>: a quicksort inside the memory block of the array, with elements of
  \<^verbatim>\<open>tsize\<close> bytes and the exchange routine that \<^verbatim>\<open>Mem::getXchgFunc\<close> selects (\<open>Drt_Mem\<close>).  A pointer to an element is its number; it
  can be one below the first.  The comparison function returns a 32-bit \<^verbatim>\<open>int\<close>.  The proof is about the sequence of the elements,
  which the block is the concatenation of.
\<close>

section \<open>The code\<close>

type_synonym comparator = "byte list \<Rightarrow> byte list \<Rightarrow> u32"

definition el :: "nat \<Rightarrow> byte list \<Rightarrow> int \<Rightarrow> byte list result" where
  "el t m i = (if 0 \<le> i then mem_read m (nat i * t) t else Inl OutOfBounds)"

text \<open>The two scanning loops; \<open>f\<close> bounds the number of turns by the number of elements.\<close>

fun scan_up :: "nat \<Rightarrow> comparator \<Rightarrow> byte list \<Rightarrow> nat \<Rightarrow> byte list \<Rightarrow> int \<Rightarrow> int result" where
  "scan_up 0 cmp piv t m i = Inl Diverges"
| "scan_up (Suc f) cmp piv t m i = ebind (el t m i) (\<lambda>x.
     if sint (cmp x piv) < 0 then scan_up f cmp piv t m (i + 1) else Inr i)"

fun scan_down :: "nat \<Rightarrow> comparator \<Rightarrow> byte list \<Rightarrow> nat \<Rightarrow> byte list \<Rightarrow> int \<Rightarrow> int result" where
  "scan_down 0 cmp piv t m j = Inl Diverges"
| "scan_down (Suc f) cmp piv t m j = ebind (el t m j) (\<lambda>x.
     if sint (cmp piv x) < 0 then scan_down f cmp piv t m (j - 1) else Inr j)"

definition xchg_el :: "nat \<Rightarrow> byte list \<Rightarrow> int \<Rightarrow> int \<Rightarrow> byte list result" where
  "xchg_el t m i j = getXchgFunc (of_nat t) m (nat i * t) (nat j * t) (of_nat t)"

fun part_loop :: "nat \<Rightarrow> comparator \<Rightarrow> byte list \<Rightarrow> nat \<Rightarrow> byte list \<Rightarrow> int \<Rightarrow> int \<Rightarrow> (byte list \<times> int \<times> int) result" where
  "part_loop 0 cmp piv t m mi mj = Inl Diverges"
| "part_loop (Suc f) cmp piv t m mi mj =
     ebind (scan_up (Suc (length m)) cmp piv t m mi) (\<lambda>i.
     ebind (scan_down (Suc (length m)) cmp piv t m mj) (\<lambda>j.
     if i < j then
       ebind (xchg_el t m i j) (\<lambda>m1.
         if i + 1 \<le> j - 1 then part_loop f cmp piv t m1 (i + 1) (j - 1) else Inr (m1, i + 1, j - 1))
     else if i = j then Inr (m, i + 1, j - 1) else Inr (m, i, j)))"

fun sort_i :: "nat \<Rightarrow> comparator \<Rightarrow> nat \<Rightarrow> byte list \<Rightarrow> int \<Rightarrow> int \<Rightarrow> byte list result" where
  "sort_i 0 cmp t m b e = Inl Diverges"
| "sort_i (Suc f) cmp t m b e =
     ebind (el t m (b + (e - b) div 2)) (\<lambda>piv.
     ebind (part_loop (Suc (length m)) cmp piv t m b e) (\<lambda>(m1, mi, mj).
     ebind (if b < mj then sort_i f cmp t m1 b mj else Inr m1) (\<lambda>m2.
     if mi < e then sort_i f cmp t m2 mi e else Inr m2)))"

definition sort_block :: "comparator \<Rightarrow> nat \<Rightarrow> byte list \<Rightarrow> byte list result" where
  "sort_block cmp t m =
     (if length m \<le> t then Inr m else sort_i (Suc (length m)) cmp t m 0 (int (length m div t) - 1))"

definition rcmp :: "comparator \<Rightarrow> comparator" where
  "rcmp cmp x y = - cmp x y"

text \<open>\<open>el_cmp\<close> is the comparison of the array's element type, \<open>f\<close> the one of the caller.\<close>

definition sort_g :: "comparator \<Rightarrow> nat \<Rightarrow> byte list \<Rightarrow> byte list result" where
  "sort_g el_cmp tsize m = sort_block el_cmp tsize m"

definition sortF_g :: "nat \<Rightarrow> comparator \<Rightarrow> byte list \<Rightarrow> byte list result" where
  "sortF_g tsize f m = sort_block f tsize m"

definition sortD_g :: "nat \<Rightarrow> (byte list \<Rightarrow> byte list \<Rightarrow> 'p \<Rightarrow> u32) \<Rightarrow> 'p \<Rightarrow> byte list \<Rightarrow> byte list result" where
  "sortD_g tsize f pass m = sort_block (\<lambda>x y. f x y pass) tsize m"

definition rsort_g :: "comparator \<Rightarrow> nat \<Rightarrow> byte list \<Rightarrow> byte list result" where
  "rsort_g el_cmp tsize m = sort_block (rcmp el_cmp) tsize m"

definition rsortF_g :: "nat \<Rightarrow> comparator \<Rightarrow> byte list \<Rightarrow> byte list result" where
  "rsortF_g tsize f m = sort_block (rcmp f) tsize m"

definition rsortD_g :: "nat \<Rightarrow> (byte list \<Rightarrow> byte list \<Rightarrow> 'p \<Rightarrow> u32) \<Rightarrow> 'p \<Rightarrow> byte list \<Rightarrow> byte list result" where
  "rsortD_g tsize f pass m = sort_block (rcmp (\<lambda>x y. f x y pass)) tsize m"

section \<open>Elements of a block\<close>

definition block :: "nat \<Rightarrow> byte list list \<Rightarrow> bool" where
  "block t es \<longleftrightarrow> 0 < t \<and> t < 2 ^ 64 \<and> (\<forall>x \<in> set es. length x = t)"

definition at :: "byte list list \<Rightarrow> int \<Rightarrow> byte list" where
  "at es k = es ! nat k"

definition exchanged :: "byte list list \<Rightarrow> int \<Rightarrow> int \<Rightarrow> byte list list" where
  "exchanged es i j = es[nat i := at es j, nat j := at es i]"

lemma block_length: "block t es \<Longrightarrow> length (concat es) = length es * t"
  by (induction es) (auto simp: block_def)

lemma block_nth:
  "block t es \<Longrightarrow> k < length es \<Longrightarrow> o' < t \<Longrightarrow> concat es ! (k * t + o') = es ! k ! o'"
proof (induction es arbitrary: k)
  case (Cons x es)
  have x: "length x = t" "block t es" using Cons.prems(1) by (auto simp: block_def)
  show ?case
  proof (cases k)
    case 0
    then show ?thesis using x Cons.prems by (simp add: nth_append)
  next
    case (Suc k')
    then show ?thesis using x Cons.prems Cons.IH [of k'] by (simp add: nth_append algebra_simps)
  qed
qed simp

lemma block_read:
  assumes "block t es" "k < length es"
  shows "take t (drop (k * t) (concat es)) = es ! k"
proof (rule nth_equalityI)
  have "k * t + t \<le> length es * t" using assms(2) mult_le_mono1 [of "Suc k" "length es" t] by simp
  then show l: "length (take t (drop (k * t) (concat es))) = length (es ! k)"
    using assms block_length [OF assms(1)] by (simp add: block_def)
  fix i assume "i < length (take t (drop (k * t) (concat es)))"
  then have "i < t" "k * t \<le> length (concat es)" using l assms by (auto simp: block_def min_def split: if_splits)
  then show "take t (drop (k * t) (concat es)) ! i = es ! k ! i"
    using block_nth [OF assms, of i] l by (simp add: nth_drop)
qed

lemma el_block:
  assumes "block t es" "0 \<le> i" "i < int (length es)"
  shows "el t (concat es) i = Inr (at es i)"
proof -
  have k: "nat i < length es" using assms by simp
  then have "nat i * t + t \<le> length es * t" using mult_le_mono1 [of "Suc (nat i)" "length es" t] by simp
  then show ?thesis using assms block_read [OF assms(1) k] by (simp add: el_def mem_read_def block_length at_def)
qed

lemma block_exchanged: "block t es \<Longrightarrow> 0 \<le> i \<Longrightarrow> i < int (length es) \<Longrightarrow> 0 \<le> j \<Longrightarrow> j < int (length es) \<Longrightarrow> block t (exchanged es i j)"
  unfolding block_def exchanged_def at_def
  by (auto dest!: in_set_conv_nth [THEN iffD1] simp: nth_list_update split: if_splits)

lemma length_exchanged [simp]: "length (exchanged es i j) = length es"
  by (simp add: exchanged_def)

lemma at_exchanged:
  "0 \<le> i \<Longrightarrow> i < int (length es) \<Longrightarrow> 0 \<le> j \<Longrightarrow> j < int (length es) \<Longrightarrow> 0 \<le> k \<Longrightarrow> k < int (length es) \<Longrightarrow>
   at (exchanged es i j) k = (if k = j then at es i else if k = i then at es j else at es k)"
  by (auto simp: at_def exchanged_def nth_list_update)

lemma mset_exchanged:
  "0 \<le> i \<Longrightarrow> i < int (length es) \<Longrightarrow> 0 \<le> j \<Longrightarrow> j < int (length es) \<Longrightarrow> mset (exchanged es i j) = mset es"
  unfolding exchanged_def at_def by (rule mset_swap) auto

lemma div_mult_range: "p < k * t + t \<Longrightarrow> k * t \<le> p \<Longrightarrow> p div t = (k :: nat)"
  by (metis add.commute div_nat_eqI mult.commute mult_Suc_right)

lemma xchg_block:
  assumes "block t es" "0 \<le> i" "i < j" "j < int (length es)"
  shows "xchg_el t (concat es) i j = Inr (concat (exchanged es i j))"
proof -
  let ?i = "nat i" and ?j = "nat j" and ?m = "concat es"
  have t: "0 < t" "t < 2 ^ 64" using assms(1) by (auto simp: block_def)
  have ij: "?i < ?j" "?j < length es" using assms by auto
  have le: "?i * t + t \<le> ?j * t" "?j * t + t \<le> length es * t"
    using mult_le_mono1 [OF Suc_leI [OF ij(1)], of t] mult_le_mono1 [OF Suc_leI [OF ij(2)], of t] by simp_all
  have u: "unat (of_nat t :: u64) = t" using t by (simp add: unat_of_nat)
  have len: "length ?m = length es * t" by (rule block_length [OF assms(1)])
  have b': "block t (exchanged es i j)" using assms by (intro block_exchanged) auto
  have "apart t (?i * t) (?j * t) (length ?m)" using le len by (simp add: apart_def)
  then have "xchg_el t ?m i j = Inr (swapped ?m (?i * t) (?j * t) t)"
    using xchg_selected [of "of_nat t"] u by (simp add: xchg_el_def)
  moreover have "swapped ?m (?i * t) (?j * t) t = concat (exchanged es i j)"
  proof (rule nth_equalityI)
    show "length (swapped ?m (?i * t) (?j * t) t) = length (concat (exchanged es i j))"
      by (simp add: len block_length [OF b'])
    fix p assume "p < length (swapped ?m (?i * t) (?j * t) t)"
    then have p: "p < length es * t" by (simp add: len)
    define k where "k = p div t"
    define r where "r = p mod t"
    have kr: "p = k * t + r" "r < t" using t(1) by (simp_all add: k_def r_def)
    have k: "k < length es" using p t(1) by (simp add: k_def less_mult_imp_div_less)
    have rhs: "concat (exchanged es i j) ! p = exchanged es i j ! k ! r"
      unfolding kr(1) by (rule block_nth [OF b']) (use k kr(2) in auto)
    consider "k = ?i" | "k = ?j" | "k \<noteq> ?i" "k \<noteq> ?j" by blast
    then show "swapped ?m (?i * t) (?j * t) t ! p = concat (exchanged es i j) ! p"
    proof cases
      case 1
      then have "swapped ?m (?i * t) (?j * t) t ! p = ?m ! (?j * t + r)" using kr le p by (simp add: nth_swapped len)
      then show ?thesis using rhs block_nth [OF assms(1) ij(2) kr(2)] 1 ij by (simp add: exchanged_def at_def)
    next
      case 2
      then have "swapped ?m (?i * t) (?j * t) t ! p = ?m ! (?i * t + r)" using kr le p by (simp add: nth_swapped len)
      then show ?thesis using rhs block_nth [OF assms(1) _ kr(2), of ?i] 2 ij by (simp add: exchanged_def at_def)
    next
      case 3
      then have "\<not> (?i * t \<le> p \<and> p < ?i * t + t)" "\<not> (?j * t \<le> p \<and> p < ?j * t + t)"
        using div_mult_range [of p _ t] by (auto simp: k_def)
      then have "swapped ?m (?i * t) (?j * t) t ! p = ?m ! p" using p by (auto simp: nth_swapped len)
      then show ?thesis using rhs block_nth [OF assms(1) k kr(2)] 3 kr(1) by (simp add: exchanged_def)
    qed
  qed
  ultimately show ?thesis by simp
qed

section \<open>Partition\<close>

definition lt :: "comparator \<Rightarrow> byte list \<Rightarrow> byte list \<Rightarrow> bool" where
  "lt cmp x y \<longleftrightarrow> sint (cmp x y) < 0"

text \<open>What a comparison function of elements of \<open>t\<close> bytes has to be: a strict weak order.\<close>

definition weak_order :: "nat \<Rightarrow> comparator \<Rightarrow> bool" where
  "weak_order t cmp \<longleftrightarrow> (\<forall>x y. length x = t \<longrightarrow> length y = t \<longrightarrow> lt cmp x y \<longrightarrow> \<not> lt cmp y x) \<and>
     (\<forall>x y z. length x = t \<longrightarrow> length y = t \<longrightarrow> length z = t \<longrightarrow> \<not> lt cmp x y \<longrightarrow> \<not> lt cmp y z \<longrightarrow> \<not> lt cmp x z)"

lemma block_at: "block t es \<Longrightarrow> 0 \<le> k \<Longrightarrow> k < int (length es) \<Longrightarrow> length (at es k) = t"
  by (auto simp: block_def at_def)

lemma scan_up_finds:
  assumes "block t es" "0 \<le> i" "i \<le> s" "s < int (length es)" "\<not> lt cmp (at es s) piv" "nat (s - i) < f"
  shows "\<exists>i'. scan_up f cmp piv t (concat es) i = Inr i' \<and> i \<le> i' \<and> i' \<le> s \<and> \<not> lt cmp (at es i') piv \<and>
    (\<forall>k. i \<le> k \<and> k < i' \<longrightarrow> lt cmp (at es k) piv)"
  using assms
proof (induction f arbitrary: i)
  case (Suc f)
  have e: "el t (concat es) i = Inr (at es i)" using el_block [OF Suc.prems(1,2)] Suc.prems(3,4) by simp
  show ?case
  proof (cases "lt cmp (at es i) piv")
    case True
    then have "i \<noteq> s" using Suc.prems(5) by auto
    then have s: "0 \<le> i + 1" "i + 1 \<le> s" "nat (s - (i + 1)) < f" using Suc.prems(2,3,6) by auto
    obtain i' where i': "scan_up f cmp piv t (concat es) (i + 1) = Inr i'" "i + 1 \<le> i'" "i' \<le> s"
        "\<not> lt cmp (at es i') piv" "\<forall>k. i + 1 \<le> k \<and> k < i' \<longrightarrow> lt cmp (at es k) piv"
      using Suc.IH [OF Suc.prems(1) s(1,2) Suc.prems(4,5) s(3)] by auto
    have "\<forall>k. i \<le> k \<and> k < i' \<longrightarrow> lt cmp (at es k) piv"
    proof (intro allI impI)
      fix k assume "i \<le> k \<and> k < i'"
      then show "lt cmp (at es k) piv" using i'(5) True by (cases "k = i") auto
    qed
    then show ?thesis using e True i' by (auto simp: lt_def)
  next
    case False
    then show ?thesis using e Suc.prems by (auto simp: lt_def)
  qed
qed simp

lemma scan_down_finds:
  assumes "block t es" "0 \<le> s" "s \<le> j" "j < int (length es)" "\<not> lt cmp piv (at es s)" "nat (j - s) < f"
  shows "\<exists>j'. scan_down f cmp piv t (concat es) j = Inr j' \<and> s \<le> j' \<and> j' \<le> j \<and> \<not> lt cmp piv (at es j') \<and>
    (\<forall>k. j' < k \<and> k \<le> j \<longrightarrow> lt cmp piv (at es k))"
  using assms
proof (induction f arbitrary: j)
  case (Suc f)
  have e: "el t (concat es) j = Inr (at es j)" using el_block [OF Suc.prems(1)] Suc.prems(2-4) by simp
  show ?case
  proof (cases "lt cmp piv (at es j)")
    case True
    then have "j \<noteq> s" using Suc.prems(5) by auto
    then have s: "s \<le> j - 1" "j - 1 < int (length es)" "nat (j - 1 - s) < f" using Suc.prems(3,4,6) by auto
    obtain j' where j': "scan_down f cmp piv t (concat es) (j - 1) = Inr j'" "s \<le> j'" "j' \<le> j - 1"
        "\<not> lt cmp piv (at es j')" "\<forall>k. j' < k \<and> k \<le> j - 1 \<longrightarrow> lt cmp piv (at es k)"
      using Suc.IH [OF Suc.prems(1,2) s(1,2) Suc.prems(5) s(3)] by auto
    have "\<forall>k. j' < k \<and> k \<le> j \<longrightarrow> lt cmp piv (at es k)"
    proof (intro allI impI)
      fix k assume "j' < k \<and> k \<le> j"
      then show "lt cmp piv (at es k)" using j'(5) True by (cases "k = j") auto
    qed
    then show ?thesis using e True j' by (auto simp: lt_def)
  next
    case False
    then show ?thesis using e Suc.prems by (auto simp: lt_def)
  qed
qed simp

text \<open>\<open>rearranged b e\<close>: the same elements, moved only between the positions \<open>b\<close> and \<open>e\<close>.\<close>

definition rearranged :: "int \<Rightarrow> int \<Rightarrow> byte list list \<Rightarrow> byte list list \<Rightarrow> bool" where
  "rearranged b e es es' \<longleftrightarrow> length es' = length es \<and> mset es' = mset es \<and>
     (\<forall>k. 0 \<le> k \<and> k < int (length es) \<and> \<not> (b \<le> k \<and> k \<le> e) \<longrightarrow> at es' k = at es k) \<and>
     (\<forall>k. b \<le> k \<and> k \<le> e \<longrightarrow> (\<exists>l. b \<le> l \<and> l \<le> e \<and> at es' k = at es l))"

lemma rearranged_refl: "rearranged b e es es"
  by (auto simp: rearranged_def)

lemma rearranged_trans: "rearranged b e es es1 \<Longrightarrow> rearranged b e es1 es2 \<Longrightarrow> rearranged b e es es2"
  unfolding rearranged_def by (metis (no_types, lifting))

lemma rearranged_wider:
  assumes "rearranged b' e' es es1" "b \<le> b'" "e' \<le> e" "0 \<le> b" "e < int (length es)"
  shows "rearranged b e es es1"
proof -
  have "\<exists>l. b \<le> l \<and> l \<le> e \<and> at es1 k = at es l" if "b \<le> k" "k \<le> e" for k
  proof (cases "b' \<le> k \<and> k \<le> e'")
    case True
    then obtain l where "b' \<le> l" "l \<le> e'" "at es1 k = at es l" using assms(1) by (auto simp: rearranged_def)
    then show ?thesis using assms(2,3) by (intro exI [of _ l]) auto
  next
    case False
    then have "at es1 k = at es k" using assms that by (auto simp: rearranged_def)
    then show ?thesis using that by blast
  qed
  then show ?thesis using assms by (auto simp: rearranged_def)
qed

lemma rearranged_exchanged:
  assumes "0 \<le> b" "b \<le> i" "i \<le> e" "b \<le> j" "j \<le> e" "e < int (length es)"
  shows "rearranged b e es (exchanged es i j)"
proof -
  have "at (exchanged es i j) k = (if k = j then at es i else if k = i then at es j else at es k)"
    if "0 \<le> k" "k < int (length es)" for k
    using assms that by (intro at_exchanged) auto
  then show ?thesis using assms mset_exchanged [of i es j] unfolding rearranged_def by auto
qed

lemma rearranged_block: "rearranged b e es es' \<Longrightarrow> block t es \<Longrightarrow> block t es'"
  using mset_eq_setD by (fastforce simp: rearranged_def block_def)

lemma rearranged_all:
  assumes "rearranged b e es es'" "\<And>k. b \<le> k \<Longrightarrow> k \<le> e \<Longrightarrow> P (at es k)" "b \<le> k" "k \<le> e"
  shows "P (at es' k)"
  using assms unfolding rearranged_def by metis

text \<open>\<open>between\<close>: what the loop of the partition keeps; \<open>parted\<close>: what it ends with.\<close>

definition around :: "comparator \<Rightarrow> int \<Rightarrow> int \<Rightarrow> byte list \<Rightarrow> byte list list \<Rightarrow> int \<Rightarrow> int \<Rightarrow> bool" where
  "around cmp b e piv es i j \<longleftrightarrow> b \<le> i \<and> i \<le> e + 1 \<and> b - 1 \<le> j \<and> j \<le> e \<and> (\<forall>k. b \<le> k \<and> k < i \<longrightarrow> \<not> lt cmp piv (at es k)) \<and>
     (\<forall>k. j < k \<and> k \<le> e \<longrightarrow> \<not> lt cmp (at es k) piv)"

definition parted :: "comparator \<Rightarrow> int \<Rightarrow> int \<Rightarrow> byte list \<Rightarrow> byte list list \<Rightarrow> byte list list \<Rightarrow> int \<Rightarrow> int \<Rightarrow> bool" where
  "parted cmp b e piv es es' i j \<longleftrightarrow> rearranged b e es es' \<and> around cmp b e piv es' i j \<and> b < i \<and> j < e \<and> j < i"

lemma weak_asym: "weak_order t cmp \<Longrightarrow> lt cmp x y \<Longrightarrow> length x = t \<Longrightarrow> length y = t \<Longrightarrow> \<not> lt cmp y x"
  unfolding weak_order_def by blast

lemma weak_trans:
  "weak_order t cmp \<Longrightarrow> \<not> lt cmp x y \<Longrightarrow> \<not> lt cmp y z \<Longrightarrow> length x = t \<Longrightarrow> length y = t \<Longrightarrow> length z = t \<Longrightarrow> \<not> lt cmp x z"
  unfolding weak_order_def by blast

lemma aroundD:
  assumes "around cmp b e piv es i j"
  shows "b \<le> i" "j \<le> e" "i \<le> e + 1" "b - 1 \<le> j" "b \<le> k \<Longrightarrow> k < i \<Longrightarrow> \<not> lt cmp piv (at es k)" "j < k \<Longrightarrow> k \<le> e \<Longrightarrow> \<not> lt cmp (at es k) piv"
  using assms unfolding around_def by blast+

lemma around_scanned:
  assumes "around cmp b e piv es i j" "i \<le> i'" "j' \<le> j" "0 \<le> b" "e < int (length es)" "i' \<le> e + 1" "b - 1 \<le> j'"
    "block t es" "length piv = t" "weak_order t cmp"
    "\<forall>k. i \<le> k \<and> k < i' \<longrightarrow> lt cmp (at es k) piv" "\<forall>k. j' < k \<and> k \<le> j \<longrightarrow> lt cmp piv (at es k)"
  shows "around cmp b e piv es i' j'"
proof -
  have "\<not> lt cmp piv (at es k)" if k: "b \<le> k" "k < i'" for k
  proof (cases "k < i")
    case True
    then show ?thesis using aroundD(5) [OF assms(1) k(1)] by blast
  next
    case False
    then have "lt cmp (at es k) piv" using assms(11) k(2) by simp
    moreover have "length (at es k) = t" by (rule block_at [OF assms(8)]) (use k assms(4-6) in linarith)+
    ultimately show ?thesis using weak_asym [OF assms(10)] assms(9) by blast
  qed
  moreover have "\<not> lt cmp (at es k) piv" if k: "j' < k" "k \<le> e" for k
  proof (cases "j < k")
    case True
    then show ?thesis using aroundD(6) [OF assms(1) _ k(2)] by blast
  next
    case False
    then have "lt cmp piv (at es k)" using assms(12) k(1) by simp
    moreover have "length (at es k) = t" by (rule block_at [OF assms(8)]) (use k assms(4,5,7) in linarith)+
    ultimately show ?thesis using weak_asym [OF assms(10)] assms(9) by blast
  qed
  moreover have "b \<le> i'" "j' \<le> e" using aroundD(1,2) [OF assms(1)] assms(2,3) by linarith+
  ultimately show ?thesis using assms(6,7) unfolding around_def by blast
qed

lemma around_exchanged:
  assumes "around cmp b e piv es i j" "0 \<le> b" "b \<le> i" "i < j" "j \<le> e" "e < int (length es)"
    "\<not> lt cmp (at es i) piv" "\<not> lt cmp piv (at es j)"
  shows "around cmp b e piv (exchanged es i j) (i + 1) (j - 1)"
proof -
  have x: "at (exchanged es i j) k = (if k = j then at es i else if k = i then at es j else at es k)"
    if "b \<le> k" "k \<le> e" for k
    using assms(2-6) that by (intro at_exchanged) auto
  have "\<not> lt cmp piv (at (exchanged es i j) k)" if "b \<le> k" "k < i + 1" for k
    using x [of k] that assms(2-6,8) aroundD(5) [OF assms(1), of k] by (cases "k = i") auto
  moreover have "\<not> lt cmp (at (exchanged es i j) k) piv" if "j - 1 < k" "k \<le> e" for k
    using x [of k] that assms(2-7) aroundD(6) [OF assms(1), of k] by (cases "k = j") auto
  moreover have "b \<le> i + 1" "j - 1 \<le> e" "i + 1 \<le> e + 1" "b - 1 \<le> j - 1" using assms(3-5) by auto
  ultimately show ?thesis unfolding around_def by blast
qed

text \<open>One turn of the loop, with an element on either side where the scans stop.\<close>

lemma part_turn:
  assumes "block t es" "length piv = t" "weak_order t cmp" "0 \<le> b" "e < int (length es)" "around cmp b e piv es i j"
    "i \<le> s" "s \<le> e" "\<not> lt cmp (at es s) piv" "b \<le> s'" "s' \<le> j" "\<not> lt cmp piv (at es s')"
    "b < i \<and> j < e \<or> s \<le> s'"
  shows "(\<exists>i' j'. part_loop (Suc f) cmp piv t (concat es) i j = Inr (concat es, i', j') \<and> parted cmp b e piv es es i' j') \<or>
    (\<exists>es1 i' j'. i < i' \<and> j' < j \<and> b < i' \<and> j' < e \<and> around cmp b e piv es1 i' j' \<and> rearranged b e es es1 \<and>
      part_loop (Suc f) cmp piv t (concat es) i j =
        (if i' \<le> j' then part_loop f cmp piv t (concat es1) i' j' else Inr (concat es1, i', j')))"
proof -
  have bi: "b \<le> i" "j \<le> e" using aroundD(1,2) [OF assms(6)] by auto
  have len: "length es \<le> length (concat es)" using block_length [OF assms(1)] assms(1) by (simp add: block_def)
  have up: "0 \<le> i" "s < int (length es)" "nat (s - i) < Suc (length (concat es))" using bi assms(4,5,8) len by auto
  have down: "0 \<le> s'" "j < int (length es)" "nat (j - s') < Suc (length (concat es))" using bi assms(4,5,10) len by auto
  obtain i' where i': "scan_up (Suc (length (concat es))) cmp piv t (concat es) i = Inr i'" "i \<le> i'" "i' \<le> s"
      "\<not> lt cmp (at es i') piv" "\<forall>k. i \<le> k \<and> k < i' \<longrightarrow> lt cmp (at es k) piv"
    using scan_up_finds [OF assms(1) up(1) assms(7) up(2) assms(9) up(3)] by blast
  obtain j' where j': "scan_down (Suc (length (concat es))) cmp piv t (concat es) j = Inr j'" "s' \<le> j'" "j' \<le> j"
      "\<not> lt cmp piv (at es j')" "\<forall>k. j' < k \<and> k \<le> j \<longrightarrow> lt cmp piv (at es k)"
    using scan_down_finds [OF assms(1) down(1) assms(11) down(2) assms(12) down(3)] by blast
  have a: "around cmp b e piv es i' j'"
    by (rule around_scanned [OF assms(6) i'(2) j'(3) assms(4,5) _ _ assms(1-3) i'(5) j'(5)])
      (use i' j' assms(8,10) in auto)
  have r: "b \<le> i'" "i' \<le> e" "b \<le> j'" "j' \<le> e" using bi i' j' assms(8,10) by auto
  consider "i' < j'" | "i' = j'" | "j' < i'" by linarith
  then show ?thesis
  proof cases
    case 1
    have x: "xchg_el t (concat es) i' j' = Inr (concat (exchanged es i' j'))"
      by (rule xchg_block) (use assms(1,4,5) r 1 in auto)
    have "around cmp b e piv (exchanged es i' j') (i' + 1) (j' - 1)"
      by (rule around_exchanged [OF a assms(4) r(1) 1 r(4) assms(5) i'(4) j'(4)])
    moreover have "rearranged b e es (exchanged es i' j')"
      by (rule rearranged_exchanged) (use assms(4,5) r in auto)
    ultimately show ?thesis using i'(1,2) j'(1,3) x 1 r bi
      by (intro disjI2 exI [of _ "exchanged es i' j'"] exI [of _ "i' + 1"] exI [of _ "j' - 1"]) simp
  next
    case 2
    have "\<not> lt cmp piv (at es k)" if "b \<le> k" "k < i' + 1" for k
      using aroundD(5) [OF a that(1)] that(2) 2 j'(4) by (cases "k = i'") auto
    moreover have "\<not> lt cmp (at es k) piv" if "j' - 1 < k" "k \<le> e" for k
      using aroundD(6) [OF a _ that(2)] that(1) 2 i'(4) by (cases "k = j'") auto
    moreover have "b \<le> i' + 1" "j' - 1 \<le> e" "i' + 1 \<le> e + 1" "b - 1 \<le> j' - 1" using r by auto
    ultimately have "around cmp b e piv es (i' + 1) (j' - 1)" unfolding around_def by blast
    then have "parted cmp b e piv es es (i' + 1) (j' - 1)" using r 2 rearranged_refl by (simp add: parted_def)
    then show ?thesis using i'(1) j'(1) 2 by (intro disjI1 exI [of _ "i' + 1"] exI [of _ "j' - 1"]) simp
  next
    case 3
    then have "b < i'" "j' < e" using assms(13) i'(2,3) j'(2,3) r by auto
    then have "parted cmp b e piv es es i' j'" using a 3 rearranged_refl by (simp add: parted_def)
    then show ?thesis using i'(1) j'(1) 3 by (intro disjI1 exI [of _ "i'"] exI [of _ "j'"]) simp
  qed
qed

lemma parted_trans: "rearranged b e es es1 \<Longrightarrow> parted cmp b e piv es1 es2 i j \<Longrightarrow> parted cmp b e piv es es2 i j"
  unfolding parted_def by (blast intro: rearranged_trans)

lemma part_loop_rest:
  assumes "block t es" "length piv = t" "weak_order t cmp" "0 \<le> b" "e < int (length es)" "around cmp b e piv es i j"
    "b < i" "j < e" "i \<le> j" "nat (j - i) < f"
  shows "\<exists>es' i' j'. part_loop f cmp piv t (concat es) i j = Inr (concat es', i', j') \<and> parted cmp b e piv es es' i' j'"
  using assms(1,5-10)
proof (induction f arbitrary: es i j)
  case (Suc f)
  have s: "\<not> lt cmp (at es e) piv" "\<not> lt cmp piv (at es b)" using Suc.prems aroundD(5,6) [OF Suc.prems(3)] by auto
  have t: "(\<exists>i' j'. part_loop (Suc f) cmp piv t (concat es) i j = Inr (concat es, i', j') \<and> parted cmp b e piv es es i' j') \<or>
    (\<exists>es1 i' j'. i < i' \<and> j' < j \<and> b < i' \<and> j' < e \<and> around cmp b e piv es1 i' j' \<and> rearranged b e es es1 \<and>
      part_loop (Suc f) cmp piv t (concat es) i j =
        (if i' \<le> j' then part_loop f cmp piv t (concat es1) i' j' else Inr (concat es1, i', j')))"
    by (rule part_turn [OF Suc.prems(1) assms(2-4) Suc.prems(2,3) _ _ s(1) _ _ s(2)]) (use Suc.prems in auto)
  then consider (stop) i' j' where "part_loop (Suc f) cmp piv t (concat es) i j = Inr (concat es, i', j')"
      "parted cmp b e piv es es i' j'" |
    (turn) es1 i' j' where "i < i'" "j' < j" "b < i'" "j' < e" "around cmp b e piv es1 i' j'" "rearranged b e es es1"
      "part_loop (Suc f) cmp piv t (concat es) i j =
        (if i' \<le> j' then part_loop f cmp piv t (concat es1) i' j' else Inr (concat es1, i', j'))"
    by blast
  then show ?case
  proof cases
    case stop
    then show ?thesis by blast
  next
    case turn
    show ?thesis
    proof (cases "i' \<le> j'")
      case True
      have "\<exists>es' a c. part_loop f cmp piv t (concat es1) i' j' = Inr (concat es', a, c) \<and> parted cmp b e piv es1 es' a c"
        using turn True Suc.prems rearranged_block [OF turn(6)]
        by (intro Suc.IH) (auto simp: rearranged_def)
      then show ?thesis using turn(6,7) True parted_trans by fastforce
    next
      case False
      then have "parted cmp b e piv es es1 i' j'" using turn by (auto simp: parted_def)
      then show ?thesis using turn(7) False by auto
    qed
  qed
qed simp

lemma part_loop_parts:
  assumes "block t es" "weak_order t cmp" "0 \<le> b" "b \<le> p" "p \<le> e" "e < int (length es)"
  shows "\<exists>es' i' j'. part_loop (Suc (length (concat es))) cmp (at es p) t (concat es) b e = Inr (concat es', i', j') \<and>
    parted cmp b e (at es p) es es' i' j'"
proof -
  let ?piv = "at es p" and ?f = "length (concat es)"
  have piv: "length ?piv = t" using block_at [OF assms(1)] assms by simp
  have len: "length es \<le> ?f" using block_length [OF assms(1)] assms(1) by (simp add: block_def)
  have s: "\<not> lt cmp ?piv ?piv" using weak_asym [OF assms(2) _ piv piv] by blast
  have a: "around cmp b e ?piv es b e" using assms(4,5) by (auto simp: around_def)
  have "(\<exists>i' j'. part_loop (Suc ?f) cmp ?piv t (concat es) b e = Inr (concat es, i', j') \<and> parted cmp b e ?piv es es i' j') \<or>
    (\<exists>es1 i' j'. b < i' \<and> j' < e \<and> b < i' \<and> j' < e \<and> around cmp b e ?piv es1 i' j' \<and> rearranged b e es es1 \<and>
      part_loop (Suc ?f) cmp ?piv t (concat es) b e =
        (if i' \<le> j' then part_loop ?f cmp ?piv t (concat es1) i' j' else Inr (concat es1, i', j')))"
    by (rule part_turn [OF assms(1) piv assms(2,3,6) a assms(4,5) s assms(4,5) s]) simp
  then consider (stop) i' j' where "part_loop (Suc ?f) cmp ?piv t (concat es) b e = Inr (concat es, i', j')"
      "parted cmp b e ?piv es es i' j'" |
    (turn) es1 i' j' where "b < i'" "j' < e" "around cmp b e ?piv es1 i' j'" "rearranged b e es es1"
      "part_loop (Suc ?f) cmp ?piv t (concat es) b e =
        (if i' \<le> j' then part_loop ?f cmp ?piv t (concat es1) i' j' else Inr (concat es1, i', j'))"
    by blast
  then show ?thesis
  proof cases
    case stop
    then show ?thesis by blast
  next
    case turn
    show ?thesis
    proof (cases "i' \<le> j'")
      case True
      have "\<exists>es' a c. part_loop ?f cmp ?piv t (concat es1) i' j' = Inr (concat es', a, c) \<and> parted cmp b e ?piv es1 es' a c"
        by (rule part_loop_rest [OF rearranged_block [OF turn(4) assms(1)] piv assms(2,3) _ turn(3,1,2) True])
          (use turn(1,2,4) assms(3-6) len in \<open>auto simp: rearranged_def\<close>)
      then show ?thesis using turn(4,5) True parted_trans by fastforce
    next
      case False
      then have "parted cmp b e ?piv es es1 i' j'" using turn by (auto simp: parted_def)
      then show ?thesis using turn(5) False by auto
    qed
  qed
qed

section \<open>Sorting\<close>

definition sorted_between :: "comparator \<Rightarrow> int \<Rightarrow> int \<Rightarrow> byte list list \<Rightarrow> bool" where
  "sorted_between cmp b e es \<longleftrightarrow> (\<forall>k l. b \<le> k \<and> k \<le> l \<and> l \<le> e \<longrightarrow> \<not> lt cmp (at es l) (at es k))"

lemma rearranged_outside:
  "rearranged b e es es' \<Longrightarrow> 0 \<le> k \<Longrightarrow> k < int (length es) \<Longrightarrow> k < b \<or> e < k \<Longrightarrow> at es' k = at es k"
  by (auto simp: rearranged_def)

lemma sorted_between_outside:
  assumes "sorted_between cmp b e es" "rearranged b' e' es es'" "0 \<le> b" "e < int (length es)" "e < b'"
  shows "sorted_between cmp b e es'"
proof -
  have "at es' k = at es k" if "b \<le> k" "k \<le> e" for k
    by (rule rearranged_outside [OF assms(2)]) (use that assms(3-5) in auto)
  then show ?thesis using assms(1) unfolding sorted_between_def by (metis order_trans)
qed

lemma sorted_between_trivial: "weak_order t cmp \<Longrightarrow> block t es \<Longrightarrow> 0 \<le> b \<Longrightarrow> e < int (length es) \<Longrightarrow> e \<le> b \<Longrightarrow> sorted_between cmp b e es"
  unfolding sorted_between_def using weak_asym block_at by (metis order_antisym order_trans le_less_trans)

lemma around_rearranged:
  assumes "around cmp b e piv es i j" "rearranged b' e' es es'" "0 \<le> b" "e < int (length es)"
    "b' = b \<and> e' = j \<and> j < i \<or> b' = i \<and> e' = e \<and> j < i"
  shows "around cmp b e piv es' i j"
proof -
  note r = aroundD(1-4) [OF assms(1)]
  have "\<not> lt cmp piv (at es' k)" if k: "b \<le> k" "k < i" for k
  proof (cases "b' \<le> k \<and> k \<le> e'")
    case True
    then show ?thesis
      using rearranged_all [OF assms(2), of "\<lambda>x. \<not> lt cmp piv x" k] aroundD(5) [OF assms(1)] assms(5) k by auto
  next
    case False
    then have "at es' k = at es k" by (intro rearranged_outside [OF assms(2)]) (use k r assms(3,4) in auto)
    then show ?thesis using aroundD(5) [OF assms(1) k] by simp
  qed
  moreover have "\<not> lt cmp (at es' k) piv" if k: "j < k" "k \<le> e" for k
  proof (cases "b' \<le> k \<and> k \<le> e'")
    case True
    then show ?thesis
      using rearranged_all [OF assms(2), of "\<lambda>x. \<not> lt cmp x piv" k] aroundD(6) [OF assms(1)] assms(5) k by auto
  next
    case False
    then have "at es' k = at es k" by (intro rearranged_outside [OF assms(2)]) (use k r assms(3,4) in auto)
    then show ?thesis using aroundD(6) [OF assms(1) k] by simp
  qed
  ultimately show ?thesis using r unfolding around_def by blast
qed

lemma sorted_between_join:
  assumes "weak_order t cmp" "block t es" "length piv = t" "0 \<le> b" "e < int (length es)" "around cmp b e piv es i j"
    "sorted_between cmp b j es" "sorted_between cmp i e es"
  shows "sorted_between cmp b e es"
  unfolding sorted_between_def
proof (intro allI impI)
  fix k l assume kl: "b \<le> k \<and> k \<le> l \<and> l \<le> e"
  have len: "length (at es k) = t" "length (at es l) = t"
    using kl assms(4,5) block_at [OF assms(2), of k] block_at [OF assms(2), of l] by auto
  consider "l \<le> j" | "i \<le> k" | "j < l" "k < i" by linarith
  then show "\<not> lt cmp (at es l) (at es k)"
  proof cases
    case 1
    then show ?thesis using assms(7) kl unfolding sorted_between_def by blast
  next
    case 2
    then show ?thesis using assms(8) kl unfolding sorted_between_def by blast
  next
    case 3
    then show ?thesis
      using weak_trans [OF assms(1) aroundD(6) [OF assms(6) 3(1)] aroundD(5) [OF assms(6) _ 3(2)] len(2) assms(3) len(1)] kl by blast
  qed
qed

lemma sort_i_sorts:
  assumes "weak_order t cmp" "block t es" "0 \<le> b" "b < e" "e < int (length es)" "nat (e - b) < f"
  shows "\<exists>es'. sort_i f cmp t (concat es) b e = Inr (concat es') \<and> rearranged b e es es' \<and> sorted_between cmp b e es'"
  using assms(2-6)
proof (induction f arbitrary: es b e)
  case (Suc f)
  let ?p = "b + (e - b) div 2"
  have p: "b \<le> ?p" "?p \<le> e" using Suc.prems by auto
  have el: "el t (concat es) ?p = Inr (at es ?p)" by (rule el_block [OF Suc.prems(1)]) (use p Suc.prems in auto)
  have piv: "length (at es ?p) = t" by (rule block_at [OF Suc.prems(1)]) (use p Suc.prems in auto)
  obtain es1 i j where 1: "part_loop (Suc (length (concat es))) cmp (at es ?p) t (concat es) b e = Inr (concat es1, i, j)"
      "parted cmp b e (at es ?p) es es1 i j"
    using part_loop_parts [OF Suc.prems(1) assms(1) Suc.prems(2) p Suc.prems(4)] by blast
  then have r1: "rearranged b e es es1" and a1: "around cmp b e (at es ?p) es1 i j" and ij: "b < i" "j < e" "j < i"
    by (auto simp: parted_def)
  note r = aroundD(1-4) [OF a1]
  have b1: "block t es1" by (rule rearranged_block [OF r1 Suc.prems(1)])
  have l1: "length es1 = length es" using r1 by (simp add: rearranged_def)
  have "\<exists>es2. (if b < j then sort_i f cmp t (concat es1) b j else Inr (concat es1)) = Inr (concat es2) \<and>
      rearranged b j es1 es2 \<and> sorted_between cmp b j es2"
  proof (cases "b < j")
    case True
    then show ?thesis using Suc.IH [OF b1, of b j] Suc.prems ij l1 by auto
  next
    case False
    then show ?thesis using rearranged_refl sorted_between_trivial [OF assms(1) b1, of b j] Suc.prems(2,4) ij l1
      by (intro exI [of _ es1]) auto
  qed
  then obtain es2 where 2: "(if b < j then sort_i f cmp t (concat es1) b j else Inr (concat es1)) = Inr (concat es2)"
      "rearranged b j es1 es2" "sorted_between cmp b j es2"
    by blast
  have b2: "block t es2" by (rule rearranged_block [OF 2(2) b1])
  have l2: "length es2 = length es" using 2(2) l1 by (simp add: rearranged_def)
  have a2: "around cmp b e (at es ?p) es2 i j"
    by (rule around_rearranged [OF a1 2(2) Suc.prems(2)]) (use Suc.prems(4) l1 ij in auto)
  have "\<exists>es3. (if i < e then sort_i f cmp t (concat es2) i e else Inr (concat es2)) = Inr (concat es3) \<and>
      rearranged i e es2 es3 \<and> sorted_between cmp i e es3"
  proof (cases "i < e")
    case True
    then show ?thesis using Suc.IH [OF b2, of i e] Suc.prems ij l2 by auto
  next
    case False
    then show ?thesis using rearranged_refl sorted_between_trivial [OF assms(1) b2, of i e] Suc.prems(2,4) ij l2
      by (intro exI [of _ es2]) auto
  qed
  then obtain es3 where 3: "(if i < e then sort_i f cmp t (concat es2) i e else Inr (concat es2)) = Inr (concat es3)"
      "rearranged i e es2 es3" "sorted_between cmp i e es3"
    by blast
  have b3: "block t es3" by (rule rearranged_block [OF 3(2) b2])
  have l3: "length es3 = length es" using 3(2) l2 by (simp add: rearranged_def)
  have a3: "around cmp b e (at es ?p) es3 i j"
    by (rule around_rearranged [OF a2 3(2) Suc.prems(2)]) (use Suc.prems(4) l2 ij in auto)
  have s3: "sorted_between cmp b j es3"
    by (rule sorted_between_outside [OF 2(3) 3(2) Suc.prems(2)]) (use Suc.prems(4) l2 ij in auto)
  have "sorted_between cmp b e es3"
    by (rule sorted_between_join [OF assms(1) b3 piv Suc.prems(2) _ a3 s3 3(3)]) (use Suc.prems(4) l3 in simp)
  moreover have "rearranged b e es es3"
    by (rule rearranged_trans [OF r1 rearranged_trans [OF rearranged_wider [OF 2(2)] rearranged_wider [OF 3(2)]]])
      (use Suc.prems r ij l1 l2 in auto)
  moreover have "sort_i (Suc f) cmp t (concat es) b e = Inr (concat es3)"
    using el 1(1) 2(1) 3(1) by simp
  ultimately show ?case by blast
qed simp

lemma sort_block_sorts:
  assumes "weak_order t cmp" "block t es"
  shows "\<exists>es'. sort_block cmp t (concat es) = Inr (concat es') \<and> mset es' = mset es \<and> sorted_wrt (\<lambda>x y. \<not> lt cmp y x) es'"
proof (cases "length es \<le> 1")
  case True
  then have "length (concat es) \<le> t" using block_length [OF assms(2)] by (cases es) auto
  moreover have "sorted_wrt (\<lambda>x y. \<not> lt cmp y x) es" using True by (cases es) auto
  ultimately show ?thesis by (intro exI [of _ es]) (simp add: sort_block_def)
next
  case False
  have t: "0 < t" using assms(2) by (simp add: block_def)
  have l: "length (concat es) = length es * t" by (rule block_length [OF assms(2)])
  then have "\<not> length (concat es) \<le> t" using False t by simp
  moreover have "length (concat es) div t = length es" using l t by simp
  moreover have "length es \<le> length es * t" using t by simp
  then have "nat (int (length es) - 1 - 0) < Suc (length (concat es))" unfolding l by linarith
  then obtain es' where es': "sort_i (Suc (length (concat es))) cmp t (concat es) 0 (int (length es) - 1) = Inr (concat es')"
      "rearranged 0 (int (length es) - 1) es es'" "sorted_between cmp 0 (int (length es) - 1) es'"
    using sort_i_sorts [OF assms, of 0 "int (length es) - 1" "Suc (length (concat es))"] False by (auto simp del: sort_i.simps)
  moreover have "sorted_wrt (\<lambda>x y. \<not> lt cmp y x) es'"
    unfolding sorted_wrt_iff_nth_less
  proof (intro allI impI)
    fix k n assume "k < n" "n < length es'"
    then show "\<not> lt cmp (es' ! n) (es' ! k)"
      using es'(2,3) unfolding sorted_between_def rearranged_def at_def
      by (elim allE [of _ "int k"] allE [of _ "int n"] conjE) auto
  qed
  ultimately show ?thesis using es'(1,2) by (auto simp: sort_block_def rearranged_def simp del: sort_i.simps)
qed

text \<open>
  C14: whatever the size of the elements and their number, \<open>sort\<close> with a comparison function that is a strict weak order leaves the
  same elements in the block, none before an element that compares less; it reads and writes only inside the block and it returns.
\<close>

theorem array_sort:
  assumes "weak_order t cmp" "block t es"
  shows "\<exists>es'. sort_g cmp t (concat es) = Inr (concat es') \<and> sortF_g t cmp (concat es) = Inr (concat es') \<and>
    sortD_g t (\<lambda>x y (). cmp x y) () (concat es) = Inr (concat es') \<and>
    mset es' = mset es \<and> sorted_wrt (\<lambda>x y. \<not> lt cmp y x) es'"
  using sort_block_sorts [OF assms] by (simp add: sort_g_def sortF_g_def sortD_g_def)

definition by_first :: comparator where
  "by_first x y = (if hd x < hd y then -1 else if hd y < hd x then 1 else 0)"

lemma lt_by_first: "lt by_first x y \<longleftrightarrow> hd x < hd y"
  by (auto simp: lt_def by_first_def)

lemma weak_order_by_first: "weak_order t by_first"
  by (auto simp: weak_order_def lt_by_first)

theorem array_sort_witness:
  "\<exists>es'. sort_g by_first 2 (concat [[3, 1], [1, 2], [2, 3], [1, 4]]) = Inr (concat es') \<and>
    sortF_g 2 by_first (concat [[3, 1], [1, 2], [2, 3], [1, 4]]) = Inr (concat es') \<and>
    sortD_g 2 (\<lambda>x y (). by_first x y) () (concat [[3, 1], [1, 2], [2, 3], [1, 4]]) = Inr (concat es') \<and>
    mset es' = mset [[3, 1], [1, 2], [2, 3], [1, 4]] \<and> sorted_wrt (\<lambda>x y. \<not> lt by_first y x) es'"
  by (rule array_sort [OF weak_order_by_first]) (simp add: block_def)

lemma array_sort_example: "sort_g by_first 1 [3, 1, 2] = Inr [1, 2, 3]"
  by code_simp

section \<open>Sorting in reverse\<close>

text \<open>The reverse order negates the result of the comparison, which for the least \<^verbatim>\<open>int\<close> is the same number.\<close>

definition antisymmetric :: "nat \<Rightarrow> comparator \<Rightarrow> bool" where
  "antisymmetric t cmp \<longleftrightarrow> (\<forall>x y. length x = t \<longrightarrow> length y = t \<longrightarrow>
     cmp x y \<noteq> 0x80000000 \<and> (0 < sint (cmp x y) \<longleftrightarrow> sint (cmp y x) < 0))"

lemma sint_least_i32: "sint (0x80000000 :: u32) = - (2 ^ 31)"
  by simp

lemma sint_minus_i32: "(w :: u32) \<noteq> 0x80000000 \<Longrightarrow> sint (- w) = - sint w"
proof -
  assume "w \<noteq> 0x80000000"
  then have "sint w \<noteq> - (2 ^ 31)" by (metis sint_least_i32 word_eq_iff_signed)
  moreover have "- (2 ^ 31) \<le> sint w" "sint w < 2 ^ 31" using sint_greater_eq [of w] sint_less [of w] by simp_all
  ultimately show ?thesis by (simp add: sint_word_ariths signed_take_bit_int_eq_self)
qed

lemma lt_rcmp: "antisymmetric t cmp \<Longrightarrow> length x = t \<Longrightarrow> length y = t \<Longrightarrow> lt (rcmp cmp) x y \<longleftrightarrow> lt cmp y x"
  by (simp add: lt_def rcmp_def antisymmetric_def sint_minus_i32)

lemma weak_order_rcmp: "antisymmetric t cmp \<Longrightarrow> weak_order t cmp \<Longrightarrow> weak_order t (rcmp cmp)"
  unfolding weak_order_def by (metis lt_rcmp)

theorem array_rsort:
  assumes "weak_order t cmp" "antisymmetric t cmp" "block t es"
  shows "\<exists>es'. rsort_g cmp t (concat es) = Inr (concat es') \<and> rsortF_g t cmp (concat es) = Inr (concat es') \<and>
    rsortD_g t (\<lambda>x y (). cmp x y) () (concat es) = Inr (concat es') \<and>
    mset es' = mset es \<and> sorted_wrt (\<lambda>x y. \<not> lt cmp x y) es'"
proof -
  obtain es' where 1: "sort_block (rcmp cmp) t (concat es) = Inr (concat es')" "mset es' = mset es"
      "sorted_wrt (\<lambda>x y. \<not> lt (rcmp cmp) y x) es'"
    using sort_block_sorts [OF weak_order_rcmp [OF assms(2,1)] assms(3)] by blast
  have "\<forall>x \<in> set es'. length x = t" using mset_eq_setD [OF 1(2)] assms(3) by (simp add: block_def)
  then have "sorted_wrt (\<lambda>x y. \<not> lt cmp x y) es'"
    using lt_rcmp [OF assms(2)] by (auto intro!: sorted_wrt_mono_rel [OF _ 1(3)])
  then show ?thesis using 1 by (auto simp: rsort_g_def rsortF_g_def rsortD_g_def)
qed

lemma rsort_least_int:
  "rsortF_g 1 (\<lambda>x y. if hd x < hd y then 0x80000000 else if hd y < hd x then 1 else 0) [1, 2] = Inr [1, 2]"
  by code_simp

end
