(* ===== verification/Drt_Sqldump.thy ===== *)
theory Drt_Sqldump
  imports Drt_Eval
begin

text \<open>
  The SQL dump filter of \<^verbatim>\<open>src/src/sql/sqldump_filt/proc/QueueManager.cxx\<close>: reading rules, splitting the tuples of an
  \<^verbatim>\<open>INSERT\<close> statement and keeping those for which one of the table's expressions (\<open>Drt_Eval\<close>) is not zero.  A text is the
  string of its characters; a position in it is the rest of the text from there on, and the character at its end is
  the terminating zero.  \<^verbatim>\<open>memcmp\<close> stops at the first difference.  The messages to the error output are left out.
\<close>

section \<open>Rules\<close>

type_synonym rule_table = "string \<rightharpoonup> expression list"

definition starts_with :: "string \<Rightarrow> string \<Rightarrow> bool" where
  "starts_with pat s \<longleftrightarrow> take (length pat) s = pat"

text \<open>
  The loop that drops the spaces at the end of the line looks at the character before the beginning when
  nothing is left.
\<close>

fun trim_right :: "string \<Rightarrow> string result" where
  "trim_right line = (if line = [] then Inl OutOfBounds
     else if is_space (last line) then trim_right (butlast line) else Inr line)"

declare trim_right.simps [simp del]

definition isident :: "char \<Rightarrow> bool" where
  "isident c \<longleftrightarrow> isalpha c \<or> isdigit c \<or> c = CHR ''_''"

definition rule_error :: exn where
  "rule_error = InvalidFormatException ''rule syntax'' (bytes_of ''missing table name or colon'')"

text \<open>One line: nothing for an empty line or a comment, else the table and the text of its expression.\<close>

definition parse_rule :: "string \<Rightarrow> (string \<times> string) option result" where
  "parse_rule line0 = ebind (trim_right line0) (\<lambda>line. let s = dropWhile is_space line in
     if peek s = CHR ''#'' \<or> peek s = CHR 0x00 then Inr None
     else let te = dropWhile isident s; s1 = dropWhile is_space te in
       if te = s \<or> peek s1 \<noteq> CHR '':'' then Inl rule_error
       else Inr (Some (takeWhile isident s, tl s1)))"

definition append_rule :: "string \<Rightarrow> string \<Rightarrow> (rule_table, unit) smethod" where
  "append_rule tname expr evs = (let evs1 = (if evs tname = None then evs(tname \<mapsto> []) else evs) in
     case IntEvaluator expr of Inl e \<Rightarrow> (Inl e, evs1)
     | Inr e \<Rightarrow> (Inr (), evs1(tname \<mapsto> the (evs1 tname) @ [e])))"

fun addRuleFile :: "string list \<Rightarrow> (rule_table, unit) smethod" where
  "addRuleFile [] = sreturn ()"
| "addRuleFile (line # lines) = (case parse_rule line of
     Inl e \<Rightarrow> sthrow e
   | Inr None \<Rightarrow> addRuleFile lines
   | Inr (Some (tname, expr)) \<Rightarrow> sbind (append_rule tname expr) (\<lambda>_. addRuleFile lines))"

definition defineConstant :: "string \<Rightarrow> u64 \<Rightarrow> (string \<rightharpoonup> u64) \<Rightarrow> (string \<rightharpoonup> u64)" where
  "defineConstant nm v cst = cst(nm \<mapsto> v)"

section \<open>Tuples\<close>

definition insert_error :: "string \<Rightarrow> exn" where
  "insert_error m = InvalidFormatException ''INSERT'' (bytes_of m)"

text \<open>The text between two positions.\<close>

definition between :: "string \<Rightarrow> string \<Rightarrow> string" where
  "between s t = take (length s - length t) s"

fun quote_loop :: "string \<Rightarrow> string result" where
  "quote_loop [] = Inl (insert_error ''missing closing apostrophe'')"
| "quote_loop (c # s) =
     (if c = CHR 0x27 then Inr s
      else if c = CHR 0x5C then
        (case s of [] \<Rightarrow> Inl (insert_error ''missing closing apostrophe'') | _ # t \<Rightarrow> quote_loop t)
      else quote_loop s)"

lemma quote_loop_shorter: "quote_loop s = Inr t \<Longrightarrow> length t < length s"
  by (induction s rule: quote_loop.induct) (fastforce split: if_splits list.splits)+

function col_loop :: "string \<Rightarrow> string \<Rightarrow> (string list \<times> string) result" where
  "col_loop start [] = Inl (insert_error ''missing right parenthesis'')"
| "col_loop start (c # s) =
     (if c = CHR '','' then ebind (col_loop s s) (\<lambda>(vs, t). Inr (between start (c # s) # vs, t))
      else if c = CHR '')'' then Inr ([between start (c # s)], s)
      else if c = CHR 0x27 then ebind (quote_loop s) (\<lambda>t. col_loop start t)
      else col_loop start s)"
  by pat_completeness auto
termination by (relation "measure (\<lambda>(_, s). length s)") (auto dest: quote_loop_shorter)

text \<open>\<open>None\<close> is the result -1 at the end of the statement; else the values, the text of the tuple and the next position.\<close>

definition getNextValues :: "string \<Rightarrow> (string list \<times> string \<times> string) option result" where
  "getNextValues s = (case s of
     [] \<Rightarrow> Inl (insert_error ''missing left parenthesis'')
   | c # r \<Rightarrow>
       if c = CHR '';'' then
         (if r \<noteq> [] \<and> (hd r \<noteq> CHR 0x0A \<or> tl r \<noteq> []) then Inl (insert_error (''line not finished with ;'' @ [CHR 0x0A]))
          else Inr None)
       else if c = CHR ''('' then
         ebind (col_loop r r) (\<lambda>(vs, t). Inr (Some (vs, between s t, if peek t = CHR '','' then tl t else t)))
       else Inl (insert_error ''missing left parenthesis''))"

section \<open>Filtering\<close>

definition strtoll10 :: "string \<Rightarrow> u64" where
  "strtoll10 s = clamp64 (int (fst (strto_digits 10 0 s)))"

fun fill_values :: "u32 \<Rightarrow> string list \<Rightarrow> (u32 \<rightharpoonup> u64) \<Rightarrow> (u32 \<rightharpoonup> u64)" where
  "fill_values i [] m = m"
| "fill_values i (v # vs) m = fill_values (i + 1) vs
     (if isdigit (peek v) then m(i \<mapsto> strtoll10 v) else if v = ''NULL'' then m(i \<mapsto> 0) else m)"

text \<open>The exceptions of the library, which \<^verbatim>\<open>xcatch (Exception, ex)\<close> catches.\<close>

definition is_exception :: "exn \<Rightarrow> bool" where
  "is_exception e = (case e of DivByZero \<Rightarrow> False | OutOfBounds \<Rightarrow> False | NullAccess \<Rightarrow> False | AssertFailed \<Rightarrow> False
     | Unreachable \<Rightarrow> False | Undefined \<Rightarrow> False | Diverges \<Rightarrow> False | _ \<Rightarrow> True)"

fun some_rule :: "arguments \<Rightarrow> expression list \<Rightarrow> bool result" where
  "some_rule args [] = Inr False"
| "some_rule args (e # es) = (case evaluate args e of
     Inr v \<Rightarrow> if v = 0 then some_rule args es else Inr True
   | Inl x \<Rightarrow> if is_exception x then some_rule args es else Inl x)"

lemma col_loop_shorter: "col_loop start s = Inr (vs, t) \<Longrightarrow> length t < length s"
  by (induction start s arbitrary: vs t rule: col_loop.induct)
    (fastforce dest: quote_loop_shorter simp: ebind_eq_Inr split: if_splits)+

lemma getNextValues_shorter: "getNextValues s = Inr (Some (vs, ins, t)) \<Longrightarrow> length t < length s"
  by (cases s) (auto simp: getNextValues_def ebind_eq_Inr dest!: col_loop_shorter split: if_splits)

function tuple_loop :: "(string \<rightharpoonup> u64) \<Rightarrow> string \<Rightarrow> expression list \<Rightarrow> string \<Rightarrow> string \<Rightarrow> nat \<Rightarrow> string result" where
  "tuple_loop cst tname tev s out n = ebind (getNextValues s) (\<lambda>r. case r of
     None \<Rightarrow> Inr (if n \<noteq> 0 then out @ '';'' @ [CHR 0x0A] else out)
   | Some (vs, ins, t) \<Rightarrow>
       ebind (some_rule \<lparr>constants = cst, vals = fill_values 0 vs Map.empty\<rparr> tev) (\<lambda>b.
         if b then tuple_loop cst tname tev t
           ((if n = 0 then out @ ''INSERT INTO '' @ tname @ '' VALUES '' else out @ '','') @ ins) (Suc n)
         else tuple_loop cst tname tev t out n))"
  by pat_completeness auto
termination by (relation "measure (\<lambda>(_, _, _, s, _, _). length s)") (auto dest: getNextValues_shorter)

declare tuple_loop.simps [simp del]

definition processOneData :: "rule_table \<Rightarrow> (string \<rightharpoonup> u64) \<Rightarrow> string \<Rightarrow> string result" where
  "processOneData evs cst line =
     (if \<not> starts_with (''INSERT INTO '' @ [CHR 0x60]) line then Inr []
      else let s = drop 13 line in
        if CHR 0x60 \<notin> set s then Inr []
        else let tname = takeWhile (\<lambda>c. c \<noteq> CHR 0x60) s; r = dropWhile is_space (tl (dropWhile (\<lambda>c. c \<noteq> CHR 0x60) s)) in
          if \<not> starts_with ''VALUES'' r then Inr []
          else (case evs tname of None \<Rightarrow> Inr []
            | Some tev \<Rightarrow> tuple_loop cst tname tev (dropWhile is_space (drop 6 r)) [] 0))"

section \<open>Printed tuples\<close>

text \<open>
  A column is a sequence of bare characters and quoted parts; a quoted part is a sequence of plain and escaped
  characters.  This is the grammar the tuples are read back against.
\<close>

datatype quoted = Plain char | Escaped char

datatype piece = Bare char | Quoted "quoted list"

type_synonym column = "piece list"

fun print_quoted :: "quoted \<Rightarrow> string" where
  "print_quoted (Plain c) = [c]"
| "print_quoted (Escaped c) = [CHR 0x5C, c]"

fun print_piece :: "piece \<Rightarrow> string" where
  "print_piece (Bare c) = [c]"
| "print_piece (Quoted qs) = CHR 0x27 # concat (map print_quoted qs) @ [CHR 0x27]"

definition print_column :: "column \<Rightarrow> string" where
  "print_column col = concat (map print_piece col)"

fun valid_quoted :: "quoted \<Rightarrow> bool" where
  "valid_quoted (Plain c) = (c \<noteq> CHR 0x27 \<and> c \<noteq> CHR 0x5C)"
| "valid_quoted (Escaped c) = True"

fun valid_piece :: "piece \<Rightarrow> bool" where
  "valid_piece (Bare c) = (c \<noteq> CHR '','' \<and> c \<noteq> CHR '')'' \<and> c \<noteq> CHR 0x27)"
| "valid_piece (Quoted qs) = list_all valid_quoted qs"

fun join :: "string \<Rightarrow> string list \<Rightarrow> string" where
  "join sep [] = []"
| "join sep [x] = x"
| "join sep (x # y # xs) = x @ sep @ join sep (y # xs)"

definition print_row :: "column list \<Rightarrow> string" where
  "print_row row = ''('' @ join '','' (map print_column row) @ '')''"

definition valid_row :: "column list \<Rightarrow> bool" where
  "valid_row row \<longleftrightarrow> row \<noteq> [] \<and> list_all (list_all valid_piece) row"

lemma quote_loop_printed:
  "list_all valid_quoted qs \<Longrightarrow> quote_loop (concat (map print_quoted qs) @ CHR 0x27 # t) = Inr t"
proof (induction qs)
  case (Cons q qs)
  then show ?case by (cases q) auto
qed simp

lemma col_loop_piece:
  "valid_piece p \<Longrightarrow> col_loop start (print_piece p @ t) = col_loop start t"
  by (cases p) (auto simp: quote_loop_printed)

lemma col_loop_column:
  "list_all valid_piece col \<Longrightarrow> col_loop start (print_column col @ t) = col_loop start t"
  by (induction col) (auto simp: print_column_def col_loop_piece)

lemma between_prefix [simp]: "between (xs @ ys) ys = xs"
  by (simp add: between_def)

lemma between_char: "between (xs @ c # ys) (c # ys) = xs"
  by (simp add: between_def)

lemma col_loop_row:
  assumes "valid_row row"
  shows "col_loop (join '','' (map print_column row) @ CHR '')'' # t) (join '','' (map print_column row) @ CHR '')'' # t) =
    Inr (map print_column row, t)"
  using assms
proof (induction row rule: induct_list012)
  case (2 col)
  then have "list_all valid_piece col" by (simp add: valid_row_def)
  then show ?case by (simp add: col_loop_column between_char)
next
  case (3 col col' row)
  then have v: "list_all valid_piece col" "valid_row (col' # row)" by (simp_all add: valid_row_def)
  let ?r = "join '','' (map print_column (col' # row)) @ CHR '')'' # t"
  have "col_loop (print_column col @ CHR '','' # ?r) (print_column col @ CHR '','' # ?r) =
      ebind (col_loop ?r ?r) (\<lambda>(vs, t). Inr (print_column col # vs, t))"
    using v(1) by (simp add: col_loop_column between_char)
  also have "\<dots> = Inr (map print_column (col # col' # row), t)" using "3.IH"(2) [OF v(2)] by simp
  finally show ?case by simp
qed (simp add: valid_row_def)

lemma getNextValues_row:
  assumes "valid_row row"
  shows "getNextValues (print_row row @ t) =
    Inr (Some (map print_column row, print_row row, if peek t = CHR '','' then tl t else t))"
proof -
  have "print_row row @ t = CHR ''('' # join '','' (map print_column row) @ CHR '')'' # t"
    by (simp add: print_row_def)
  moreover have "between (print_row row @ t) t = print_row row" by simp
  ultimately show ?thesis using col_loop_row [OF assms, of t] by (simp add: getNextValues_def)
qed

definition row_args :: "(string \<rightharpoonup> u64) \<Rightarrow> column list \<Rightarrow> arguments" where
  "row_args cst row = \<lparr>constants = cst, vals = fill_values 0 (map print_column row) Map.empty\<rparr>"

text \<open>A row is selected when an expression of the table is not zero; \<open>calm\<close> excludes expressions that crash.\<close>

definition selected :: "(string \<rightharpoonup> u64) \<Rightarrow> expression list \<Rightarrow> column list \<Rightarrow> bool" where
  "selected cst tev row \<longleftrightarrow> list_ex (\<lambda>e. case evaluate (row_args cst row) e of Inr v \<Rightarrow> v \<noteq> 0 | Inl x \<Rightarrow> False) tev"

definition calm :: "(string \<rightharpoonup> u64) \<Rightarrow> expression list \<Rightarrow> column list \<Rightarrow> bool" where
  "calm cst tev row \<longleftrightarrow> list_all (\<lambda>e. case evaluate (row_args cst row) e of Inr v \<Rightarrow> True | Inl x \<Rightarrow> is_exception x) tev"

lemma some_rule_selected: "calm cst tev row \<Longrightarrow> some_rule (row_args cst row) tev = Inr (selected cst tev row)"
  by (induction tev) (auto simp: calm_def selected_def split: sum.splits)

definition endings :: "string set" where
  "endings = {'';'', '';'' @ [CHR 0x0A]}"

fun gather :: "string \<Rightarrow> nat \<Rightarrow> string \<Rightarrow> string list \<Rightarrow> string" where
  "gather head n out [] = (if n \<noteq> 0 then out @ '';'' @ [CHR 0x0A] else out)"
| "gather head n out (x # xs) = gather head (Suc n) ((if n = 0 then out @ head else out @ '','') @ x) xs"

lemma gather_more: "gather head (Suc n) out xs = out @ concat (map (\<lambda>x. '','' @ x) xs) @ '';'' @ [CHR 0x0A]"
  by (induction xs arbitrary: n out) auto

lemma join_comma: "join '','' (x # xs) = x @ concat (map (\<lambda>x. '','' @ x) xs)"
  by (induction xs arbitrary: x) auto

lemma gather_start: "gather head 0 [] xs = (if xs = [] then [] else head @ join '','' xs @ '';'' @ [CHR 0x0A])"
  by (cases xs) (simp_all add: gather_more join_comma)

lemma getNextValues_ending: "t \<in> endings \<Longrightarrow> getNextValues t = Inr None"
  by (auto simp: endings_def getNextValues_def)

lemma tuple_loop_rows:
  assumes "list_all valid_row rows" "list_all (calm cst tev) rows" "t \<in> endings"
  shows "tuple_loop cst tname tev (join '','' (map print_row rows) @ t) out n =
    Inr (gather (''INSERT INTO '' @ tname @ '' VALUES '') n out (map print_row (filter (selected cst tev) rows)))"
  using assms(1,2)
proof (induction rows arbitrary: out n)
  case Nil
  then show ?case by (subst tuple_loop.simps) (simp add: getNextValues_ending [OF assms(3)])
next
  case (Cons row rows)
  have v: "valid_row row" "calm cst tev row" using Cons.prems by simp_all
  let ?rest = "join '','' (map print_row rows) @ t"
  have peek: "peek t \<noteq> CHR '',''" using assms(3) by (auto simp: endings_def peek_def)
  have "\<exists>u. join '','' (map print_row (row # rows)) @ t = print_row row @ u \<and>
      (if peek u = CHR '','' then tl u else u) = ?rest"
    using peek by (cases rows) (auto simp: peek_def)
  then obtain u where u: "join '','' (map print_row (row # rows)) @ t = print_row row @ u"
      "(if peek u = CHR '','' then tl u else u) = ?rest"
    by blast
  have args: "\<lparr>constants = cst, vals = fill_values 0 (map print_column row) Map.empty\<rparr> = row_args cst row"
    by (simp add: row_args_def)
  show ?case
    unfolding u(1) by (subst tuple_loop.simps)
      (use Cons.IH Cons.prems in \<open>simp add: getNextValues_row [OF v(1)] u(2) args some_rule_selected [OF v(2)]\<close>)
qed

lemma row_no_space: "rows \<noteq> [] \<Longrightarrow> dropWhile is_space (join '','' (map print_row rows) @ t) = join '','' (map print_row rows) @ t"
  by (cases rows; cases "tl rows") (auto simp: print_row_def is_space_def code_def)

definition insert_statement :: "string \<Rightarrow> column list list \<Rightarrow> string \<Rightarrow> string" where
  "insert_statement tname rows t =
     ''INSERT INTO '' @ [CHR 0x60] @ tname @ [CHR 0x60] @ '' VALUES '' @ join '','' (map print_row rows) @ t"

lemma processOneData_statement:
  assumes "CHR 0x60 \<notin> set tname" "rows \<noteq> []"
  shows "processOneData evs cst (insert_statement tname rows t) = (case evs tname of None \<Rightarrow> Inr []
    | Some tev \<Rightarrow> tuple_loop cst tname tev (join '','' (map print_row rows) @ t) [] 0)"
proof -
  let ?b = "join '','' (map print_row rows) @ t"
  have 1: "takeWhile (\<lambda>c. c \<noteq> CHR 0x60) (tname @ CHR 0x60 # '' VALUES '' @ ?b) = tname"
    "dropWhile (\<lambda>c. c \<noteq> CHR 0x60) (tname @ CHR 0x60 # '' VALUES '' @ ?b) = CHR 0x60 # '' VALUES '' @ ?b"
    using assms(1) by (auto simp: takeWhile_append dropWhile_append)
  have d: "drop 13 (insert_statement tname rows t) = tname @ CHR 0x60 # '' VALUES '' @ ?b"
    "starts_with (''INSERT INTO '' @ [CHR 0x60]) (insert_statement tname rows t)"
    by (simp_all add: insert_statement_def starts_with_def eval_nat_numeral)
  show ?thesis unfolding processOneData_def Let_def d
    using d(2) 1 row_no_space [OF assms(2), of t]
    by (simp add: starts_with_def is_space_def code_def eval_nat_numeral split: option.splits)
qed

section \<open>Printed rules\<close>

definition valid_rule :: "string \<times> expression \<Rightarrow> bool" where
  "valid_rule r \<longleftrightarrow> fst r \<noteq> [] \<and> list_all isident (fst r) \<and> printable (snd r)"

definition rule_line :: "string \<times> expression \<Rightarrow> string" where
  "rule_line r = fst r @ '':'' @ print (snd r) @ [CHR 0x0A]"

definition table_rules :: "(string \<times> expression) list \<Rightarrow> string \<Rightarrow> expression list" where
  "table_rules rules tname = map snd (filter (\<lambda>r. fst r = tname) rules)"

lemma decimal_last: "decimal n \<noteq> [] \<and> isdigit (last (decimal n))"
  by (simp add: decimal.simps [of n] isdigit_def code_def)

lemma name_not_space: "isname c \<or> isident c \<or> isdigit c \<Longrightarrow> \<not> is_space c"
  by (auto simp: isname_def isident_def isalpha_def isdigit_def is_space_def code_def)

lemma print_last: "printable e \<Longrightarrow> print e \<noteq> [] \<and> \<not> is_space (last (print e))"
  using decimal_last name_not_space
  by (cases e) (auto simp: var_name_def createNumber_def is_space_def code_def)

lemma trim_right_line: "s \<noteq> [] \<Longrightarrow> \<not> is_space (last s) \<Longrightarrow> trim_right (s @ [CHR 0x0A]) = Inr s"
  by (auto simp: trim_right.simps [of "s @ [CHR 0x0A]"] trim_right.simps [of s] is_space_def code_def)

lemma parse_rule_line:
  assumes "valid_rule (tname, e)"
  shows "parse_rule (rule_line (tname, e)) = Inr (Some (tname, print e))"
proof -
  have t: "tname \<noteq> []" "list_all isident tname" "printable e" using assms by (auto simp: valid_rule_def)
  have "trim_right (rule_line (tname, e)) = Inr (tname @ '':'' @ print e)"
    using trim_right_line [of "tname @ '':'' @ print e"] print_last [OF t(3)] by (simp add: rule_line_def)
  moreover obtain c cs where c: "tname = c # cs" "isident c" using t(1,2) by (cases tname) auto
  moreover have "\<not> is_space c" "c \<noteq> CHR ''#''" "c \<noteq> CHR 0x00" "\<not> isident CHR '':''" "\<not> is_space CHR '':''"
    using name_not_space [of c] c(2) by (auto simp: isident_def isalpha_def isdigit_def is_space_def code_def)
  moreover have "dropWhile isident (tname @ '':'' @ print e) = '':'' @ print e"
    "takeWhile isident (tname @ '':'' @ print e) = tname"
    using t(2) \<open>\<not> isident CHR '':''\<close> by (auto simp: list_all_iff dropWhile_append takeWhile_append)
  ultimately show ?thesis by (simp add: parse_rule_def peek_def)
qed

lemma addRuleFile_lines:
  "list_all valid_rule rules \<Longrightarrow> addRuleFile (map rule_line rules) evs = (Inr (), (\<lambda>t.
     if table_rules rules t = [] then evs t
     else Some ((case evs t of None \<Rightarrow> [] | Some es \<Rightarrow> es) @ table_rules rules t)))"
proof (induction rules arbitrary: evs)
  case Nil
  then show ?case by (simp add: sreturn_def table_rules_def)
next
  case (Cons r rules)
  obtain tname e where r: "r = (tname, e)" by (cases r)
  have v: "valid_rule (tname, e)" "list_all valid_rule rules" using Cons.prems r by simp_all
  have e: "printable e" using v(1) by (simp add: valid_rule_def)
  have "append_rule tname (print e) evs = (Inr (), evs(tname \<mapsto> (case evs tname of None \<Rightarrow> [] | Some es \<Rightarrow> es) @ [e]))"
    by (auto simp: append_rule_def IntEvaluator_print [OF e] split: option.splits)
  then show ?case using Cons.IH [OF v(2)] parse_rule_line [OF v(1)]
    by (auto simp: r sbind_def table_rules_def fun_eq_iff)
qed

section \<open>Errors\<close>

lemma quote_loop_error: "quote_loop s = Inl e \<Longrightarrow> \<exists>m. e = insert_error m"
  by (induction s rule: quote_loop.induct) (auto split: if_splits list.splits)

lemma col_loop_error: "col_loop start s = Inl e \<Longrightarrow> \<exists>m. e = insert_error m"
  by (induction start s rule: col_loop.induct)
    (auto simp: ebind_def split: if_splits sum.splits dest: quote_loop_error)

lemma getNextValues_error: "getNextValues s = Inl e \<Longrightarrow> \<exists>m. e = insert_error m"
  by (auto simp: getNextValues_def ebind_def split: if_splits sum.splits list.splits dest: col_loop_error)

lemma some_rule_error: "some_rule args tev = Inl e \<Longrightarrow> \<exists>ex \<in> set tev. evaluate args ex = Inl e \<and> \<not> is_exception e"
  by (induction tev) (auto split: sum.splits if_splits)

lemma tuple_loop_error:
  "tuple_loop cst tname tev s out n = Inl e \<Longrightarrow> (\<exists>m. e = insert_error m) \<or>
   (\<exists>args. \<exists>ex \<in> set tev. evaluate args ex = Inl e \<and> \<not> is_exception e)"
proof (induction cst tname tev s out n rule: tuple_loop.induct)
  case (1 cst tname tev s out n)
  show ?case
  proof (cases "getNextValues s")
    case (Inl x)
    then show ?thesis using "1.prems" getNextValues_error [OF Inl] by (subst (asm) tuple_loop.simps) simp
  next
    case (Inr r)
    then show ?thesis using 1 some_rule_error
      by (subst (asm) (3) tuple_loop.simps) (fastforce simp: ebind_def split: option.splits sum.splits if_splits)
  qed
qed

lemma trim_right_blank: "list_all is_space line \<Longrightarrow> trim_right line = Inl OutOfBounds"
proof (induction line rule: rev_induct)
  case (snoc c line)
  then show ?case by (subst trim_right.simps) simp
qed (simp add: trim_right.simps)

text \<open>A line of spaces in a rule file, an empty line of the file in particular, makes the reader look in front of the line.\<close>

theorem sql_blank_rule_line:
  assumes "list_all is_space line"
  shows "addRuleFile (line # lines) evs = (Inl OutOfBounds, evs)"
  using trim_right_blank [OF assms] by (simp add: parse_rule_def sthrow_def)

section \<open>Properties\<close>

text \<open>
  A tuple of columns made of bare characters and quoted parts with escapes is split into exactly these columns, with its own
  text and the position behind it (and behind a comma).
\<close>

theorem sql_row_roundtrip:
  assumes "valid_row row"
  shows "getNextValues (print_row row @ t) =
    Inr (Some (map print_column row, print_row row, if peek t = CHR '','' then tl t else t))"
  using assms by (rule getNextValues_row)

definition sample_row :: "column list" where
  "sample_row = [[Bare CHR ''1''], [Quoted [Plain CHR '')'', Escaped CHR 0x27, Plain CHR '','']]]"

theorem sql_row_roundtrip_witness:
  "getNextValues (print_row sample_row @ '',x'') = Inr (Some (map print_column sample_row, print_row sample_row, ''x''))"
  using sql_row_roundtrip [of sample_row "'',x''"] by (simp add: sample_row_def valid_row_def peek_def)

text \<open>
  C12: The filter end to end: with the rules of a rule file, an \<^verbatim>\<open>INSERT\<close> statement is turned into the statement with exactly the
  tuples for which one of the table's expressions is not zero, in their order and with their text unchanged, and into
  nothing if there is none (or no rule for the table); an expression that throws counts as zero.
\<close>

theorem sql_filter_selects:
  assumes "list_all valid_rule rules" "CHR 0x60 \<notin> set tname" "rows \<noteq> []" "list_all valid_row rows" "t \<in> endings"
    "list_all (calm cst (table_rules rules tname)) rows"
  shows "\<exists>evs. addRuleFile (map rule_line rules) Map.empty = (Inr (), evs) \<and>
    processOneData evs cst (insert_statement tname rows t) = Inr (
      let kept = filter (selected cst (table_rules rules tname)) rows in
      if kept = [] then []
      else ''INSERT INTO '' @ tname @ '' VALUES '' @ join '','' (map print_row kept) @ '';'' @ [CHR 0x0A])"
proof -
  have "selected cst [] = (\<lambda>_. False)" by (auto simp: selected_def)
  then show ?thesis using tuple_loop_rows [OF assms(4,6,5), of tname "[]" 0] assms(1-3)
    by (auto simp: addRuleFile_lines processOneData_statement gather_start)
qed

theorem sql_filter_selects_witness:
  "\<exists>evs. addRuleFile (map rule_line [(''t'', ValueExpression 0)]) Map.empty = (Inr (), evs) \<and>
    processOneData evs Map.empty (insert_statement ''t'' [sample_row, [[Bare CHR ''0'']], [[Bare CHR ''7'']]] '';'') =
      Inr (''INSERT INTO t VALUES '' @ print_row sample_row @ '',(7);'' @ [CHR 0x0A])"
proof -
  let ?rows = "[sample_row, [[Bare CHR ''0'']], [[Bare CHR ''7'']]]" and ?rules = "[(''t'', ValueExpression 0)]"
  have n: "strtoll10 ''0'' = 0" "strtoll10 ''7'' = 7" "strtoll10 ''1'' = 1"
    by (simp_all add: strtoll10_def clamp64_def digit_num_def isdigit_def code_def)
  have v: "getValue (row_args Map.empty sample_row) 0 = Inr 1" "getValue (row_args Map.empty [[Bare CHR ''0'']]) 0 = Inr 0"
      "getValue (row_args Map.empty [[Bare CHR ''7'']]) 0 = Inr 7"
    using n by (simp_all add: getValue_def row_args_def sample_row_def print_column_def isdigit_def code_def peek_def)
  have "list_all valid_rule ?rules" by (simp add: valid_rule_def isident_def isalpha_def code_def)
  moreover have "list_all valid_row ?rows" by (simp add: valid_row_def sample_row_def)
  moreover have "table_rules ?rules ''t'' = [ValueExpression 0]" by (simp add: table_rules_def)
  moreover have "'';'' \<in> endings" by (simp add: endings_def)
  ultimately show ?thesis using sql_filter_selects [of ?rules "''t''" ?rows "'';''" Map.empty] v
    by (simp add: calm_def selected_def print_row_def print_column_def)
qed

text \<open>
  C39: On every line the filter ends with an output, with an \<open>InvalidFormatException\<close> about the statement, or because
  the evaluation of one of the table's expressions crashes; it never reads behind the line.
\<close>

theorem sql_filter_total:
  "(\<exists>out. processOneData evs cst line = Inr out) \<or> (\<exists>m. processOneData evs cst line = Inl (insert_error m)) \<or>
   (\<exists>tname tev args ex x. evs tname = Some tev \<and> ex \<in> set tev \<and> evaluate args ex = Inl x \<and> is_exception x = False \<and>
     processOneData evs cst line = Inl x)"
proof (cases "processOneData evs cst line")
  case (Inl x)
  then obtain tname tev s where "evs tname = Some tev" "tuple_loop cst tname tev s [] 0 = Inl x"
    by (auto simp: processOneData_def Let_def split: if_splits option.splits)
  then show ?thesis using tuple_loop_error [of cst tname tev s "[]" 0 x] Inl by blast
qed blast

end
