(* ===== verification/Drt_SqlQueue.thy ===== *)
theory Drt_SqlQueue
  imports Drt_Sqldump
begin

text \<open>
  The SQL dump filter as a program of several threads: the queue of \<^verbatim>\<open>QueueManager.cxx\<close>, its workers
  (\<^verbatim>\<open>runWorker\<close>) and the main loop \<^verbatim>\<open>processExtract\<close> of \<^verbatim>\<open>src/src/sql/sqldump_filt/base/main.cxx\<close>.  What is done while
  \<^verbatim>\<open>access_lock\<close> is held is one step.  A thread that waits for the condition is a thread whose step is not enabled: the
  condition variable only decides when it looks again.  The counters are \<^verbatim>\<open>Sint64\<close> and do not wrap
  before \<open>2 ^ 63\<close> lines.  \<open>process\<close> is \<^verbatim>\<open>processOneData\<close> with its line number.
\<close>

section \<open>Data\<close>

datatype wstage = WNone | WFetch | WBusy nat string | WDone nat string | WStopped

datatype mstage = MRead | MPop | MDrain | MEnd

record queue =
  waiting_data :: "string list"
  processed_data :: "nat \<rightharpoonup> string"
  processed_count :: nat
  proc_counter :: nat
  return_counter :: nat
  all_workers :: nat
  num_free_workers :: u32
  max_workers :: u32
  max_pending :: u32
  worker :: "nat \<Rightarrow> wstage"
  main :: mstage
  unread :: "string list"
  written :: "string list"
  fed :: "string list"

text \<open>The state after the options have been read: \<open>lines\<close> is what the standard input holds.\<close>

definition start_queue :: "u32 \<Rightarrow> u32 \<Rightarrow> string list \<Rightarrow> queue" where
  "start_queue workers pending lines = \<lparr>waiting_data = [], processed_data = Map.empty, processed_count = 0,
     proc_counter = 0, return_counter = 0, all_workers = 0, num_free_workers = 0, max_workers = workers,
     max_pending = pending, worker = (\<lambda>_. WNone), main = MRead, unread = lines, written = [], fed = []\<rparr>"

section \<open>The queue\<close>

text \<open>\<^verbatim>\<open>getNextWork\<close>: -1 when the queue is being destroyed, a line and its number, or the thread waits (\<open>None\<close>).\<close>

definition getNextWork :: "queue \<Rightarrow> (int \<times> string) option \<times> queue" where
  "getNextWork q = (if max_workers q = 0 then (Some (-1, []), q)
     else case waiting_data q of
       data # rest \<Rightarrow> (Some (int (proc_counter q), data), q\<lparr>waiting_data := rest,
         proc_counter := proc_counter q + 1, num_free_workers := num_free_workers q - 1\<rparr>)
     | [] \<Rightarrow> (None, q))"

definition put_processed :: "nat \<Rightarrow> string \<Rightarrow> queue \<Rightarrow> queue" where
  "put_processed i data q = q\<lparr>processed_data := (processed_data q)(i \<mapsto> data),
     processed_count := (if processed_data q i = None then processed_count q + 1 else processed_count q)\<rparr>"

definition putProcessedData :: "nat \<Rightarrow> string \<Rightarrow> queue \<Rightarrow> queue" where
  "putProcessedData i data q = (put_processed i data q)\<lparr>num_free_workers := num_free_workers q + 1\<rparr>"

definition create_worker :: "queue \<Rightarrow> queue" where
  "create_worker q = q\<lparr>worker := (worker q)(all_workers q := WFetch), all_workers := all_workers q + 1,
     num_free_workers := num_free_workers q + 1\<rparr>"

text \<open>\<open>pop_data\<close> is computed with \<^verbatim>\<open>size_t\<close>, which wraps when there are more free workers than lines.\<close>

definition pop_data :: "queue \<Rightarrow> bool" where
  "pop_data q \<longleftrightarrow> (of_nat (length (waiting_data q)) + of_nat (processed_count q) - ucast (num_free_workers q) :: u64)
     > ucast (max_pending q) \<or> processed_data q (return_counter q) \<noteq> None"

definition putNextWork :: "string \<Rightarrow> queue \<Rightarrow> bool \<times> queue" where
  "putNextWork data q = (let q1 = q\<lparr>waiting_data := waiting_data q @ [data]\<rparr>;
     q2 = (if unat (num_free_workers q1) < length (waiting_data q1) \<and> all_workers q1 < unat (max_workers q1)
       then create_worker q1 else q1) in (pop_data q2, q2))"

text \<open>One turn of \<^verbatim>\<open>waitProcessedData\<close>: the next result, \<^verbatim>\<open>Null\<close> (\<open>Some None\<close>), or the thread waits (\<open>None\<close>).\<close>

definition waitProcessedData :: "queue \<Rightarrow> string option option \<times> queue" where
  "waitProcessedData q = (case processed_data q (return_counter q) of
     Some data \<Rightarrow> (Some (Some data), q\<lparr>processed_data := (processed_data q)(return_counter q := None),
       processed_count := processed_count q - 1, return_counter := return_counter q + 1\<rparr>)
   | None \<Rightarrow> if return_counter q = proc_counter q then (Some None, q) else (None, q))"

definition destroy_queue :: "queue \<Rightarrow> queue" where
  "destroy_queue q = q\<lparr>max_workers := 0\<rparr>"

section \<open>The threads\<close>

definition set_worker :: "nat \<Rightarrow> wstage \<Rightarrow> queue \<Rightarrow> queue" where
  "set_worker w st q = q\<lparr>worker := (worker q)(w := st)\<rparr>"

text \<open>\<^verbatim>\<open>runWorker\<close>.\<close>

inductive worker_step :: "(nat \<Rightarrow> string \<Rightarrow> string) \<Rightarrow> queue \<Rightarrow> queue \<Rightarrow> bool" for process where
  fetch: "worker q w = WFetch \<Longrightarrow> getNextWork q = (Some (i, data), q1) \<Longrightarrow> i \<ge> 0 \<Longrightarrow>
    worker_step process q (set_worker w (WBusy (nat i) data) q1)"
| stop: "worker q w = WFetch \<Longrightarrow> getNextWork q = (Some (i, data), q1) \<Longrightarrow> i < 0 \<Longrightarrow>
    worker_step process q (set_worker w WStopped q1)"
| work: "worker q w = WBusy i data \<Longrightarrow> worker_step process q (set_worker w (WDone i (process (i + 1) data)) q)"
| deliver: "worker q w = WDone i data \<Longrightarrow> worker_step process q (set_worker w WFetch (putProcessedData i data q))"

definition write_out :: "string \<Rightarrow> queue \<Rightarrow> queue" where
  "write_out data q = q\<lparr>written := written q @ [data]\<rparr>"

text \<open>\<^verbatim>\<open>processExtract\<close> and the destruction of the queue at the end of \<^verbatim>\<open>main\<close>.  Writing \<^verbatim>\<open>Null\<close> writes nothing.\<close>

definition feed :: "string \<Rightarrow> string list \<Rightarrow> queue \<Rightarrow> queue" where
  "feed line lines q = (case putNextWork line (q\<lparr>unread := lines, fed := fed q @ [line]\<rparr>) of
     (pop, q1) \<Rightarrow> q1\<lparr>main := (if pop then MPop else MRead)\<rparr>)"

inductive main_step :: "queue \<Rightarrow> queue \<Rightarrow> bool" where
  read: "main q = MRead \<Longrightarrow> unread q = line # lines \<Longrightarrow> main_step q (feed line lines q)"
| read_end: "main q = MRead \<Longrightarrow> unread q = [] \<Longrightarrow> main_step q (q\<lparr>main := MDrain\<rparr>)"
| pop: "main q = MPop \<Longrightarrow> waitProcessedData q = (Some (Some data), q1) \<Longrightarrow> main_step q ((write_out data q1)\<lparr>main := MRead\<rparr>)"
| pop_null: "main q = MPop \<Longrightarrow> waitProcessedData q = (Some None, q1) \<Longrightarrow> main_step q (q1\<lparr>main := MRead\<rparr>)"
| drain: "main q = MDrain \<Longrightarrow> waitProcessedData q = (Some (Some data), q1) \<Longrightarrow> main_step q (write_out data q1)"
| finish: "main q = MDrain \<Longrightarrow> waitProcessedData q = (Some None, q1) \<Longrightarrow> main_step q (destroy_queue (q1\<lparr>main := MEnd\<rparr>))"

definition filter_step :: "(nat \<Rightarrow> string \<Rightarrow> string) \<Rightarrow> queue \<Rightarrow> queue \<Rightarrow> bool" where
  "filter_step process q r \<longleftrightarrow> worker_step process q r \<or> main_step q r"

section \<open>The invariant\<close>

definition answer :: "(nat \<Rightarrow> string \<Rightarrow> string) \<Rightarrow> queue \<Rightarrow> nat \<Rightarrow> string" where
  "answer process q i = process (i + 1) (fed q ! i)"

fun item_of :: "wstage \<Rightarrow> nat option" where
  "item_of (WBusy i data) = Some i"
| "item_of (WDone i data) = Some i"
| "item_of _ = None"

definition in_work :: "queue \<Rightarrow> nat \<Rightarrow> bool" where
  "in_work q i \<longleftrightarrow> (\<exists>w. item_of (worker q w) = Some i)"

definition stage_ok :: "(nat \<Rightarrow> string \<Rightarrow> string) \<Rightarrow> queue \<Rightarrow> wstage \<Rightarrow> bool" where
  "stage_ok process q st \<longleftrightarrow> (case st of
     WBusy i data \<Rightarrow> i < proc_counter q \<and> data = fed q ! i
   | WDone i data \<Rightarrow> i < proc_counter q \<and> data = answer process q i
   | _ \<Rightarrow> True)"

definition queue_inv :: "(nat \<Rightarrow> string \<Rightarrow> string) \<Rightarrow> string list \<Rightarrow> queue \<Rightarrow> bool" where
  "queue_inv process lines q \<longleftrightarrow>
     fed q @ unread q = lines \<and> proc_counter q \<le> length (fed q) \<and> waiting_data q = drop (proc_counter q) (fed q) \<and>
     return_counter q \<le> proc_counter q \<and> written q = map (answer process q) [0..<return_counter q] \<and>
     (\<forall>i data. processed_data q i = Some data \<longrightarrow> i < proc_counter q \<and> data = answer process q i) \<and>
     (\<forall>w. stage_ok process q (worker q w)) \<and> (\<forall>w \<ge> all_workers q. worker q w = WNone) \<and>
     (\<forall>i. return_counter q \<le> i \<longrightarrow> i < proc_counter q \<longrightarrow> processed_data q i \<noteq> None \<or> in_work q i)"

lemma queue_inv_start: "queue_inv process lines (start_queue n m lines)"
  by (simp add: queue_inv_def start_queue_def stage_ok_def)

lemma in_work_step:
  assumes "in_work q j" "worker r = (worker q)(w := st)" "item_of (worker q w) = Some j \<longrightarrow> item_of st = Some j"
  shows "in_work r j"
proof -
  obtain v where v: "item_of (worker q v) = Some j" using assms(1) by (auto simp: in_work_def)
  have "item_of (worker r v) = Some j" using v assms(2,3) by (cases "v = w") auto
  then show ?thesis by (auto simp: in_work_def)
qed

text \<open>A step of a worker that leaves the queue alone, but for the results.\<close>

lemma queue_inv_worker:
  assumes "queue_inv process lines q" "worker r = (worker q)(w := st)" "stage_ok process q st"
    and "waiting_data r = waiting_data q" "proc_counter r = proc_counter q" "return_counter r = return_counter q"
    "fed r = fed q" "unread r = unread q" "written r = written q"
    and "\<And>i data. processed_data r i = Some data \<Longrightarrow>
      processed_data q i = Some data \<or> i < proc_counter q \<and> data = answer process q i"
    and "\<And>i. item_of (worker q w) = Some i \<Longrightarrow> item_of st = Some i \<or> processed_data r i \<noteq> None"
    and "\<And>i. processed_data q i \<noteq> None \<Longrightarrow> processed_data r i \<noteq> None"
    and "all_workers r = all_workers q" "worker q w \<noteq> WNone"
  shows "queue_inv process lines r"
proof -
  have a: "answer process r = answer process q" using assms(7) by (simp add: answer_def fun_eq_iff)
  have so: "stage_ok process r x = stage_ok process q x" for x
    unfolding stage_ok_def a by (simp add: assms(5,7) split: wstage.split)
  have "processed_data r i \<noteq> None \<or> in_work r i" if "return_counter q \<le> i" "i < proc_counter q" for i
  proof (cases "processed_data r i")
    case None
    have "processed_data q i = None"
    proof (rule ccontr)
      assume "processed_data q i \<noteq> None"
      from assms(12) [OF this] None show False by simp
    qed
    then have "in_work q i" using that assms(1) by (auto simp: queue_inv_def)
    then show ?thesis using in_work_step [OF _ assms(2), of i] assms(11) None by blast
  qed simp
  moreover have "stage_ok process r (worker r v)" for v
    using assms(1-3) so by (simp add: queue_inv_def)
  moreover have "\<forall>v \<ge> all_workers r. worker r v = WNone" using assms(1,2,13,14) by (auto simp: queue_inv_def)
  moreover have "i < proc_counter q \<and> data = answer process q i" if "processed_data r i = Some data" for i data
    using assms(1) assms(10) [OF that] by (auto simp: queue_inv_def)
  ultimately show ?thesis using assms(1) unfolding queue_inv_def a assms(4-9) by auto
qed

lemma fetch_inv:
  assumes "queue_inv process lines q" "worker q w = WFetch" "waiting_data q = data # rest"
  shows "queue_inv process lines (set_worker w (WBusy (proc_counter q) data) (q\<lparr>waiting_data := rest,
    proc_counter := proc_counter q + 1, num_free_workers := num_free_workers q - 1\<rparr>))" (is "queue_inv _ _ ?r")
proof -
  have dr: "drop (proc_counter q) (fed q) = data # rest" using assms(1,3) by (simp add: queue_inv_def)
  then have n: "proc_counter q < length (fed q)" by (cases "proc_counter q < length (fed q)") auto
  then have d: "data = fed q ! proc_counter q" "rest = drop (Suc (proc_counter q)) (fed q)"
    using dr Cons_nth_drop_Suc [of "proc_counter q" "fed q"] by auto
  have r: "worker ?r = (worker q)(w := WBusy (proc_counter q) data)" by (simp add: set_worker_def)
  have old: "in_work ?r i" if "in_work q i" for i
    by (rule in_work_step [OF that r]) (simp add: assms(2))
  have new: "in_work ?r (proc_counter q)" unfolding in_work_def by (rule exI [of _ w]) (simp add: set_worker_def)
  have "stage_ok process ?r (worker ?r v)" for v
  proof -
    have "stage_ok process q (worker q v)" using assms(1) by (simp add: queue_inv_def)
    then show ?thesis using d(1) by (cases "v = w") (auto simp: set_worker_def stage_ok_def answer_def split: wstage.splits)
  qed
  moreover have "\<forall>v \<ge> all_workers ?r. worker ?r v = WNone" using assms(1,2) by (auto simp: queue_inv_def set_worker_def)
  ultimately show ?thesis using assms(1) n d(2) old new unfolding queue_inv_def
    by (auto simp: set_worker_def answer_def less_Suc_eq)
qed

lemma worker_step_inv:
  assumes "worker_step process q r" "queue_inv process lines q"
  shows "queue_inv process lines r"
proof -
  have ok: "stage_ok process q (worker q w)" for w using assms(2) by (simp add: queue_inv_def)
  show ?thesis using assms(1)
  proof cases
    case (fetch w i data q1)
    then show ?thesis using fetch_inv [OF assms(2) fetch(2), of data]
      by (auto simp: getNextWork_def split: if_splits list.splits)
  next
    case (stop w i data q1)
    then have "q1 = q" by (auto simp: getNextWork_def split: if_splits list.splits)
    then show ?thesis unfolding stop(1)
      by (intro queue_inv_worker [OF assms(2), of _ w WStopped]) (use stop(2) in \<open>simp_all add: set_worker_def stage_ok_def\<close>)
  next
    case (work w i data)
    show ?thesis unfolding work(1)
      by (rule queue_inv_worker [OF assms(2), of _ w "WDone i (process (i + 1) data)"])
        (use work(2) ok [of w] in \<open>simp_all add: set_worker_def stage_ok_def answer_def\<close>)
  next
    case (deliver w i data)
    show ?thesis unfolding deliver(1)
      by (rule queue_inv_worker [OF assms(2), of _ w WFetch])
        (use deliver(2) ok [of w] in \<open>auto simp: set_worker_def stage_ok_def putProcessedData_def put_processed_def split: if_splits\<close>)
  qed
qed

lemma submit_inv:
  assumes "queue_inv process lines q" "unread q = line # rest"
  shows "queue_inv process lines (q\<lparr>unread := rest, fed := fed q @ [line], waiting_data := waiting_data q @ [line]\<rparr>)"
    (is "queue_inv _ _ ?r")
proof -
  have n: "proc_counter q \<le> length (fed q)" "return_counter q \<le> proc_counter q" using assms(1) by (auto simp: queue_inv_def)
  have a: "answer process ?r i = answer process q i" if "i < proc_counter q" for i
    using that n by (simp add: answer_def nth_append)
  have "stage_ok process ?r (worker ?r w)" for w
  proof -
    have "stage_ok process q (worker q w)" using assms(1) by (simp add: queue_inv_def)
    then show ?thesis using a n by (auto simp: stage_ok_def nth_append split: wstage.splits)
  qed
  moreover have "written ?r = map (answer process ?r) [0..<return_counter ?r]"
    using assms(1) a n(2) by (auto simp: queue_inv_def)
  moreover have "in_work ?r i = in_work q i" for i by (simp add: in_work_def)
  ultimately show ?thesis using assms a n unfolding queue_inv_def by auto
qed

lemma create_worker_inv:
  assumes "queue_inv process lines q"
  shows "queue_inv process lines (create_worker q)"
proof -
  let ?n = "all_workers q"
  have n: "worker q ?n = WNone" using assms by (simp add: queue_inv_def)
  have "in_work (create_worker q) i" if "in_work q i" for i
    by (rule in_work_step [OF that, of _ ?n WFetch]) (simp_all add: create_worker_def n)
  moreover have "stage_ok process (create_worker q) (worker (create_worker q) w)" for w
  proof -
    have "stage_ok process q (worker q w)" using assms by (simp add: queue_inv_def)
    then show ?thesis by (auto simp: create_worker_def stage_ok_def answer_def split: wstage.splits)
  qed
  moreover have "\<forall>v \<ge> all_workers (create_worker q). worker (create_worker q) v = WNone"
    using assms by (auto simp: queue_inv_def create_worker_def)
  ultimately show ?thesis using assms unfolding queue_inv_def by (auto simp: create_worker_def answer_def)
qed

text \<open>The invariant does not speak of the main thread's place.\<close>

lemma queue_inv_main [simp]: "queue_inv process lines (q\<lparr>main := st\<rparr>) = queue_inv process lines q"
  by (auto simp: queue_inv_def stage_ok_def in_work_def answer_def split: wstage.splits)

lemma queue_inv_max [simp]: "queue_inv process lines (q\<lparr>max_workers := n\<rparr>) = queue_inv process lines q"
  by (auto simp: queue_inv_def stage_ok_def in_work_def answer_def split: wstage.splits)

lemma feed_inv:
  assumes "queue_inv process lines q" "unread q = line # rest"
  shows "queue_inv process lines (feed line rest q)"
  using submit_inv [OF assms] create_worker_inv [OF submit_inv [OF assms]]
  by (simp add: feed_def putNextWork_def Let_def)

lemma take_result_inv:
  assumes "queue_inv process lines q" "waitProcessedData q = (Some (Some data), q1)"
  shows "queue_inv process lines (write_out data q1)"
proof -
  let ?n = "return_counter q"
  have d: "processed_data q ?n = Some data" "q1 = q\<lparr>processed_data := (processed_data q)(?n := None),
      processed_count := processed_count q - 1, return_counter := ?n + 1\<rparr>"
    using assms(2) by (auto simp: waitProcessedData_def split: option.splits if_splits)
  then have "?n < proc_counter q" "data = answer process q ?n" using assms(1) by (auto simp: queue_inv_def)
  then show ?thesis using assms(1)
    by (auto simp: queue_inv_def d(2) write_out_def stage_ok_def in_work_def answer_def split: wstage.splits)
qed

lemma wait_null: "waitProcessedData q = (Some None, q1) \<Longrightarrow> q1 = q \<and> return_counter q = proc_counter q"
  by (auto simp: waitProcessedData_def split: option.splits if_splits)

lemma main_step_inv:
  assumes "main_step q r" "queue_inv process lines q"
  shows "queue_inv process lines r"
  using assms(1)
  by cases (use assms(2) take_result_inv feed_inv in \<open>auto simp: destroy_queue_def dest: wait_null\<close>)

lemma filter_reachable_inv:
  assumes "(filter_step process)\<^sup>*\<^sup>* (start_queue n m lines) q"
  shows "queue_inv process lines q"
  using assms
proof (induction rule: rtranclp_induct)
  case base
  show ?case by (rule queue_inv_start)
next
  case (step q r)
  then show ?case using worker_step_inv main_step_inv by (auto simp: filter_step_def)
qed

section \<open>Properties\<close>

text \<open>
  C13: Whatever the number of threads and their interleaving, what the filter has written is the sequence of the answers
  to the first lines of the input, in the order of the input and each once; a main thread that waits for a result waits for
  one that a worker has taken.
\<close>

theorem sql_output_in_order:
  assumes "(filter_step process)\<^sup>*\<^sup>* (start_queue n m lines) q"
  shows "\<exists>k \<le> length lines. written q = map (\<lambda>i. process (i + 1) (lines ! i)) [0..<k] \<and>
    (fst (waitProcessedData q) = None \<longrightarrow> in_work q k)"
proof (intro exI conjI impI)
  have inv: "queue_inv process lines q" by (rule filter_reachable_inv [OF assms])
  have le: "return_counter q \<le> proc_counter q" "proc_counter q \<le> length (fed q)" "lines = fed q @ unread q"
    using inv by (auto simp: queue_inv_def)
  show "return_counter q \<le> length lines" using le by simp
  show "written q = map (\<lambda>i. process (i + 1) (lines ! i)) [0..<return_counter q]"
    using inv le by (auto simp: queue_inv_def answer_def nth_append)
  assume "fst (waitProcessedData q) = None"
  then have "processed_data q (return_counter q) = None" "return_counter q \<noteq> proc_counter q"
    by (auto simp: waitProcessedData_def split: option.splits if_splits)
  then show "in_work q (return_counter q)" using inv le(1) by (auto simp: queue_inv_def)
qed

definition reply :: "nat \<Rightarrow> string \<Rightarrow> string" where
  "reply i line = line @ ''!''"

theorem sql_output_in_order_witness:
  "\<exists>k \<le> length [''a'', ''b'']. written (feed ''a'' [''b''] (start_queue 2 8 [''a'', ''b''])) =
     map (\<lambda>i. reply (i + 1) ([''a'', ''b''] ! i)) [0..<k]"
proof -
  have "main_step (start_queue 2 8 [''a'', ''b'']) (feed ''a'' [''b''] (start_queue 2 8 [''a'', ''b'']))"
    by (rule main_step.read) (simp_all add: start_queue_def)
  then have "(filter_step reply)\<^sup>*\<^sup>* (start_queue 2 8 [''a'', ''b'']) (feed ''a'' [''b''] (start_queue 2 8 [''a'', ''b'']))"
    by (auto simp: filter_step_def)
  from sql_output_in_order [OF this] show ?thesis by blast
qed

text \<open>
  C40: The output can be cut off: \<^verbatim>\<open>waitProcessedData\<close> takes the lines no worker has fetched yet for the end of the data, so
  on an input of one line there is a run that ends without having written anything.
\<close>

theorem sql_output_lost:
  assumes "0 < unat n"
  shows "\<exists>q. (filter_step process)\<^sup>*\<^sup>* (start_queue n m [line]) q \<and> main q = MEnd \<and> written q = [] \<and> fed q = [line]"
proof -
  let ?q0 = "start_queue n m [line]"
  let ?q1 = "feed line [] ?q0"
  let ?q2 = "?q1\<lparr>main := MDrain\<rparr>"
  let ?q3 = "destroy_queue (?q2\<lparr>main := MEnd\<rparr>)"
  have f: "main ?q1 = MRead" "unread ?q1 = []" "processed_data ?q1 = Map.empty" "return_counter ?q1 = 0"
      "proc_counter ?q1 = 0" "written ?q1 = []" "fed ?q1 = [line]"
    using assms by (simp_all add: feed_def putNextWork_def start_queue_def create_worker_def pop_data_def Let_def)
  have "main_step ?q0 ?q1" by (rule main_step.read) (simp_all add: start_queue_def)
  moreover have "main_step ?q1 ?q2" by (rule main_step.read_end) (simp_all add: f)
  moreover have "main_step ?q2 ?q3" by (rule main_step.finish) (simp_all add: waitProcessedData_def f)
  ultimately have "(filter_step process)\<^sup>*\<^sup>* ?q0 ?q3"
    by (meson converse_rtranclp_into_rtranclp filter_step_def rtranclp.rtrancl_refl)
  then show ?thesis by (intro exI [of _ ?q3]) (simp add: destroy_queue_def f)
qed

theorem sql_output_lost_witness:
  "\<exists>q. (filter_step reply)\<^sup>*\<^sup>* (start_queue 1 2 [''INSERT'']) q \<and> main q = MEnd \<and> written q = [] \<and> fed q = [''INSERT'']"
  by (rule sql_output_lost) simp

end
