(* ===== verification/Spec2Isabelle.thy ===== *)
theory Spec2Isabelle
  imports Drt_Base64 Drt_Binary Drt_Avl_Ops Drt_Bstring Drt_Hash Drt_Eval Drt_Mem Drt_Time Drt_FastRpc_Props
    Drt_List Drt_Pool Drt_Sort Drt_SqlQueue
begin

text \<open>
  A verification development for drt, a C++ library of strings, containers, threads, streams and protocols
  (\<^verbatim>\<open>src/src\<close>).

  \<^bold>\<open>The program.\<close>  \<^verbatim>\<open>core\<close> holds the base: memory routines and types (\<^verbatim>\<open>base\<close>), byte strings and text (\<^verbatim>\<open>types\<close>),
  containers (\<^verbatim>\<open>struct\<close>), readers and writers of binary data (\<^verbatim>\<open>parse\<close>), an expression evaluator (\<^verbatim>\<open>eval\<close>), threads with
  message boxes (\<^verbatim>\<open>thread\<close>, \<^verbatim>\<open>msg\<close>), times (\<^verbatim>\<open>time\<close>).  On top of it are \<^verbatim>\<open>app\<close> (worker pool, cache), \<^verbatim>\<open>net\<close> (HTTP, XML and
  binary RPC), \<^verbatim>\<open>sql\<close>, \<^verbatim>\<open>xml\<close>, \<^verbatim>\<open>io\<close>, \<^verbatim>\<open>config\<close> and \<^verbatim>\<open>gui\<close>.  The components modelled here call each other as the code
  does: the RPC coder uses the copies of \<^verbatim>\<open>Mem\<close>, the times and the associative containers; the worker pool uses the message
  boxes of the threads; the SQL dump filter uses the expression evaluator; the sort uses the exchange routines of \<^verbatim>\<open>Mem\<close>.

  \<^bold>\<open>Theories and code.\<close>
  \<^item> \<open>Drt_Prelude\<close>: machine words, exceptions as values, results (\<open>exn + 'a\<close>) and state transformers, bounded memory,
    little- and big-endian octets.  \<open>Drt_Heap\<close>: the store of pointer structures.  \<open>Drt_Dict\<close>: the contract (locale \<open>dict\<close>) of the
    associative containers.
  \<^item> \<open>Drt_Base64\<close>: \<^verbatim>\<open>core/parse/MemBase64.cxx\<close>.  \<open>Drt_Binary\<close>: \<^verbatim>\<open>BinaryReader\<close>, \<^verbatim>\<open>BinaryWriter\<close> and their memory and blob
    versions in \<^verbatim>\<open>core/parse\<close>.
  \<^item> \<open>Drt_Avl\<close> (operations of \<^verbatim>\<open>core/struct/Avl.cxx\<close> on the pointer level), \<open>Drt_Avl_Tree\<close> (functional trees),
    \<open>Drt_Avl_Rep\<close> (the heap holds a tree; every routine computes its functional counterpart), \<open>Drt_Avl_Ops\<close> (the tree as a
    dictionary).  \<open>Drt_Hash\<close>: \<^verbatim>\<open>core/struct/Hash.cxx\<close>.  \<open>Drt_List\<close>: \<^verbatim>\<open>core/struct/List.cxx\<close>, with the contract \<open>deque\<close>.
  \<^item> \<open>Drt_Bstring\<close>: the byte string \<^verbatim>\<open>core/types/String_c.t.hxx\<close>.  \<open>Drt_Eval\<close>: \<^verbatim>\<open>core/eval\<close>.  \<open>Drt_Mem\<close>:
    \<^verbatim>\<open>core/base/Mem.cxx\<close>.  \<open>Drt_Time\<close>: \<^verbatim>\<open>core/time\<close>.
  \<^item> \<open>Drt_FastRpc\<close> (\<^verbatim>\<open>net/rpc/fastrpc\<close> and the shared \<^verbatim>\<open>RpcEncoder\<close>, \<^verbatim>\<open>RpcDecoder\<close>), \<open>Drt_FastRpc_Wire\<close> (the format of
    nested values), \<open>Drt_FastRpc_Props\<close> (types, bounds, errors).
  \<^item> \<open>Drt_Thread\<close>: message boxes of \<^verbatim>\<open>core/thread/Thread.cxx\<close> and the sleep/wake protocol of
    \<^verbatim>\<open>core/msg/unix/MsgSync_unix.cxx\<close>.  \<open>Drt_Pool\<close>: \<^verbatim>\<open>app/workerpool\<close>.
  \<^item> \<open>Drt_Sort\<close>: the quicksort of \<^verbatim>\<open>core/struct/Array.cxx\<close> in the bytes of the array.
  \<^item> \<open>Drt_Sqldump\<close>: the rules and the statements of the SQL dump filter, \<^verbatim>\<open>sql/sqldump_filt/proc/QueueManager.cxx\<close>;
    \<open>Drt_SqlQueue\<close>: its queue, worker threads and main loop.

  \<^bold>\<open>What the lemmas show.\<close>  Round trips: base64, every binary number format, printed expressions, RPC values and whole
  calls, times.  Refinement: the tree and the hash table are finite maps under any sequence of calls, the list is a
  sequence.  Functional behaviour: the sort orders the elements of any size in place; the SQL filter keeps exactly the tuples its
  rules select, and writes its answers in the order of the lines however the threads interleave.  Invariants: the terminator and padding of byte strings, the tree balance (in the representation), the worker pool's
  account of every work.  Termination and liveness: the expression parser and the RPC decoder end on any input, iteration visits every
  entry, the worker pool comes to rest with every result delivered.  Errors and bounds: where the code reads outside its
  memory, loses data or rejects its own output, a theorem states exactly when.

  \<^bold>\<open>State, effects, errors.\<close>  An object is a record, a method a function \<open>'s \<Rightarrow> (exn + 'a) \<times> 's\<close>.  Exceptions are the
  constructors of \<open>exn\<close>; \<open>OutOfBounds\<close>, \<open>NullAccess\<close>, \<open>AssertFailed\<close>, \<open>Unreachable\<close> and \<open>Undefined\<close> mark what C++ leaves
  undefined.  Concurrent components are step relations; a section under a lock is one step.

  \<^bold>\<open>Bounds and fuel.\<close>  A loop along pointers is bounded by the number of addresses handed out so far (\<open>brk\<close>); a walk that is longer
  meets a cell twice.  The expression parser is bounded by the length of the text, a chain of the hash table by its
  nodes, the recursion of the RPC decoder by the octets left, \<open>poll\<close> by the messages in the box, the loop of \<open>addWork\<close> by the
  length of the queue, the scans and rounds of the sort by the number of elements.  Lemmas show that none of these bounds is reached, so \<open>Diverges\<close> is never the result in the states
  considered.

  \<^bold>\<open>Machine.\<close>  64-bit little-endian, \<^verbatim>\<open>int\<close> of 32 and \<^verbatim>\<open>long\<close> of 64 bits, signed arithmetic wraps where the code relies on it.
  Memory accesses of threads are sequentially consistent.  The allocator returns fresh cells and does not fail.

  \<^bold>\<open>Not modelled.\<close>  The C library (\<^verbatim>\<open>gmtime_r\<close>, \<^verbatim>\<open>timegm\<close>, \<^verbatim>\<open>strtoll\<close> beyond its documented result), conversions between floating-point formats and the
  code a worker or message runs are parameters.  Reference counting is left out where it does not change results.  Left
  out as a whole, with the reason in the manifest: text with its two encodings (\<^verbatim>\<open>String.cxx\<close>), signals (\<^verbatim>\<open>emit\<close>), the object model and
  reflection, the memory manager, system-call wrappers (files, sockets, mutexes), HTTP, XML and the SQL
  drivers (third-party clients), and the GUI.
\<close>

end
